(* ===== verification/Prelude.thy ===== *)
theory Prelude
  imports Main "HOL-Library.Word"
begin

text \<open>
  The prelude of the tatakOS development: the C integer types of
  \<^verbatim>\<open>include/kernel/types.h\<close>, the sleep channels of the kernel, the state-and-outcome
  monad in which every kernel routine is written, its Hoare-style rules, the loop combinators
  and the list lemmas the components share.

  A routine of type \<open>('s, 'a) kmonad\<close> maps a state to an \<open>outcome\<close>: \<open>Ok (a, s')\<close> when it
  returns \<open>a\<close>, \<open>Panic msg\<close> when it reaches \<^verbatim>\<open>panic(msg)\<close> (which never returns),
  \<open>Sleep c\<close> when it goes to sleep on channel \<open>c\<close> and only another process can let it go on, and
  \<open>Diverge\<close> when a loop of the code has used up the iterations its model allows; the lemmas that
  such a routine returns show that the bound is never reached.
\<close>

section \<open>C integer types\<close>

type_synonym uint8 = "8 word"
type_synonym uint16 = "16 word"
type_synonym uint32 = "32 word"
type_synonym uint64 = "64 word"

named_theorems kdefs \<open>definitions of kernel routines, to be unfolded together\<close>
named_theorems frame \<open>what an operation leaves unchanged\<close>
named_theorems wp \<open>rules for the state-and-outcome monad\<close>

lemma unat_less_exp: "unat (w :: 'a::len word) < 2 ^ LENGTH('a)"
  by (rule unsigned_less)

section \<open>Sleep channels and outcomes\<close>

text \<open>
  A channel of \<^verbatim>\<open>sleep(chan, lk)\<close> is the address of a kernel object. One constructor per kind
  of object the code sleeps on; the argument is the object's index in its table.
\<close>

datatype chan =
    ChanNone
  | ChanProc nat
  | ChanTicks
  | ChanLog
  | ChanBufLock nat
  | ChanInodeLock nat
  | ChanPipeRead uint64
  | ChanPipeWrite uint64
  | ChanConsole
  | ChanUart
  | ChanDiskFree
  | ChanDiskBuf nat

datatype 'a outcome = Ok 'a | Panic string | Sleep chan | Diverge

type_synonym ('s, 'a) kmonad = "'s \<Rightarrow> ('a \<times> 's) outcome"

definition ret :: "'a \<Rightarrow> ('s, 'a) kmonad" where
  "ret a = (\<lambda>s. Ok (a, s))"

definition panic :: "string \<Rightarrow> ('s, 'a) kmonad" where
  "panic msg = (\<lambda>s. Panic msg)"

definition sleep_on :: "chan \<Rightarrow> ('s, 'a) kmonad" where
  "sleep_on c = (\<lambda>s. Sleep c)"

definition diverge :: "('s, 'a) kmonad" where
  "diverge = (\<lambda>s. Diverge)"

text \<open>An operation whose effect C leaves undefined, such as a store outside an array.\<close>

definition ub :: "('s, 'a) kmonad" where
  "ub = (\<lambda>s. Panic ''undefined behaviour'')"

definition bnd :: "('s, 'a) kmonad \<Rightarrow> ('a \<Rightarrow> ('s, 'b) kmonad) \<Rightarrow> ('s, 'b) kmonad" where
  "bnd m f = (\<lambda>s. case m s of Ok (a, s') \<Rightarrow> f a s' | Panic e \<Rightarrow> Panic e | Sleep c \<Rightarrow> Sleep c
    | Diverge \<Rightarrow> Diverge)"

definition sq :: "('s, unit) kmonad \<Rightarrow> ('s, 'b) kmonad \<Rightarrow> ('s, 'b) kmonad" where
  "sq m n = bnd m (\<lambda>_. n)"

definition gets :: "('s \<Rightarrow> 'a) \<Rightarrow> ('s, 'a) kmonad" where
  "gets f = (\<lambda>s. Ok (f s, s))"

definition modify :: "('s \<Rightarrow> 's) \<Rightarrow> ('s, unit) kmonad" where
  "modify f = (\<lambda>s. Ok ((), f s))"

primrec for_each :: "'a list \<Rightarrow> ('a \<Rightarrow> ('s, unit) kmonad) \<Rightarrow> ('s, unit) kmonad" where
  "for_each [] body = ret ()"
| "for_each (x # xs) body = sq (body x) (for_each xs body)"

lemma run_ret [simp]: "ret a s = Ok (a, s)"
  by (simp add: ret_def)

lemma run_panic [simp]: "panic msg s = Panic msg"
  by (simp add: panic_def)

lemma run_sleep_on [simp]: "sleep_on c s = Sleep c"
  by (simp add: sleep_on_def)

lemma run_diverge [simp]: "diverge s = Diverge"
  by (simp add: diverge_def)

lemma run_ub [simp]: "ub s = Panic ''undefined behaviour''"
  by (simp add: ub_def)

lemma run_gets [simp]: "gets f s = Ok (f s, s)"
  by (simp add: gets_def)

lemma run_modify [simp]: "modify f s = Ok ((), f s)"
  by (simp add: modify_def)

lemma run_bnd: "bnd m f s = (case m s of Ok (a, s') \<Rightarrow> f a s' | Panic e \<Rightarrow> Panic e | Sleep c \<Rightarrow> Sleep c
    | Diverge \<Rightarrow> Diverge)"
  by (simp add: bnd_def)

lemma run_sq: "sq m n s = (case m s of Ok (a, s') \<Rightarrow> n s' | Panic e \<Rightarrow> Panic e | Sleep c \<Rightarrow> Sleep c
    | Diverge \<Rightarrow> Diverge)"
  by (simp add: sq_def bnd_def)

lemma bnd_Ok [simp]: "m s = Ok (a, s') \<Longrightarrow> bnd m f s = f a s'"
  by (simp add: bnd_def)

lemma sq_Ok [simp]: "m s = Ok (a, s') \<Longrightarrow> sq m n s = n s'"
  by (simp add: sq_def bnd_def)

lemma bnd_Panic [simp]: "m s = Panic e \<Longrightarrow> bnd m f s = Panic e"
  by (simp add: bnd_def)

lemma sq_Panic [simp]: "m s = Panic e \<Longrightarrow> sq m n s = Panic e"
  by (simp add: sq_def bnd_def)

lemma bnd_Sleep [simp]: "m s = Sleep c \<Longrightarrow> bnd m f s = Sleep c"
  by (simp add: bnd_def)

lemma sq_Sleep [simp]: "m s = Sleep c \<Longrightarrow> sq m n s = Sleep c"
  by (simp add: sq_def bnd_def)

lemma bnd_Diverge [simp]: "m s = Diverge \<Longrightarrow> bnd m f s = Diverge"
  by (simp add: bnd_def)

lemma sq_Diverge [simp]: "m s = Diverge \<Longrightarrow> sq m n s = Diverge"
  by (simp add: sq_def bnd_def)

text \<open>Inversion: what a routine that returned has done, step by step.\<close>

lemma bnd_OkE:
  assumes "bnd m f s = Ok r"
  obtains a s' where "m s = Ok (a, s')" and "f a s' = Ok r"
  using assms by (auto simp: bnd_def split: outcome.splits prod.splits)

lemma sq_OkE:
  assumes "sq m n s = Ok r"
  obtains s' where "m s = Ok ((), s')" and "n s' = Ok r"
  using assms by (auto simp: sq_def bnd_def split: outcome.splits prod.splits)

lemma ret_OkE:
  assumes "ret a s = Ok r"
  obtains "r = (a, s)"
  using assms by simp

lemma gets_OkE:
  assumes "gets f s = Ok r"
  obtains "r = (f s, s)"
  using assms by simp

lemma modify_OkE:
  assumes "modify f s = Ok r"
  obtains "r = ((), f s)"
  using assms by simp

lemmas OkEs = bnd_OkE sq_OkE ret_OkE gets_OkE modify_OkE

lemma bnd_Ok_iff:
  "bnd m f s = Ok r \<longleftrightarrow> (\<exists>a s'. m s = Ok (a, s') \<and> f a s' = Ok r)"
  by (auto simp: bnd_def split: outcome.splits)

lemma sq_Ok_iff:
  "sq m n s = Ok r \<longleftrightarrow> (\<exists>s'. m s = Ok ((), s') \<and> n s' = Ok r)"
  by (auto simp: sq_def bnd_def split: outcome.splits)

text \<open>The monad laws.\<close>

lemma bnd_ret_left: "bnd (ret a) f = f a"
  by (simp add: bnd_def fun_eq_iff)

lemma bnd_ret_right: "bnd m ret = m"
  by (rule ext) (simp add: bnd_def split: outcome.splits)

lemma bnd_assoc: "bnd (bnd m f) g = bnd m (\<lambda>a. bnd (f a) g)"
  by (rule ext) (simp add: bnd_def split: outcome.splits prod.splits)

section \<open>Contracts\<close>

text \<open>
  \<open>returns P m Q\<close> is total correctness: from every state with \<open>P\<close> the routine returns, and
  its result and final state satisfy \<open>Q\<close>. \<open>keeps I m\<close> is partial correctness for a state
  invariant: whenever the routine returns from a state with \<open>I\<close>, \<open>I\<close> holds again.
\<close>

definition returns :: "('s \<Rightarrow> bool) \<Rightarrow> ('s, 'a) kmonad \<Rightarrow> ('a \<Rightarrow> 's \<Rightarrow> bool) \<Rightarrow> bool" where
  "returns P m Q \<longleftrightarrow> (\<forall>s. P s \<longrightarrow> (\<exists>a s'. m s = Ok (a, s') \<and> Q a s'))"

definition keeps :: "('s \<Rightarrow> bool) \<Rightarrow> ('s, 'a) kmonad \<Rightarrow> bool" where
  "keeps I m \<longleftrightarrow> (\<forall>s a s'. I s \<longrightarrow> m s = Ok (a, s') \<longrightarrow> I s')"

lemma returnsI:
  "(\<And>s. P s \<Longrightarrow> \<exists>a s'. m s = Ok (a, s') \<and> Q a s') \<Longrightarrow> returns P m Q"
  by (simp add: returns_def)

lemma returnsE:
  assumes "returns P m Q" and "P s"
  obtains a s' where "m s = Ok (a, s')" and "Q a s'"
  using assms by (auto simp: returns_def)

lemma keepsI: "(\<And>s a s'. I s \<Longrightarrow> m s = Ok (a, s') \<Longrightarrow> I s') \<Longrightarrow> keeps I m"
  unfolding keeps_def by blast

lemma keepsD: "keeps I m \<Longrightarrow> I s \<Longrightarrow> m s = Ok (a, s') \<Longrightarrow> I s'"
  unfolding keeps_def by blast

lemma keeps_ret [wp, intro]: "keeps I (ret a)"
  by (simp add: keeps_def)

lemma keeps_panic [wp, intro]: "keeps I (panic e)"
  by (simp add: keeps_def)

lemma keeps_sleep_on [wp, intro]: "keeps I (sleep_on c)"
  by (simp add: keeps_def)

lemma keeps_diverge [wp, intro]: "keeps I diverge"
  by (simp add: keeps_def)

lemma keeps_gets [wp, intro]: "keeps I (gets f)"
  by (simp add: keeps_def)

lemma keeps_modify [wp]: "(\<And>s. I s \<Longrightarrow> I (f s)) \<Longrightarrow> keeps I (modify f)"
  by (simp add: keeps_def)

lemma keeps_bnd [wp, intro]: "keeps I m \<Longrightarrow> (\<And>a. keeps I (f a)) \<Longrightarrow> keeps I (bnd m f)"
  unfolding keeps_def by (blast elim: bnd_OkE)

lemma keeps_sq [wp, intro]: "keeps I m \<Longrightarrow> keeps I n \<Longrightarrow> keeps I (sq m n)"
  unfolding sq_def by blast

lemma keeps_if [wp, intro]: "(b \<Longrightarrow> keeps I m) \<Longrightarrow> (\<not> b \<Longrightarrow> keeps I n) \<Longrightarrow> keeps I (if b then m else n)"
  by simp

lemma keeps_for_each [wp, intro]: "(\<And>x. x \<in> set xs \<Longrightarrow> keeps I (body x)) \<Longrightarrow> keeps I (for_each xs body)"
  by (induction xs) auto

lemma returns_bnd [wp]:
  "returns P m R \<Longrightarrow> (\<And>a. returns (R a) (f a) Q) \<Longrightarrow> returns P (bnd m f) Q"
  unfolding returns_def by (metis bnd_Ok)

lemma returns_conseq:
  "returns P m Q \<Longrightarrow> (\<And>s. P' s \<Longrightarrow> P s) \<Longrightarrow> (\<And>a s. Q a s \<Longrightarrow> Q' a s) \<Longrightarrow> returns P' m Q'"
  unfolding returns_def by meson

text \<open>Running the body of a loop over a list, one element at a time.\<close>

lemma for_each_append: "for_each (xs @ ys) body = sq (for_each xs body) (for_each ys body)"
proof (induction xs)
  case Nil
  show ?case by (simp add: sq_def bnd_ret_left)
next
  case (Cons x xs)
  then show ?case by (simp add: sq_def bnd_assoc)
qed

lemma for_each_invariant:
  assumes "for_each xs body s = Ok (u, s')"
    and "I 0 s"
    and "\<And>i t t'. i < length xs \<Longrightarrow> I i t \<Longrightarrow> body (xs ! i) t = Ok ((), t') \<Longrightarrow> I (Suc i) t'"
  shows "I (length xs) s'"
  using assms
proof (induction xs arbitrary: s I)
  case Nil
  then show ?case by simp
next
  case (Cons x xs)
  from Cons.prems(1) obtain t where t: "body x s = Ok ((), t)" and rest: "for_each xs body t = Ok (u, s')"
    by (auto elim: sq_OkE)
  have start: "I (Suc 0) t"
    using Cons.prems(3)[of 0 s t] Cons.prems(2) t by simp
  have "I (Suc (length xs)) s'"
    by (rule Cons.IH [OF rest, where I = "\<lambda>i. I (Suc i)"], rule start)
      (use Cons.prems(3) in force)
  then show ?case by simp
qed

text \<open>A counting loop returns when its body does at every index, from every state it can meet.\<close>

lemma for_each_upt:
  assumes "I 0 s"
    and "\<And>i t. i < n \<Longrightarrow> I i t \<Longrightarrow> \<exists>t'. body i t = Ok ((), t') \<and> I (Suc i) t'"
  shows "\<exists>s'. for_each [0..<n] body s = Ok ((), s') \<and> I n s'"
  using assms(2)
proof (induction n)
  case 0
  then show ?case using assms(1) by simp
next
  case (Suc n)
  then obtain t where t: "for_each [0..<n] body s = Ok ((), t)" "I n t" by (meson less_SucI)
  then obtain t' where "body n t = Ok ((), t')" "I (Suc n) t'" using Suc.prems by blast
  with t show ?case by (simp add: for_each_append)
qed

end
