(* ===== verification/Kstring.thy ===== *)
theory Kstring
  imports Prelude
begin

text \<open>
  \<^verbatim>\<open>src/kernel/lib/string.c\<close>: the byte-level memory and string routines every other part of the
  kernel calls. Physical memory is a function from 64-bit addresses to bytes. The routines that
  only read through a pointer (\<open>memcmp\<close>, \<open>strncmp\<close>, \<open>strlen\<close>) take the pointer as the
  function from offsets to bytes it gives access to; \<open>memset\<close> and \<open>memmove\<close> work on the memory
  itself, because what \<open>memmove\<close> promises is about overlapping regions of it; \<open>strncpy\<close> and
  \<open>safestrcpy\<close> fill a destination array that does not overlap their source.

  Main facts: \<open>memmove\<close> copies correctly whatever the overlap, \<open>memcmp\<close> and \<open>strncmp\<close> decide
  equality of the bytes they look at, \<open>safestrcpy\<close> stays in its buffer and always leaves a
  terminator.
\<close>

type_synonym memory = "uint64 \<Rightarrow> uint8"
type_synonym cptr = "nat \<Rightarrow> uint8"

section \<open>The routines\<close>

text \<open>\<open>memset\<close>: iteration \<open>i\<close> of the loop stores the byte at \<open>dst + i\<close>.\<close>

primrec memset :: "uint64 \<Rightarrow> int \<Rightarrow> nat \<Rightarrow> memory \<Rightarrow> memory" where
  "memset dst c 0 m = m"
| "memset dst c (Suc n) m = (memset dst c n m)(dst + of_nat n := word_of_int c)"

fun memcmp :: "cptr \<Rightarrow> cptr \<Rightarrow> nat \<Rightarrow> int" where
  "memcmp s1 s2 0 = 0"
| "memcmp s1 s2 (Suc n) =
     (if s1 0 \<noteq> s2 0 then uint (s1 0) - uint (s2 0)
      else memcmp (\<lambda>i. s1 (Suc i)) (\<lambda>i. s2 (Suc i)) n)"

text \<open>The two loops of \<open>memmove\<close>: upwards, and downwards from the ends of the regions.\<close>

primrec move_up :: "uint64 \<Rightarrow> uint64 \<Rightarrow> nat \<Rightarrow> memory \<Rightarrow> memory" where
  "move_up d s 0 m = m"
| "move_up d s (Suc n) m = move_up (d + 1) (s + 1) n (m(d := m s))"

primrec move_down :: "uint64 \<Rightarrow> uint64 \<Rightarrow> nat \<Rightarrow> memory \<Rightarrow> memory" where
  "move_down d s 0 m = m"
| "move_down d s (Suc n) m = move_down (d - 1) (s - 1) n (m(d - 1 := m (s - 1)))"

definition memmove :: "uint64 \<Rightarrow> uint64 \<Rightarrow> nat \<Rightarrow> memory \<Rightarrow> memory" where
  "memmove dst src n m =
     (if n = 0 then m
      else if src < dst \<and> src + of_nat n > dst
      then move_down (dst + of_nat n) (src + of_nat n) n m
      else move_up dst src n m)"

definition memcpy :: "uint64 \<Rightarrow> uint64 \<Rightarrow> nat \<Rightarrow> memory \<Rightarrow> memory" where
  "memcpy dst src n m = memmove dst src n m"

fun strncmp :: "cptr \<Rightarrow> cptr \<Rightarrow> nat \<Rightarrow> int" where
  "strncmp p q 0 = 0"
| "strncmp p q (Suc n) =
     (if p 0 \<noteq> 0 \<and> p 0 = q 0 then strncmp (\<lambda>i. p (Suc i)) (\<lambda>i. q (Suc i)) n
      else uint (p 0) - uint (q 0))"

text \<open>The \<open>n\<close> bytes \<open>strncpy\<close> stores: the source up to its terminator, then zeros.\<close>

fun strncpy :: "cptr \<Rightarrow> nat \<Rightarrow> uint8 list" where
  "strncpy t 0 = []"
| "strncpy t (Suc n) =
     (if t 0 \<noteq> 0 then t 0 # strncpy (\<lambda>i. t (Suc i)) n else 0 # replicate n 0)"

text \<open>
  \<open>safestrcpy\<close> on a destination array \<open>s\<close>, from index \<open>k\<close> on, with \<open>n\<close> the value the counter
  has before the test \<^verbatim>\<open>--n > 0\<close>: the loop copies while the counter stays positive and the byte
  is not NUL, and the last statement stores a NUL at the position reached.
\<close>

fun safestrcpy_loop :: "uint8 list \<Rightarrow> nat \<Rightarrow> cptr \<Rightarrow> nat \<Rightarrow> uint8 list" where
  "safestrcpy_loop s k t n =
     (if n - 1 > 0
      then (if t 0 \<noteq> 0 then safestrcpy_loop (s[k := t 0]) (Suc k) (\<lambda>i. t (Suc i)) (n - 1)
            else (s[k := 0])[Suc k := 0])
      else s[k := 0])"

definition safestrcpy :: "uint8 list \<Rightarrow> cptr \<Rightarrow> int \<Rightarrow> uint8 list" where
  "safestrcpy s t n = (if n \<le> 0 then s else safestrcpy_loop s 0 t (nat n))"

text \<open>\<open>strlen\<close> runs until it meets a NUL; without one it does not return.\<close>

partial_function (option) strlen_from :: "cptr \<Rightarrow> nat \<Rightarrow> nat option" where
  "strlen_from s n = (if s n \<noteq> 0 then strlen_from s (Suc n) else Some n)"

definition strlen :: "cptr \<Rightarrow> nat option" where
  "strlen s = strlen_from s 0"

declare safestrcpy_loop.simps [simp del]

section \<open>Addresses of a region\<close>

text \<open>
  Inside a region that does not run past the end of the address space, distinct offsets are
  distinct addresses, and comparing pointers compares offsets.
\<close>

lemma region_inj:
  assumes "i < n" and "j < n" and "n \<le> 2 ^ 64"
  shows "(a :: uint64) + of_nat i = a + of_nat j \<longleftrightarrow> i = j"
proof -
  have "i < 2 ^ 64" and "j < 2 ^ 64"
    using assms by simp_all
  then have "(of_nat i :: uint64) = of_nat j \<longleftrightarrow> i = j"
    by (simp add: word_of_nat_eq_iff take_bit_nat_eq_self)
  then show ?thesis by simp
qed

lemma region_offset:
  fixes a b :: uint64
  assumes "n \<le> 2 ^ 64"
  shows "unat (b - a) < n \<longleftrightarrow> (\<exists>i < n. b = a + of_nat i)"
proof
  assume "unat (b - a) < n"
  moreover have "b = a + of_nat (unat (b - a))" by simp
  ultimately show "\<exists>i < n. b = a + of_nat i" by blast
next
  assume "\<exists>i < n. b = a + of_nat i"
  then obtain i where "i < n" "b = a + of_nat i" by blast
  then show "unat (b - a) < n"
    using assms by (simp add: unat_of_nat take_bit_nat_eq_self)
qed

lemma unat_region:
  fixes a :: uint64
  assumes "unat a + n \<le> 2 ^ 64" and "i < n"
  shows "unat (a + of_nat i) = unat a + i"
  using assms by (simp add: unat_word_ariths unat_of_nat take_bit_nat_eq_self)

section \<open>Correctness\<close>

lemma memset_apply:
  assumes "n \<le> 2 ^ 64"
  shows "memset dst c n m a = (if unat (a - dst) < n then word_of_int c else m a)"
  using assms
proof (induction n)
  case 0
  then show ?case by simp
next
  case (Suc n)
  have "a = dst + of_nat n \<longleftrightarrow> unat (a - dst) = n"
    using Suc.prems by (auto simp: unat_of_nat take_bit_nat_eq_self)
  with Suc show ?case by auto
qed

lemma move_up_apply:
  assumes "unat s + n \<le> 2 ^ 64" and "unat d + n \<le> 2 ^ 64"
    and "d \<le> s \<or> unat s + n \<le> unat d"
  shows "move_up d s n m a = (if unat (a - d) < n then m (s + (a - d)) else m a)"
  using assms
proof (induction n arbitrary: d s m)
  case 0
  then show ?case by simp
next
  case (Suc n)
  show ?case
  proof (cases "n = 0")
    case True
    then show ?thesis by (auto simp: unat_eq_0)
  next
    case False
    have us: "unat (s + 1) = Suc (unat s)" and ud: "unat (d + 1) = Suc (unat d)"
      using unat_region [of s "Suc n" 1] unat_region [of d "Suc n" 1] Suc.prems False by auto
    have "d + 1 \<le> s + 1 \<or> unat (s + 1) + n \<le> unat (d + 1)"
      using Suc.prems(3) us ud by (auto simp: word_le_nat_alt)
    then have IH: "move_up (d + 1) (s + 1) n (m(d := m s)) a =
        (if unat (a - (d + 1)) < n then (m(d := m s)) (s + 1 + (a - (d + 1))) else (m(d := m s)) a)"
      using Suc.IH [of "s + 1" "d + 1"] Suc.prems us ud by simp
    show ?thesis
    proof (cases "a = d")
      case True
      have "unat (- 1 :: uint64) = 2 ^ 64 - 1" by (simp add: unsigned_minus_1_eq_mask mask_eq_exp_minus_1)
      then have "\<not> unat (a - (d + 1)) < n"
        using True Suc.prems by simp
      then show ?thesis using IH True by simp
    next
      case False
      have off: "unat (a - d) = Suc (unat (a - (d + 1)))"
      proof -
        have eq: "a - d = 1 + (a - (d + 1))" by simp
        have "1 + (a - (d + 1)) \<noteq> 0" using False by simp
        then show ?thesis unfolding eq by (rule unatSuc)
      qed
      have "s + 1 + (a - (d + 1)) = s + (a - d)" by simp
      moreover have "s + (a - d) \<noteq> d" if lt: "unat (a - d) < Suc n"
      proof
        assume eq: "s + (a - d) = d"
        have "unat (s + (a - d)) = unat s + unat (a - d)"
          using lt Suc.prems(1) unat_region [of s "Suc n" "unat (a - d)"] by simp
        then have sum: "unat d = unat s + unat (a - d)" unfolding eq .
        from Suc.prems(3) show False
        proof
          assume "d \<le> s"
          with sum off show False by (simp add: word_le_nat_alt)
        next
          assume "unat s + Suc n \<le> unat d"
          with sum lt show False by simp
        qed
      qed
      ultimately show ?thesis using IH False off by auto
    qed
  qed
qed

lemma move_down_apply:
  assumes "unat s + n \<le> 2 ^ 64" and "unat d + n \<le> 2 ^ 64" and "s \<le> d"
  shows "move_down (d + of_nat n) (s + of_nat n) n m a =
    (if unat (a - d) < n then m (s + (a - d)) else m a)"
  using assms
proof (induction n arbitrary: m)
  case 0
  then show ?case by simp
next
  case (Suc n)
  let ?d = "d + of_nat n" and ?s = "s + of_nat n"
  let ?m = "m(?d := m ?s)"
  have IH: "move_down ?d ?s n ?m a = (if unat (a - d) < n then ?m (s + (a - d)) else ?m a)"
    by (rule Suc.IH) (use Suc.prems in simp_all)
  have step: "move_down (d + of_nat (Suc n)) (s + of_nat (Suc n)) (Suc n) m a = move_down ?d ?s n ?m a"
    by (simp add: algebra_simps)
  have at_n: "a = ?d \<longleftrightarrow> unat (a - d) = n"
    using Suc.prems(2) by (auto simp: unat_of_nat take_bit_nat_eq_self)
  have "s + (a - d) \<noteq> ?d" if lt: "unat (a - d) < n"
  proof
    assume eq: "s + (a - d) = ?d"
    have "unat (s + (a - d)) = unat s + unat (a - d)"
      using lt Suc.prems(1) unat_region [of s "Suc n" "unat (a - d)"] by simp
    moreover have "unat ?d = unat d + n"
      using Suc.prems(2) unat_region [of d "Suc n" n] by simp
    ultimately show False
      using eq lt Suc.prems(3) by (simp add: word_le_nat_alt)
  qed
  then show ?case using IH step at_n by auto
qed

lemma memmove_apply:
  assumes "unat src + n \<le> 2 ^ 64" and "unat dst + n \<le> 2 ^ 64"
  shows "memmove dst src n m a = (if unat (a - dst) < n then m (src + (a - dst)) else m a)"
proof (cases "n = 0")
  case True
  then show ?thesis by (simp add: memmove_def)
next
  case False
  show ?thesis
  proof (cases "src < dst \<and> src + of_nat n > dst")
    case True
    then have "src \<le> dst" by auto
    with True show ?thesis
      using False by (simp add: memmove_def move_down_apply [OF assms])
  next
    case no_overlap: False
    have "dst \<le> src \<or> unat src + n \<le> unat dst"
    proof (cases "src < dst")
      case True
      with no_overlap have "src + of_nat n \<le> dst" by simp
      moreover have "unat src + n < 2 ^ 64 \<Longrightarrow> unat (src + of_nat n) = unat src + n"
        by (simp add: unat_word_ariths unat_of_nat take_bit_nat_eq_self)
      moreover have "unat src + n \<noteq> 2 ^ 64"
        using True assms(2) by (simp add: word_less_nat_alt)
      ultimately show ?thesis
        using assms(1) by (simp add: word_le_nat_alt)
    next
      case False
      then show ?thesis by (simp add: not_less)
    qed
    then show ?thesis
      using no_overlap False move_up_apply [OF assms, of m a] by (auto simp: memmove_def)
  qed
qed

text \<open>
  C33. \<open>memmove\<close> copies a region byte for byte even when source and destination overlap, and
  changes nothing else: byte \<open>i\<close> of the destination afterwards is byte \<open>i\<close> of the source
  before, for any two regions inside the address space.
\<close>

theorem memmove_correct:
  assumes "unat src + n \<le> 2 ^ 64" and "unat dst + n \<le> 2 ^ 64"
  shows "(\<forall>i < n. memmove dst src n m (dst + of_nat i) = m (src + of_nat i)) \<and>
    (\<forall>a. unat (a - dst) \<ge> n \<longrightarrow> memmove dst src n m a = m a)"
proof (intro conjI allI impI)
  fix i assume "i < n"
  then have "unat (of_nat i :: uint64) = i"
    using assms(1) by (simp add: unat_of_nat take_bit_nat_eq_self)
  with \<open>i < n\<close> show "memmove dst src n m (dst + of_nat i) = m (src + of_nat i)"
    by (simp add: memmove_apply [OF assms])
next
  fix a assume "unat (a - dst) \<ge> n"
  then show "memmove dst src n m a = m a"
    by (simp add: memmove_apply [OF assms])
qed

theorem memmove_correct_witness:
  "memmove 11 10 3 (\<lambda>a. ucast a) 12 = 11 \<and> memmove 11 10 3 (\<lambda>a. ucast a) 13 = 12 \<and>
   memmove 11 10 3 (\<lambda>a. ucast a) 10 = 10"
proof -
  have *: "(\<forall>i < 3. memmove 11 10 3 (\<lambda>a. ucast a) (11 + of_nat i) = ucast (10 + of_nat i :: uint64)) \<and>
    (\<forall>a. unat (a - 11) \<ge> 3 \<longrightarrow> memmove 11 10 3 (\<lambda>a. ucast a) a = ucast a)"
    by (rule memmove_correct) simp_all
  then have "memmove 11 10 3 (\<lambda>a. ucast a) (11 + of_nat 1) = ucast (10 + of_nat 1 :: uint64)"
    by (elim conjE allE [of _ 1]) simp
  moreover from * have "memmove 11 10 3 (\<lambda>a. ucast a) (11 + of_nat 2) = ucast (10 + of_nat 2 :: uint64)"
    by (elim conjE allE [of _ 2]) (simp del: of_nat_numeral)
  moreover have "memmove 11 10 3 (\<lambda>a. ucast a) 10 = ucast (10 :: uint64)"
    using conjunct2 [OF *, THEN spec, of 10] by (simp add: unsigned_minus_1_eq_mask mask_eq_exp_minus_1)
  ultimately show ?thesis by simp
qed

lemma memcmp_eq_0_iff: "memcmp s1 s2 n = 0 \<longleftrightarrow> (\<forall>i < n. s1 i = s2 i)"
proof (induction n arbitrary: s1 s2)
  case 0
  then show ?case by simp
next
  case (Suc n)
  show ?case
  proof (cases "s1 0 = s2 0")
    case True
    then show ?thesis
      using Suc.IH [of "\<lambda>i. s1 (Suc i)" "\<lambda>i. s2 (Suc i)"] by (simp add: All_less_Suc2)
  next
    case False
    then have "uint (s1 0) \<noteq> uint (s2 0)" by (simp add: word_uint_eq_iff)
    with False show ?thesis by auto
  qed
qed

text \<open>
  The part of a C string of at most \<open>n\<close> bytes that \<open>strncmp\<close> looks at: up to the terminator.
\<close>

fun cstr :: "cptr \<Rightarrow> nat \<Rightarrow> uint8 list" where
  "cstr p 0 = []"
| "cstr p (Suc n) = (if p 0 \<noteq> 0 then p 0 # cstr (\<lambda>i. p (Suc i)) n else [])"

lemma strncmp_eq_0_iff: "strncmp p q n = 0 \<longleftrightarrow> cstr p n = cstr q n"
proof (induction n arbitrary: p q)
  case 0
  then show ?case by simp
next
  case (Suc n)
  show ?case
    using Suc.IH [of "\<lambda>i. p (Suc i)" "\<lambda>i. q (Suc i)"]
    by (auto simp: word_uint_eq_iff [symmetric] uint_0_iff)
qed

lemma strncmp_sign:
  "strncmp p q n < 0 \<longleftrightarrow> (\<exists>i < n. (\<forall>j < i. p j = q j \<and> p j \<noteq> 0) \<and> p i < q i)"
proof (induction n arbitrary: p q)
  case 0
  then show ?case by simp
next
  case (Suc n)
  show ?case
  proof (cases "p 0 \<noteq> 0 \<and> p 0 = q 0")
    case True
    have "(\<exists>i < Suc n. (\<forall>j < i. p j = q j \<and> p j \<noteq> 0) \<and> p i < q i) \<longleftrightarrow>
        (\<exists>i < n. (\<forall>j < i. p (Suc j) = q (Suc j) \<and> p (Suc j) \<noteq> 0) \<and> p (Suc i) < q (Suc i))"
      using True by (auto simp: Ex_less_Suc2 All_less_Suc2)
    then show ?thesis
      using True Suc.IH [of "\<lambda>i. p (Suc i)" "\<lambda>i. q (Suc i)"] by auto
  next
    case False
    have "uint (p 0) - uint (q 0) < 0 \<longleftrightarrow> p 0 < q 0"
      by (simp add: word_less_def)
    moreover have "(\<exists>i < Suc n. (\<forall>j < i. p j = q j \<and> p j \<noteq> 0) \<and> p i < q i) \<longleftrightarrow> p 0 < q 0"
      using False by (auto simp: Ex_less_Suc2 All_less_Suc2)
    ultimately show ?thesis using False by auto
  qed
qed

lemma length_strncpy [simp]: "length (strncpy t n) = n"
  by (induction t n rule: strncpy.induct) auto

lemma length_cstr: "length (cstr t n) \<le> n"
  by (induction t n rule: cstr.induct) auto

lemma strncpy_eq: "strncpy t n = cstr t n @ replicate (n - length (cstr t n)) 0"
  by (induction t n rule: strncpy.induct) (auto simp: Suc_diff_le length_cstr)

lemma cstr_nth_nonzero: "x \<in> set (cstr t n) \<Longrightarrow> x \<noteq> 0"
  by (induction t n rule: cstr.induct) (auto split: if_splits)

lemma safestrcpy_loop_length: "length (safestrcpy_loop s k t n) = length s"
  by (induction s k t n rule: safestrcpy_loop.induct) (subst safestrcpy_loop.simps, simp)

lemma safestrcpy_loop_outside:
  assumes "j < k \<or> k + n \<le> j" and "0 < n"
  shows "safestrcpy_loop s k t n ! j = s ! j"
  using assms
proof (induction s k t n rule: safestrcpy_loop.induct)
  case (1 s k t n)
  show ?case
  proof (cases "n - 1 > 0 \<and> t 0 \<noteq> 0")
    case True
    then have "safestrcpy_loop (s[k := t 0]) (Suc k) (\<lambda>i. t (Suc i)) (n - 1) ! j = s[k := t 0] ! j"
      using "1.prems" by (intro "1.IH") auto
    with True "1.prems" show ?thesis by (auto simp: safestrcpy_loop.simps [of s k t n])
  next
    case False
    with "1.prems" show ?thesis by (subst safestrcpy_loop.simps) auto
  qed
qed

lemma safestrcpy_loop_inside:
  assumes "k + n \<le> length s" and "0 < n"
  shows "take (Suc (length (cstr t (n - 1)))) (drop k (safestrcpy_loop s k t n)) = cstr t (n - 1) @ [0]"
  using assms
proof (induction s k t n rule: safestrcpy_loop.induct)
  case (1 s k t n)
  have hd_k: "take (Suc i) (drop k xs) = xs ! k # take i (drop (Suc k) xs)"
    if "k < length xs" for i and xs :: "uint8 list"
    using that by (simp add: Cons_nth_drop_Suc [symmetric])
  have len: "k < length (safestrcpy_loop s k t n)"
    using "1.prems" by (simp add: safestrcpy_loop_length)
  show ?case
  proof (cases "n - 1 > 0 \<and> t 0 \<noteq> 0")
    case True
    let ?r = "safestrcpy_loop (s[k := t 0]) (Suc k) (\<lambda>i. t (Suc i)) (n - 1)"
    have r: "safestrcpy_loop s k t n = ?r"
      using True by (simp add: safestrcpy_loop.simps [of s k t n])
    have c: "cstr t (n - 1) = t 0 # cstr (\<lambda>i. t (Suc i)) (n - 1 - 1)"
      using True by (cases "n - 1") auto
    have "take (Suc (length (cstr (\<lambda>i. t (Suc i)) (n - 1 - 1)))) (drop (Suc k) ?r) =
        cstr (\<lambda>i. t (Suc i)) (n - 1 - 1) @ [0]"
      using True "1.prems" by (intro "1.IH") auto
    moreover have "?r ! k = t 0"
      using True "1.prems" by (subst safestrcpy_loop_outside) auto
    ultimately show ?thesis
      using len unfolding c r by (simp add: hd_k)
  next
    case False
    then have "cstr t (n - 1) = []"
      by (cases "n - 1") auto
    moreover have "safestrcpy_loop s k t n ! k = 0"
      using False "1.prems" by (subst safestrcpy_loop.simps) auto
    ultimately show ?thesis
      using len by (simp add: hd_k)
  qed
qed

text \<open>
  C37. \<open>safestrcpy\<close> into a buffer of at least \<open>n > 0\<close> bytes: the buffer keeps its length, its
  first bytes are the longest prefix of the source that fits in \<open>n - 1\<close> bytes, a terminator
  follows, and no byte at or beyond index \<open>n\<close> is touched.
\<close>

theorem safestrcpy_terminates_in_buffer:
  assumes "0 < n" and "n \<le> int (length s)"
  shows "length (safestrcpy s t n) = length s \<and>
    take (Suc (length (cstr t (nat n - 1)))) (safestrcpy s t n) = cstr t (nat n - 1) @ [0] \<and>
    drop (nat n) (safestrcpy s t n) = drop (nat n) s"
proof -
  have r: "safestrcpy s t n = safestrcpy_loop s 0 t (nat n)"
    using assms(1) by (simp add: safestrcpy_def)
  have "drop (nat n) (safestrcpy s t n) = drop (nat n) s"
    using assms(1) by (intro nth_equalityI) (auto simp: r safestrcpy_loop_length safestrcpy_loop_outside)
  then show ?thesis
    using assms safestrcpy_loop_inside [of 0 "nat n" s t] by (simp add: r safestrcpy_loop_length)
qed

theorem safestrcpy_terminates_in_buffer_witness:
  "take 3 (safestrcpy [9, 9, 9, 9] (\<lambda>i. if i = 0 then 65 else if i = 1 then 66 else 0) 4) = [65, 66, 0]"
proof -
  have "cstr (\<lambda>i. if i = 0 then 65 else if i = 1 then 66 else 0) 3 = [65, 66]"
    by (simp add: numeral_3_eq_3)
  then show ?thesis
    using safestrcpy_terminates_in_buffer [of 4 "[9, 9, 9, 9]" "\<lambda>i. if i = 0 then 65 else if i = 1 then 66 else 0"]
    by (simp add: numeral_3_eq_3)
qed

lemma strlen_from_eq: "k \<le> n \<Longrightarrow> (\<forall>i < n. s i \<noteq> 0) \<Longrightarrow> s n = 0 \<Longrightarrow> strlen_from s k = Some n"
proof (induction "n - k" arbitrary: k)
  case 0
  then show ?case by (simp add: strlen_from.simps)
next
  case (Suc d)
  then have "strlen_from s (Suc k) = Some n" by simp
  moreover have "s k \<noteq> 0" using Suc by simp
  ultimately show ?case by (simp add: strlen_from.simps [of s k])
qed

lemma strlen_eq: "(\<forall>i < n. s i \<noteq> 0) \<Longrightarrow> s n = 0 \<Longrightarrow> strlen s = Some n"
  by (simp add: strlen_def strlen_from_eq)

end
