(* ===== verification/Bytes.thy ===== *)
theory Bytes
  imports Kstring
begin

text \<open>
  Byte arrays and their little-endian contents. RISC-V is little-endian, and the kernel reads and
  writes its on-disk and in-memory structures by casting byte pointers; the model does the same
  through the two functions \<open>le_encode\<close> and \<open>le_decode\<close>, the windows \<open>slice\<close> and \<open>patch\<close> of a
  byte array, and the 64-bit accesses \<open>read64\<close> and \<open>write64\<close> of physical memory.
\<close>

section \<open>Little-endian numbers\<close>

primrec le_decode :: "uint8 list \<Rightarrow> nat" where
  "le_decode [] = 0"
| "le_decode (b # bs) = unat b + 256 * le_decode bs"

primrec le_encode :: "nat \<Rightarrow> nat \<Rightarrow> uint8 list" where
  "le_encode 0 v = []"
| "le_encode (Suc n) v = of_nat v # le_encode n (v div 256)"

lemma length_le_encode [simp]: "length (le_encode n v) = n"
  by (induction n arbitrary: v) simp_all

lemma le_decode_encode: "le_decode (le_encode n v) = v mod 256 ^ n"
proof (induction n arbitrary: v)
  case 0
  then show ?case by simp
next
  case (Suc n)
  have "le_decode (le_encode (Suc n) v) = v mod 256 + 256 * (v div 256 mod 256 ^ n)"
    by (simp add: Suc unat_of_nat take_bit_eq_mod)
  also have "\<dots> = v mod (256 * 256 ^ n)"
    by (simp add: mod_mult2_eq)
  finally show ?case by simp
qed

lemma le_decode_bound: "le_decode bs < 256 ^ length bs"
proof (induction bs)
  case Nil
  then show ?case by simp
next
  case (Cons b bs)
  have "unat b < 256"
    using unat_less_exp [of b] by simp
  with Cons show ?case by simp
qed

lemma le_encode_decode: "le_encode (length bs) (le_decode bs) = bs"
proof (induction bs)
  case Nil
  then show ?case by simp
next
  case (Cons b bs)
  have b: "unat b < 256"
    using unat_less_exp [of b] by simp
  have "(of_nat (unat b + 256 * le_decode bs) :: uint8) = b"
    by (rule word_unat_eq_iff [THEN iffD2]) (use b in \<open>simp add: unat_of_nat take_bit_eq_mod del: of_nat_add of_nat_mult\<close>)
  moreover have "(unat b + 256 * le_decode bs) div 256 = le_decode bs"
    using b by simp
  ultimately show ?case
    using Cons by (simp del: of_nat_add of_nat_mult)
qed

lemma le_decode_replicate_0 [simp]: "le_decode (replicate n 0) = 0"
  by (induction n) simp_all

lemma le_encode_0 [simp]: "le_encode n 0 = replicate n 0"
  by (induction n) simp_all

section \<open>Windows of a byte array\<close>

definition slice :: "nat \<Rightarrow> nat \<Rightarrow> 'a list \<Rightarrow> 'a list" where
  "slice off n xs = take n (drop off xs)"

definition patch :: "nat \<Rightarrow> 'a list \<Rightarrow> 'a list \<Rightarrow> 'a list" where
  "patch off new xs = take off xs @ new @ drop (off + length new) xs"

lemma length_slice [simp]: "off + n \<le> length xs \<Longrightarrow> length (slice off n xs) = n"
  by (simp add: slice_def)

lemma length_patch [simp]: "off + length new \<le> length xs \<Longrightarrow> length (patch off new xs) = length xs"
  by (simp add: patch_def)

lemma nth_slice: "i < n \<Longrightarrow> off + n \<le> length xs \<Longrightarrow> slice off n xs ! i = xs ! (off + i)"
  by (simp add: slice_def)

lemma nth_patch:
  assumes "off + length new \<le> length xs" and "i < length xs"
  shows "patch off new xs ! i = (if off \<le> i \<and> i < off + length new then new ! (i - off) else xs ! i)"
  using assms by (auto simp: patch_def nth_append)

lemma slice_patch_same:
  "off + length new \<le> length xs \<Longrightarrow> n = length new \<Longrightarrow> slice off n (patch off new xs) = new"
  by (simp add: slice_def patch_def)

lemma slice_patch_other:
  assumes "off + length new \<le> length xs" and "o' + n \<le> off \<or> off + length new \<le> o'"
    and "o' + n \<le> length xs"
  shows "slice o' n (patch off new xs) = slice o' n xs"
  using assms by (intro nth_equalityI) (auto simp: nth_slice nth_patch)

lemma slice_patch_inside:
  assumes "off + length new \<le> length xs" and "off \<le> o'" and "o' + n \<le> off + length new"
  shows "slice o' n (patch off new xs) = slice (o' - off) n new"
  using assms by (intro nth_equalityI) (auto simp: nth_slice nth_patch)

lemma patch_slice_id: "off + n \<le> length xs \<Longrightarrow> patch off (slice off n xs) xs = xs"
  by (intro nth_equalityI) (auto simp: nth_patch nth_slice)

lemma slice_replicate [simp]: "off + n \<le> m \<Longrightarrow> slice off n (replicate m x) = replicate n x"
  by (simp add: slice_def)

lemma patch_all: "length new = length xs \<Longrightarrow> patch 0 new xs = new"
  by (simp add: patch_def)

text \<open>Fixed-width little-endian fields of a byte array, as struct members are laid out.\<close>

definition get16 :: "uint8 list \<Rightarrow> nat \<Rightarrow> uint16" where
  "get16 bs off = of_nat (le_decode (slice off 2 bs))"

definition put16 :: "uint8 list \<Rightarrow> nat \<Rightarrow> uint16 \<Rightarrow> uint8 list" where
  "put16 bs off v = patch off (le_encode 2 (unat v)) bs"

definition get32 :: "uint8 list \<Rightarrow> nat \<Rightarrow> uint32" where
  "get32 bs off = of_nat (le_decode (slice off 4 bs))"

definition put32 :: "uint8 list \<Rightarrow> nat \<Rightarrow> uint32 \<Rightarrow> uint8 list" where
  "put32 bs off v = patch off (le_encode 4 (unat v)) bs"

lemma length_put16 [simp]: "off + 2 \<le> length bs \<Longrightarrow> length (put16 bs off v) = length bs"
  by (simp add: put16_def)

lemma length_put32 [simp]: "off + 4 \<le> length bs \<Longrightarrow> length (put32 bs off v) = length bs"
  by (simp add: put32_def)

lemma get16_put16_same: "off + 2 \<le> length bs \<Longrightarrow> get16 (put16 bs off v) off = v"
  using unat_less_exp [of v]
  by (simp add: get16_def put16_def slice_patch_same le_decode_encode)

lemma get32_put32_same: "off + 4 \<le> length bs \<Longrightarrow> get32 (put32 bs off v) off = v"
  using unat_less_exp [of v]
  by (simp add: get32_def put32_def slice_patch_same le_decode_encode)

lemma get16_put16_other:
  "off + 2 \<le> length bs \<Longrightarrow> o' + 2 \<le> length bs \<Longrightarrow> o' + 2 \<le> off \<or> off + 2 \<le> o' \<Longrightarrow>
    get16 (put16 bs off v) o' = get16 bs o'"
  by (simp add: get16_def put16_def slice_patch_other)

lemma get32_put32_other:
  "off + 4 \<le> length bs \<Longrightarrow> o' + 4 \<le> length bs \<Longrightarrow> o' + 4 \<le> off \<or> off + 4 \<le> o' \<Longrightarrow>
    get32 (put32 bs off v) o' = get32 bs o'"
  by (simp add: get32_def put32_def slice_patch_other)

section \<open>Bytes and 64-bit words of physical memory\<close>

definition mem_bytes :: "memory \<Rightarrow> uint64 \<Rightarrow> nat \<Rightarrow> uint8 list" where
  "mem_bytes m a n = map (\<lambda>i. m (a + of_nat i)) [0..<n]"

definition mem_put :: "memory \<Rightarrow> uint64 \<Rightarrow> uint8 list \<Rightarrow> memory" where
  "mem_put m a bs = (\<lambda>x. if unat (x - a) < length bs then bs ! unat (x - a) else m x)"

definition read64 :: "memory \<Rightarrow> uint64 \<Rightarrow> uint64" where
  "read64 m a = of_nat (le_decode (mem_bytes m a 8))"

definition write64 :: "uint64 \<Rightarrow> uint64 \<Rightarrow> memory \<Rightarrow> memory" where
  "write64 a v m = mem_put m a (le_encode 8 (unat v))"

lemma length_mem_bytes [simp]: "length (mem_bytes m a n) = n"
  by (simp add: mem_bytes_def)

lemma mem_put_bytes:
  assumes "length bs = n" and "n \<le> 2 ^ 64"
  shows "mem_bytes (mem_put m a bs) a n = bs"
  using assms by (intro nth_equalityI) (auto simp: mem_bytes_def mem_put_def unat_of_nat take_bit_nat_eq_self)

lemma read64_write64_same [simp]: "read64 (write64 a v m) a = v"
  using unat_less_exp [of v] by (simp add: read64_def write64_def mem_put_bytes le_decode_encode)

lemma read64_cong:
  assumes "\<And>i. i < 8 \<Longrightarrow> m (a + of_nat i) = m' (a + of_nat i)"
  shows "read64 m a = read64 m' a"
proof -
  have "mem_bytes m a 8 = mem_bytes m' a 8"
    by (intro nth_equalityI) (use assms in \<open>simp_all add: mem_bytes_def\<close>)
  then show ?thesis by (simp add: read64_def)
qed

lemma write64_other: "unat (x - a) \<ge> 8 \<Longrightarrow> write64 a v m x = m x"
  by (simp add: write64_def mem_put_def)

lemma read64_0:
  assumes "\<And>i. i < 8 \<Longrightarrow> m (a + of_nat i) = 0"
  shows "read64 m a = 0"
proof -
  have "mem_bytes m a 8 = replicate 8 0"
    by (intro nth_equalityI) (use assms in \<open>simp_all add: mem_bytes_def\<close>)
  then show ?thesis by (simp add: read64_def)
qed

end
