(* ===== verification/Riscv.thy ===== *)
theory Riscv
  imports Bytes
begin

unbundle bit_operations_syntax

text \<open>
  The machine-level definitions of \<^verbatim>\<open>include/kernel/riscv.h\<close> and of
  \<^verbatim>\<open>src/kernel/platform/qemu/include/memlayout.h\<close>: the control registers of one hart with their
  accessors, page rounding, the fields of a page-table entry, the three 9-bit page-table indices
  of a virtual address, and the physical and virtual memory layout.

  The lemmas give the arithmetic meaning of the bit operations: page rounding as division by the
  page size, decoding of an encoded page-table entry, and that page number and indices determine
  each other below \<open>MAXVA\<close>.
\<close>

section \<open>Control and status registers of a hart\<close>

record csr =
  sstatus :: uint64
  sip :: uint64
  sie :: uint64
  sepc :: uint64
  stvec :: uint64
  satp :: uint64
  scause :: uint64
  stval :: uint64
  tp :: uint64

definition SSTATUS_SPP :: uint64 where "SSTATUS_SPP = push_bit 8 1"
definition SSTATUS_SPIE :: uint64 where "SSTATUS_SPIE = push_bit 5 1"
definition SSTATUS_SIE :: uint64 where "SSTATUS_SIE = push_bit 1 1"
definition SIE_SEIE :: uint64 where "SIE_SEIE = push_bit 9 1"
definition SIE_STIE :: uint64 where "SIE_STIE = push_bit 5 1"
definition SIE_SSIE :: uint64 where "SIE_SSIE = push_bit 1 1"

definition r_sstatus :: "csr \<Rightarrow> uint64" where "r_sstatus h = sstatus h"
definition w_sstatus :: "uint64 \<Rightarrow> csr \<Rightarrow> csr" where "w_sstatus x h = h\<lparr>sstatus := x\<rparr>"
definition r_sip :: "csr \<Rightarrow> uint64" where "r_sip h = sip h"
definition w_sip :: "uint64 \<Rightarrow> csr \<Rightarrow> csr" where "w_sip x h = h\<lparr>sip := x\<rparr>"
definition r_sie :: "csr \<Rightarrow> uint64" where "r_sie h = sie h"
definition w_sie :: "uint64 \<Rightarrow> csr \<Rightarrow> csr" where "w_sie x h = h\<lparr>sie := x\<rparr>"
definition r_sepc :: "csr \<Rightarrow> uint64" where "r_sepc h = sepc h"
definition w_sepc :: "uint64 \<Rightarrow> csr \<Rightarrow> csr" where "w_sepc x h = h\<lparr>sepc := x\<rparr>"
definition w_stvec :: "uint64 \<Rightarrow> csr \<Rightarrow> csr" where "w_stvec x h = h\<lparr>stvec := x\<rparr>"
definition r_satp :: "csr \<Rightarrow> uint64" where "r_satp h = satp h"
definition w_satp :: "uint64 \<Rightarrow> csr \<Rightarrow> csr" where "w_satp x h = h\<lparr>satp := x\<rparr>"
definition r_scause :: "csr \<Rightarrow> uint64" where "r_scause h = scause h"
definition r_stval :: "csr \<Rightarrow> uint64" where "r_stval h = stval h"
definition r_tp :: "csr \<Rightarrow> uint64" where "r_tp h = tp h"

text \<open>Interrupt enable: the \<open>SIE\<close> bit of \<open>sstatus\<close>.\<close>

definition intr_on :: "csr \<Rightarrow> csr" where
  "intr_on h = w_sstatus (r_sstatus h OR SSTATUS_SIE) h"

definition intr_off :: "csr \<Rightarrow> csr" where
  "intr_off h = w_sstatus (r_sstatus h AND NOT SSTATUS_SIE) h"

definition intr_get :: "csr \<Rightarrow> bool" where
  "intr_get h \<longleftrightarrow> r_sstatus h AND SSTATUS_SIE \<noteq> 0"

lemma bit_push_1: "k < 64 \<Longrightarrow> bit (push_bit k (1 :: uint64)) n \<longleftrightarrow> n = k"
  by (subst bit_push_bit_iff) (auto simp: bit_1_iff)

lemma and_push_1: "(x :: uint64) AND push_bit k 1 \<noteq> 0 \<longleftrightarrow> bit x k"
  by (rule bit_iff_and_push_bit_not_eq_0 [symmetric])

lemma not_bit_ge: "unat (x :: uint64) < 2 ^ k \<Longrightarrow> k \<le> n \<Longrightarrow> \<not> bit x n"
proof -
  assume "unat x < 2 ^ k" and "k \<le> n"
  then have "\<not> bit (unat x) n"
    by (metis bit_take_bit_iff not_less take_bit_nat_eq_self)
  then show ?thesis
    by (auto simp: bit_unsigned_iff dest: bit_imp_le_length)
qed

lemma bit_SSTATUS_SIE: "bit SSTATUS_SIE n \<longleftrightarrow> n = 1"
  unfolding SSTATUS_SIE_def by (rule bit_push_1) simp

lemma intr_get_bit: "intr_get h \<longleftrightarrow> bit (sstatus h) 1"
  unfolding intr_get_def r_sstatus_def SSTATUS_SIE_def by (rule and_push_1)

lemma intr_get_intr_on [simp]: "intr_get (intr_on h)"
  by (simp add: intr_get_bit intr_on_def w_sstatus_def r_sstatus_def bit_or_iff bit_SSTATUS_SIE)

lemma intr_get_intr_off [simp]: "\<not> intr_get (intr_off h)"
  by (simp add: intr_get_bit intr_off_def w_sstatus_def r_sstatus_def bit_and_iff bit_not_iff bit_SSTATUS_SIE)

lemma intr_on_off: "intr_get h \<Longrightarrow> intr_on (intr_off h) = h"
proof -
  assume "intr_get h"
  then have "sstatus h AND NOT SSTATUS_SIE OR SSTATUS_SIE = sstatus h"
    by (auto simp: intr_get_bit intro!: bit_eqI simp: bit_or_iff bit_and_iff bit_not_iff bit_SSTATUS_SIE)
  then show ?thesis
    by (simp add: intr_on_def intr_off_def w_sstatus_def r_sstatus_def)
qed

lemma intr_off_id: "\<not> intr_get h \<Longrightarrow> intr_off h = h"
proof -
  assume "\<not> intr_get h"
  then have "sstatus h AND NOT SSTATUS_SIE = sstatus h"
    by (auto simp: intr_get_bit intro!: bit_eqI simp: bit_and_iff bit_not_iff bit_SSTATUS_SIE)
  then show ?thesis
    by (simp add: intr_off_def w_sstatus_def r_sstatus_def)
qed

section \<open>Pages and page-table entries\<close>

abbreviation PGSIZE :: "'a::numeral" where "PGSIZE \<equiv> 4096"
definition PGSHIFT :: nat where "PGSHIFT = 12"

definition PGROUNDUP :: "uint64 \<Rightarrow> uint64" where
  "PGROUNDUP sz = (sz + PGSIZE - 1) AND NOT (PGSIZE - 1)"

definition PGROUNDDOWN :: "uint64 \<Rightarrow> uint64" where
  "PGROUNDDOWN a = a AND NOT (PGSIZE - 1)"

definition PTE_V :: uint64 where "PTE_V = push_bit 0 1"
definition PTE_R :: uint64 where "PTE_R = push_bit 1 1"
definition PTE_W :: uint64 where "PTE_W = push_bit 2 1"
definition PTE_X :: uint64 where "PTE_X = push_bit 3 1"
definition PTE_U :: uint64 where "PTE_U = push_bit 4 1"

definition PA2PTE :: "uint64 \<Rightarrow> uint64" where
  "PA2PTE pa = push_bit 10 (drop_bit 12 pa)"

definition PTE2PA :: "uint64 \<Rightarrow> uint64" where
  "PTE2PA pte = push_bit 12 (drop_bit 10 pte)"

definition PTE_FLAGS :: "uint64 \<Rightarrow> uint64" where
  "PTE_FLAGS pte = pte AND 0x3FF"

definition PXMASK :: uint64 where "PXMASK = 0x1FF"

definition PXSHIFT :: "nat \<Rightarrow> nat" where
  "PXSHIFT level = PGSHIFT + 9 * level"

definition PX :: "nat \<Rightarrow> uint64 \<Rightarrow> uint64" where
  "PX level va = drop_bit (PXSHIFT level) va AND PXMASK"

definition MAXVA :: uint64 where
  "MAXVA = push_bit (9 + 9 + 9 + 12 - 1) 1"

definition SATP_SV39 :: uint64 where "SATP_SV39 = push_bit 60 8"

definition MAKE_SATP :: "uint64 \<Rightarrow> uint64" where
  "MAKE_SATP pagetable = SATP_SV39 OR drop_bit 12 pagetable"

section \<open>Memory layout\<close>

definition UART0 :: uint64 where "UART0 = 0x10000000"
definition UART0_IRQ :: nat where "UART0_IRQ = 10"
definition VIRTIO0 :: uint64 where "VIRTIO0 = 0x10001000"
definition VIRTIO0_IRQ :: nat where "VIRTIO0_IRQ = 1"
definition CLINT :: uint64 where "CLINT = 0x2000000"
definition CLINT_MTIME :: uint64 where "CLINT_MTIME = CLINT + 0xBFF8"
definition PLIC :: uint64 where "PLIC = 0x0c000000"
definition KERNBASE :: uint64 where "KERNBASE = 0x80200000"
definition PHYSTOP :: uint64 where "PHYSTOP = KERNBASE + 128*1024*1024"
definition TRAMPOLINE :: uint64 where "TRAMPOLINE = MAXVA - PGSIZE"
definition KSTACK :: "nat \<Rightarrow> uint64" where "KSTACK p = TRAMPOLINE - (of_nat p + 1) * 2 * PGSIZE"
definition TRAPFRAME :: uint64 where "TRAPFRAME = TRAMPOLINE - PGSIZE"

lemma MAXVA_eq: "MAXVA = 0x4000000000"
  by (simp add: MAXVA_def push_bit_eq_mult)

lemma PHYSTOP_eq: "PHYSTOP = 0x88200000"
  by (simp add: PHYSTOP_def KERNBASE_def)

lemma TRAMPOLINE_eq: "TRAMPOLINE = 0x3FFFFFF000"
  by (simp add: TRAMPOLINE_def MAXVA_eq)

lemma TRAPFRAME_eq: "TRAPFRAME = 0x3FFFFFE000"
  by (simp add: TRAPFRAME_def TRAMPOLINE_eq)

lemmas layout_eqs = MAXVA_eq PHYSTOP_eq TRAMPOLINE_eq TRAPFRAME_eq

section \<open>Page rounding is division\<close>

lemma mask_12: "(PGSIZE - 1 :: uint64) = mask 12"
  by (simp add: mask_eq_exp_minus_1)

lemma PGROUNDDOWN_eq: "PGROUNDDOWN a = push_bit 12 (drop_bit 12 a)"
  unfolding PGROUNDDOWN_def mask_12
  by (rule bit_eqI) (auto simp: bit_and_iff bit_not_iff bit_mask_iff bit_push_bit_iff bit_drop_bit_eq dest: bit_imp_le_length)

lemma unat_push_drop: "unat (push_bit n (drop_bit n (a :: uint64))) = unat a div 2 ^ n * 2 ^ n"
proof -
  have "unat a div 2 ^ n * 2 ^ n \<le> unat a"
    by (rule div_times_less_eq_dividend)
  also have "unat a < 2 ^ 64"
    using unat_less_exp [of a] by simp
  finally have "take_bit 64 (unat a div 2 ^ n * 2 ^ n) = unat a div 2 ^ n * 2 ^ n"
    by (rule take_bit_nat_eq_self)
  moreover have "unat (push_bit n (drop_bit n a)) = take_bit 64 (push_bit n (drop_bit n (unat a)))"
    by (simp only: unsigned_push_bit_eq unat_drop_bit_eq) simp
  ultimately show ?thesis
    by (simp only: push_bit_eq_mult drop_bit_eq_div)
qed

lemma unat_PGROUNDDOWN: "unat (PGROUNDDOWN a) = unat a div PGSIZE * PGSIZE"
  using unat_push_drop [of 12 a] by (simp add: PGROUNDDOWN_eq)

lemma unat_PGROUNDUP:
  assumes "unat sz \<le> 2 ^ 64 - PGSIZE"
  shows "unat (PGROUNDUP sz) = (unat sz + PGSIZE - 1) div PGSIZE * PGSIZE"
proof -
  have "unat (sz + PGSIZE - 1) = unat sz + PGSIZE - 1"
  proof -
    have "sz + PGSIZE - 1 = sz + of_nat 4095" by simp
    moreover have "unat (sz + of_nat 4095) = unat sz + 4095"
      using assms by (intro unat_region [where n = 4096]) simp_all
    ultimately show ?thesis by (simp add: add.commute)
  qed
  then show ?thesis
    using unat_PGROUNDDOWN [of "sz + PGSIZE - 1"]
    by (simp add: PGROUNDUP_def PGROUNDDOWN_def)
qed

definition page_aligned :: "uint64 \<Rightarrow> bool" where
  "page_aligned a \<longleftrightarrow> a mod PGSIZE = 0"

lemma page_aligned_unat: "page_aligned a \<longleftrightarrow> unat a mod PGSIZE = 0"
  by (simp add: page_aligned_def word_unat_eq_iff unat_mod_distrib)

lemma page_aligned_iff: "page_aligned a \<longleftrightarrow> PGROUNDDOWN a = a"
  unfolding page_aligned_unat word_unat_eq_iff unat_PGROUNDDOWN
  using div_mult_mod_eq [of "unat a" PGSIZE] by linarith

lemma page_aligned_PGROUNDDOWN [simp]: "page_aligned (PGROUNDDOWN a)"
  by (simp add: page_aligned_unat unat_PGROUNDDOWN)

lemma page_aligned_PGROUNDUP [simp]: "page_aligned (PGROUNDUP a)"
  using page_aligned_PGROUNDDOWN [of "a + PGSIZE - 1"] by (simp add: PGROUNDUP_def PGROUNDDOWN_def)

lemma PGROUNDDOWN_le: "PGROUNDDOWN a \<le> a"
  by (simp add: word_le_nat_alt unat_PGROUNDDOWN)

text \<open>Addresses inside a page round down to it, and only they do.\<close>

lemma PGROUNDDOWN_offset:
  assumes "page_aligned p" and "i < PGSIZE"
  shows "PGROUNDDOWN (p + of_nat i) = p"
proof -
  from assms(1) obtain k where k: "unat p = PGSIZE * k"
    by (auto simp: page_aligned_unat dvd_def)
  have "unat p < 2 ^ 64" using unat_less_exp [of p] by simp
  with k have "k < 2 ^ 52" by simp
  then have "unat p + PGSIZE \<le> 2 ^ 64" using k by simp
  then have "unat (p + of_nat i) = PGSIZE * k + i"
    using unat_region [of p PGSIZE i] assms(2) k by simp
  then show ?thesis
    using assms(2) k by (simp add: word_unat_eq_iff unat_PGROUNDDOWN)
qed

lemma PGROUNDDOWN_in_page:
  assumes "page_aligned p"
  shows "PGROUNDDOWN a = p \<longleftrightarrow> unat (a - p) < PGSIZE"
proof
  assume "PGROUNDDOWN a = p"
  then have "unat p = unat a div PGSIZE * PGSIZE" and "p \<le> a"
    using unat_PGROUNDDOWN [of a] PGROUNDDOWN_le [of a] by auto
  then show "unat (a - p) < PGSIZE"
    by (simp add: unat_sub)
next
  assume "unat (a - p) < PGSIZE"
  then show "PGROUNDDOWN a = p"
    using PGROUNDDOWN_offset [OF assms, of "unat (a - p)"] by simp
qed

lemma page_end: "page_aligned p \<Longrightarrow> unat p + PGSIZE \<le> 2 ^ 64"
proof -
  assume "page_aligned p"
  then obtain k where k: "unat p = PGSIZE * k"
    by (auto simp: page_aligned_unat dvd_def)
  have "unat p < 2 ^ 64" using unat_less_exp [of p] by simp
  with k have "k < 2 ^ 52" by simp
  then show ?thesis using k by simp
qed

section \<open>Page-table entries\<close>

lemma bit_flags [simp]:
  "bit PTE_V n \<longleftrightarrow> n = 0" "bit PTE_R n \<longleftrightarrow> n = 1" "bit PTE_W n \<longleftrightarrow> n = 2"
  "bit PTE_X n \<longleftrightarrow> n = 3" "bit PTE_U n \<longleftrightarrow> n = 4"
  unfolding PTE_V_def PTE_R_def PTE_W_def PTE_X_def PTE_U_def by (rule bit_push_1, simp)+

lemma and_PTE_V: "pte AND PTE_V \<noteq> 0 \<longleftrightarrow> bit pte 0"
  unfolding PTE_V_def by (rule and_push_1)

lemma and_PTE_U: "pte AND PTE_U \<noteq> 0 \<longleftrightarrow> bit pte 4"
  unfolding PTE_U_def by (rule and_push_1)

lemma mask_10: "(0x3FF :: uint64) = mask 10"
  by (simp add: mask_eq_exp_minus_1)

lemma PTE_FLAGS_bit: "bit (PTE_FLAGS pte) n \<longleftrightarrow> n < 10 \<and> bit pte n"
  unfolding PTE_FLAGS_def mask_10 by (auto simp: bit_and_iff bit_mask_iff dest: bit_imp_le_length)

lemma bit_PA2PTE: "bit (PA2PTE pa) n \<longleftrightarrow> 10 \<le> n \<and> n < 64 \<and> bit pa (n + 2)"
  by (auto simp: PA2PTE_def bit_push_bit_iff bit_drop_bit_eq)

text \<open>
  Decoding the entry built from a page-aligned physical address below \<open>2 ^ 56\<close> and any flags in
  the low ten bits gives back the address and the flags.
\<close>

lemma PTE2PA_encode:
  assumes "page_aligned pa" and "unat pa < 2 ^ 56" and "unat flags < 2 ^ 10"
  shows "PTE2PA (PA2PTE pa OR flags) = pa"
proof (rule bit_word_eqI)
  fix n assume "n < LENGTH(64)"
  have "take_bit 12 pa = 0"
    using assms(1) by (simp add: page_aligned_def take_bit_eq_mod)
  then have low: "bit pa n \<Longrightarrow> 12 \<le> n" for n
    by (metis bit_0_eq bit_take_bit_iff bot_apply bot_bool_def not_less)
  have high: "bit pa n \<Longrightarrow> n < 56" for n
    using assms(2) not_bit_ge [of pa 56 n] by (meson not_less)
  have fl: "bit flags n \<Longrightarrow> n < 10" for n
    using assms(3) not_bit_ge [of flags 10 n] by (meson not_less)
  have "bit (PTE2PA (PA2PTE pa OR flags)) n \<longleftrightarrow>
      12 \<le> n \<and> (bit (PA2PTE pa) (n - 2) \<or> bit flags (n - 2))"
    using \<open>n < LENGTH(64)\<close> by (auto simp: PTE2PA_def bit_push_bit_iff bit_drop_bit_eq bit_or_iff)
  also have "\<dots> \<longleftrightarrow> 12 \<le> n \<and> bit pa n"
  proof (cases "12 \<le> n")
    case True
    then have "n - 2 + 2 = n" by simp
    with True show ?thesis
      using fl [of "n - 2"] \<open>n < LENGTH(64)\<close> by (auto simp only: bit_PA2PTE) auto
  qed simp
  also have "\<dots> \<longleftrightarrow> bit pa n"
    using low by blast
  finally show "bit (PTE2PA (PA2PTE pa OR flags)) n = bit pa n" .
qed

lemma PTE_FLAGS_encode:
  assumes "unat flags < 2 ^ 10"
  shows "PTE_FLAGS (PA2PTE pa OR flags) = flags"
proof (rule bit_word_eqI)
  fix n assume "n < LENGTH(64)"
  have "bit flags n \<Longrightarrow> n < 10"
    using assms not_bit_ge [of flags 10 n] by (meson not_less)
  then show "bit (PTE_FLAGS (PA2PTE pa OR flags)) n = bit flags n"
    by (auto simp: PTE_FLAGS_bit bit_or_iff bit_PA2PTE)
qed

lemma page_aligned_PTE2PA [simp]: "page_aligned (PTE2PA pte)"
proof -
  have "take_bit 12 (PTE2PA pte) = 0"
    by (rule bit_eqI) (simp add: bit_take_bit_iff PTE2PA_def bit_push_bit_iff)
  then show ?thesis by (simp add: page_aligned_def take_bit_eq_mod)
qed

section \<open>Page-table indices\<close>

lemma unat_PX: "unat (PX level va) = unat va div 2 ^ PXSHIFT level mod 512"
proof -
  have "(PXMASK :: uint64) = mask 9"
    by (simp add: PXMASK_def mask_eq_exp_minus_1)
  then have "PX level va = take_bit 9 (drop_bit (PXSHIFT level) va)"
    by (simp add: PX_def take_bit_eq_mask)
  then have "unat (PX level va) = take_bit 9 (drop_bit (PXSHIFT level) (unat va))"
    by (simp only: unsigned_take_bit_eq unat_drop_bit_eq)
  then show ?thesis
    by (simp add: take_bit_eq_mod drop_bit_eq_div)
qed

lemma PX_less: "unat (PX level va) < 512"
  by (simp add: unat_PX)

lemma PX_PGROUNDDOWN: "PX level (PGROUNDDOWN va) = PX level va"
proof -
  have "unat va div PGSIZE * PGSIZE div 2 ^ PXSHIFT level = unat va div 2 ^ PXSHIFT level"
    by (simp add: PXSHIFT_def PGSHIFT_def power_add div_mult2_eq)
  then show ?thesis
    by (simp add: word_unat_eq_iff unat_PX unat_PGROUNDDOWN)
qed

text \<open>Below \<open>MAXVA\<close> the three indices determine the page of a virtual address.\<close>

lemma vpn_decompose:
  assumes "va < MAXVA"
  shows "unat va div PGSIZE =
    unat (PX 2 va) * 512 * 512 + unat (PX 1 va) * 512 + unat (PX 0 va)"
proof -
  have "unat va < 2 ^ 38"
    using assms by (simp add: MAXVA_eq word_less_nat_alt)
  then have small: "unat va div 2 ^ 30 mod 512 = unat va div 2 ^ 30" by simp
  define v where "v = unat va div 4096"
  have "v = v div 512 div 512 * 512 * 512 + v div 512 mod 512 * 512 + v mod 512"
    using div_mult_mod_eq [of v 512] div_mult_mod_eq [of "v div 512" 512] by linarith
  moreover have "unat (PX 2 va) = v div 512 div 512"
    using small by (simp add: unat_PX PXSHIFT_def PGSHIFT_def v_def div_mult2_eq [symmetric])
  moreover have "unat (PX 1 va) = v div 512 mod 512"
    by (simp add: unat_PX PXSHIFT_def PGSHIFT_def v_def div_mult2_eq [symmetric])
  moreover have "unat (PX 0 va) = v mod 512"
    by (simp add: unat_PX PXSHIFT_def PGSHIFT_def v_def)
  ultimately show ?thesis
    by (simp only: v_def)
qed

lemma PX_inj:
  assumes "va < MAXVA" and "va' < MAXVA"
    and "PX 2 va = PX 2 va'" and "PX 1 va = PX 1 va'" and "PX 0 va = PX 0 va'"
  shows "PGROUNDDOWN va = PGROUNDDOWN va'"
proof -
  have "unat va div PGSIZE = unat va' div PGSIZE"
    unfolding vpn_decompose [OF assms(1)] vpn_decompose [OF assms(2)] assms(3-5) ..
  then show ?thesis
    by (simp only: word_unat_eq_iff unat_PGROUNDDOWN)
qed

end
