(* ===== verification/Kalloc.thy ===== *)
theory Kalloc
  imports Riscv
begin

text \<open>
  \<^verbatim>\<open>src/kernel/mm/kalloc.c\<close>: the physical page allocator. Its state is physical memory and the
  head of the free list; as in the code, the list lives in the free pages themselves, each page
  holding the pointer to the next in its first eight bytes. The record is extended by the
  components above, so that their routines run on one state; it also holds the linker symbols
  \<^verbatim>\<open>end\<close>, \<^verbatim>\<open>etext\<close> and \<^verbatim>\<open>trampoline\<close> (from \<^verbatim>\<open>script/kernel.ld\<close> and the assembly sources).

  The abstraction of the allocator is the list of free pages, a stack: \<open>kalloc\<close> pops it and
  \<open>kfree\<close> pushes. That contract is the locale \<open>page_allocator\<close>, interpreted on the two routines.
\<close>

section \<open>State and operations\<close>

record kmem =
  mem :: memory
  freelist :: uint64
  ld_end :: uint64
  ld_etext :: uint64
  ld_trampoline :: uint64

definition load64 :: "uint64 \<Rightarrow> ('x kmem_scheme, uint64) kmonad" where
  "load64 a = gets (\<lambda>s. read64 (mem s) a)"

definition store64 :: "uint64 \<Rightarrow> uint64 \<Rightarrow> ('x kmem_scheme, unit) kmonad" where
  "store64 a v = modify (mem_update (write64 a v))"

definition mem_set :: "uint64 \<Rightarrow> int \<Rightarrow> nat \<Rightarrow> ('x kmem_scheme, unit) kmonad" where
  "mem_set dst c n = modify (mem_update (memset dst c n))"

definition mem_move :: "uint64 \<Rightarrow> uint64 \<Rightarrow> nat \<Rightarrow> ('x kmem_scheme, unit) kmonad" where
  "mem_move dst src n = modify (mem_update (memmove dst src n))"

definition kfree :: "uint64 \<Rightarrow> ('x kmem_scheme, unit) kmonad" where
  "kfree pa = bnd (gets ld_end) (\<lambda>e.
     if pa mod PGSIZE \<noteq> 0 \<or> pa < e \<or> pa \<ge> PHYSTOP then panic ''kfree''
     else
       sq (mem_set pa 1 PGSIZE) (
       bnd (gets freelist) (\<lambda>fl.
       sq (store64 pa fl) (
       modify (freelist_update (\<lambda>_. pa))))))"

definition kalloc :: "('x kmem_scheme, uint64) kmonad" where
  "kalloc = bnd (gets freelist) (\<lambda>r.
     sq (if r \<noteq> 0 then bnd (load64 r) (\<lambda>nxt. modify (freelist_update (\<lambda>_. nxt))) else ret ()) (
     sq (if r \<noteq> 0 then mem_set r 5 PGSIZE else ret ()) (
     ret r)))"

text \<open>The loop of \<open>freerange\<close>; \<open>fuel\<close> bounds its iterations.\<close>

fun freerange_loop :: "nat \<Rightarrow> uint64 \<Rightarrow> uint64 \<Rightarrow> ('x kmem_scheme, unit) kmonad" where
  "freerange_loop 0 p pa_end = diverge"
| "freerange_loop (Suc fuel) p pa_end =
     (if p + PGSIZE \<le> pa_end then sq (kfree p) (freerange_loop fuel (p + PGSIZE) pa_end) else ret ())"

definition freerange :: "uint64 \<Rightarrow> uint64 \<Rightarrow> ('x kmem_scheme, unit) kmonad" where
  "freerange pa_start pa_end =
     freerange_loop (Suc (unat pa_end div PGSIZE)) (PGROUNDUP pa_start) pa_end"

definition kinit :: "('x kmem_scheme, unit) kmonad" where
  "kinit = bnd (gets ld_end) (\<lambda>e. freerange e PHYSTOP)"

section \<open>Pages of memory\<close>

lemma memset_page:
  assumes "page_aligned p"
  shows "memset p c PGSIZE m a = (if PGROUNDDOWN a = p then word_of_int c else m a)"
  by (simp add: memset_apply PGROUNDDOWN_in_page [OF assms])

definition aligned8 :: "uint64 \<Rightarrow> bool" where
  "aligned8 a \<longleftrightarrow> unat a mod 8 = 0"

lemma aligned8_end:
  assumes "aligned8 a"
  shows "unat a + 8 \<le> 2 ^ 64"
proof -
  from assms obtain k where k: "unat a = 8 * k"
    by (auto simp: aligned8_def dvd_def)
  moreover have "unat a < 2 ^ 64" using unat_less_exp [of a] by simp
  ultimately show ?thesis by simp
qed

lemma aligned8_page:
  assumes "aligned8 a" and "i < 8"
  shows "PGROUNDDOWN (a + of_nat i) = PGROUNDDOWN a"
proof -
  from assms(1) obtain k where k: "unat a = 8 * k"
    by (auto simp: aligned8_def dvd_def)
  have "unat (a + of_nat i) = 8 * k + i"
    using unat_region [OF aligned8_end [OF assms(1)], of i] assms(2) k by simp
  moreover have "(8 * k + i) div 4096 = 8 * k div 4096"
    using assms(2) by (simp add: div_mult2_eq [of _ 8 512, simplified])
  ultimately show ?thesis
    by (simp only: word_unat_eq_iff unat_PGROUNDDOWN k)
qed

lemma page_aligned8: "page_aligned p \<Longrightarrow> aligned8 p"
proof -
  assume "page_aligned p"
  then have "4096 dvd unat p" by (simp add: page_aligned_unat dvd_eq_mod_eq_0)
  then have "8 dvd unat p" by (rule dvd_trans [rotated]) simp
  then show ?thesis by (simp add: aligned8_def dvd_eq_mod_eq_0)
qed

lemma read64_page_cong:
  assumes "aligned8 a" and "\<And>x. PGROUNDDOWN x = PGROUNDDOWN a \<Longrightarrow> m x = m' x"
  shows "read64 m a = read64 m' a"
  by (rule read64_cong) (rule assms(2), rule aligned8_page [OF assms(1)])

lemma write64_page_other:
  assumes "aligned8 a" and "PGROUNDDOWN x \<noteq> PGROUNDDOWN a"
  shows "write64 a v m x = m x"
proof (rule write64_other, rule ccontr)
  assume "\<not> 8 \<le> unat (x - a)"
  then have "PGROUNDDOWN (a + of_nat (unat (x - a))) = PGROUNDDOWN a"
    by (intro aligned8_page [OF assms(1)]) simp
  with assms(2) show False by simp
qed

lemma write64_at_page:
  assumes "page_aligned p" and "PGROUNDDOWN a \<noteq> p"
  shows "write64 p v m a = m a"
  using assms write64_page_other [of p a] by (simp add: page_aligned8 page_aligned_iff)

lemma read64_write64_other:
  assumes "aligned8 a" and "aligned8 b" and "a \<noteq> b"
  shows "read64 (write64 a v m) b = read64 m b"
proof (rule read64_cong, rule write64_other, rule ccontr)
  fix i :: nat assume i: "i < 8" and "\<not> 8 \<le> unat (b + of_nat i - a)"
  then obtain j where j: "j < 8" and eq: "b + of_nat i = a + of_nat j"
    using region_offset [of 8 "b + of_nat i" a] by auto
  have "unat b + i = unat a + j"
    using eq unat_region [OF aligned8_end [OF assms(1)] j] unat_region [OF aligned8_end [OF assms(2)] i]
    by simp
  moreover obtain k l where "unat a = 8 * k" "unat b = 8 * l"
    using assms(1,2) by (auto simp: aligned8_def dvd_def)
  ultimately have "unat b = unat a"
    using i j by presburger
  then show False using assms(3) by (simp add: word_unat_eq_iff)
qed

lemma memset_read64:
  assumes "page_aligned p" and "aligned8 a" and "PGROUNDDOWN a \<noteq> p"
  shows "read64 (memset p c PGSIZE m) a = read64 m a"
  by (rule read64_page_cong [OF assms(2)]) (use assms in \<open>simp add: memset_page\<close>)

lemma memset_0_read64:
  assumes "page_aligned p" and "aligned8 a" and "PGROUNDDOWN a = p"
  shows "read64 (memset p 0 PGSIZE m) a = 0"
  by (rule read64_0) (use assms aligned8_page [of a] in \<open>simp add: memset_page\<close>)

section \<open>The free list\<close>

primrec flist :: "memory \<Rightarrow> uint64 \<Rightarrow> uint64 list \<Rightarrow> bool" where
  "flist m p [] \<longleftrightarrow> p = 0"
| "flist m p (q # qs) \<longleftrightarrow> p = q \<and> q \<noteq> 0 \<and> flist m (read64 m q) qs"

definition ram_page :: "'x kmem_scheme \<Rightarrow> uint64 \<Rightarrow> bool" where
  "ram_page s p \<longleftrightarrow> page_aligned p \<and> ld_end s \<le> p \<and> p < PHYSTOP"

definition kmem_inv :: "uint64 list \<Rightarrow> 'x kmem_scheme \<Rightarrow> bool" where
  "kmem_inv ps s \<longleftrightarrow> flist (mem s) (freelist s) ps \<and> distinct ps \<and> (\<forall>p \<in> set ps. ram_page s p) \<and> 0 < ld_end s"

lemma ram_page_frame [simp]:
  "ram_page (s\<lparr>mem := m\<rparr>) = ram_page s"
  "ram_page (s\<lparr>freelist := f\<rparr>) = ram_page s"
  "ram_page (mem_update g s) = ram_page s"
  "ram_page (freelist_update h s) = ram_page s"
  by (simp_all add: ram_page_def fun_eq_iff)

lemma flist_cong: "(\<And>p. p \<in> set ps \<Longrightarrow> read64 m p = read64 m' p) \<Longrightarrow> flist m q ps = flist m' q ps"
  by (induction ps arbitrary: q) auto

lemma flist_unique: "flist m q ps \<Longrightarrow> flist m q ps' \<Longrightarrow> ps = ps'"
proof (induction ps arbitrary: q ps')
  case Nil
  then show ?case by (cases ps') auto
next
  case (Cons p ps)
  then show ?case by (cases ps') auto
qed

lemma flist_hd: "flist m q ps \<Longrightarrow> q = (if ps = [] then 0 else hd ps)"
  by (cases ps) auto

lemma flist_pages_cong:
  assumes "flist m q ps" and "\<forall>p \<in> set ps. page_aligned p"
    and "\<And>a. PGROUNDDOWN a \<in> set ps \<Longrightarrow> m' a = m a"
  shows "flist m' q ps"
proof -
  have "read64 m' p = read64 m p" if "p \<in> set ps" for p
    using assms(2,3) that
    by (intro read64_page_cong) (auto simp: page_aligned8 page_aligned_iff)
  then show ?thesis using assms(1) flist_cong [of ps m' m q] by simp
qed

text \<open>What a change of memory outside the free pages leaves of the allocator's state.\<close>

lemma kmem_inv_mem:
  assumes "kmem_inv ps s" and "\<And>a. PGROUNDDOWN a \<in> set ps \<Longrightarrow> f (mem s) a = mem s a"
  shows "kmem_inv ps (mem_update f s)"
  using assms flist_pages_cong [of "mem s" "freelist s" ps "f (mem s)"]
  by (auto simp: kmem_inv_def ram_page_def)

lemma kalloc_Nil:
  assumes "kmem_inv [] s"
  shows "kalloc s = Ok (0, s)"
  using assms by (simp add: kalloc_def kmem_inv_def run_bnd run_sq)

lemma kalloc_Cons:
  assumes "kmem_inv (p # ps) s"
  shows "kalloc s = Ok (p, s\<lparr>freelist := read64 (mem s) p, mem := memset p 5 PGSIZE (mem s)\<rparr>)"
    and "kmem_inv ps (s\<lparr>freelist := read64 (mem s) p, mem := memset p 5 PGSIZE (mem s)\<rparr>)"
proof -
  from assms have fl: "freelist s = p" "p \<noteq> 0" "flist (mem s) (read64 (mem s) p) ps"
    and p: "page_aligned p" "p \<notin> set ps"
    by (auto simp: kmem_inv_def ram_page_def)
  then show "kalloc s = Ok (p, s\<lparr>freelist := read64 (mem s) p, mem := memset p 5 PGSIZE (mem s)\<rparr>)"
    by (simp add: kalloc_def run_bnd run_sq load64_def mem_set_def)
  have "flist (memset p 5 PGSIZE (mem s)) (read64 (mem s) p) ps"
    using fl(3) by (rule flist_pages_cong)
      (use assms p in \<open>auto simp: kmem_inv_def ram_page_def memset_page\<close>)
  then show "kmem_inv ps (s\<lparr>freelist := read64 (mem s) p, mem := memset p 5 PGSIZE (mem s)\<rparr>)"
    using assms by (simp add: kmem_inv_def ram_page_def)
qed

lemma kfree_push:
  assumes "kmem_inv ps s" and "ram_page s p" and "p \<notin> set ps"
  shows "kfree p s = Ok ((), s\<lparr>mem := write64 p (freelist s) (memset p 1 PGSIZE (mem s)), freelist := p\<rparr>)"
    and "kmem_inv (p # ps) (s\<lparr>mem := write64 p (freelist s) (memset p 1 PGSIZE (mem s)), freelist := p\<rparr>)"
proof -
  have p: "page_aligned p" "ld_end s \<le> p" "p < PHYSTOP" using assms(2) by (auto simp: ram_page_def)
  then show "kfree p s = Ok ((), s\<lparr>mem := write64 p (freelist s) (memset p 1 PGSIZE (mem s)), freelist := p\<rparr>)"
    by (simp add: kfree_def run_bnd run_sq mem_set_def store64_def page_aligned_def not_less not_le)
  have ne: "PGROUNDDOWN a \<in> set ps \<Longrightarrow> PGROUNDDOWN a \<noteq> p" for a
    using assms(3) by auto
  have "flist (write64 p (freelist s) (memset p 1 PGSIZE (mem s))) (freelist s) ps"
    by (rule flist_pages_cong [of "mem s"])
      (use assms p ne in \<open>auto simp: kmem_inv_def ram_page_def write64_at_page memset_page\<close>)
  moreover have "p \<noteq> 0" using p(2) assms(1) by (auto simp: kmem_inv_def)
  ultimately show "kmem_inv (p # ps) (s\<lparr>mem := write64 p (freelist s) (memset p 1 PGSIZE (mem s)), freelist := p\<rparr>)"
    using assms by (auto simp: kmem_inv_def ram_page_def)
qed

lemma kfree_panics:
  "\<not> page_aligned p \<or> p < ld_end s \<or> p \<ge> PHYSTOP \<Longrightarrow> kfree p s = Panic ''kfree''"
  by (auto simp: kfree_def run_bnd page_aligned_def)

section \<open>The allocator's contract\<close>

text \<open>
  What the rest of the kernel relies on: \<open>alloc\<close> pops the list of free pages and returns 0 when it
  is empty, \<open>free\<close> pushes a page that is not free, and memory outside the page handed over is
  untouched. The lemmas of the locale are what any client gets from it.
\<close>

locale page_allocator =
  fixes alloc :: "('s, uint64) kmonad"
    and free :: "uint64 \<Rightarrow> ('s, unit) kmonad"
    and free_pages :: "uint64 list \<Rightarrow> 's \<Rightarrow> bool"
    and is_ram :: "'s \<Rightarrow> uint64 \<Rightarrow> bool"
    and bytes :: "'s \<Rightarrow> memory"
  assumes alloc_empty: "free_pages [] s \<Longrightarrow> alloc s = Ok (0, s)"
    and alloc_some: "free_pages (p # ps) s \<Longrightarrow>
      \<exists>s'. alloc s = Ok (p, s') \<and> free_pages ps s' \<and> is_ram s' = is_ram s \<and>
        (\<forall>a. PGROUNDDOWN a \<noteq> p \<longrightarrow> bytes s' a = bytes s a)"
    and free_one: "free_pages ps s \<Longrightarrow> is_ram s p \<Longrightarrow> p \<notin> set ps \<Longrightarrow>
      \<exists>s'. free p s = Ok ((), s') \<and> free_pages (p # ps) s' \<and> is_ram s' = is_ram s \<and>
        (\<forall>a. PGROUNDDOWN a \<noteq> p \<longrightarrow> bytes s' a = bytes s a)"
    and free_distinct: "free_pages ps s \<Longrightarrow> distinct ps"
    and free_ram: "free_pages ps s \<Longrightarrow> p \<in> set ps \<Longrightarrow> is_ram s p"
    and free_unique: "free_pages ps s \<Longrightarrow> free_pages qs s \<Longrightarrow> ps = qs"
begin

lemma alloc_then_free:
  assumes "free_pages (p # ps) s"
  obtains s1 s2 where "alloc s = Ok (p, s1)" and "free p s1 = Ok ((), s2)" and "free_pages (p # ps) s2"
    and "\<And>a. PGROUNDDOWN a \<noteq> p \<Longrightarrow> bytes s2 a = bytes s a"
proof -
  obtain s1 where s1: "alloc s = Ok (p, s1)" "free_pages ps s1" "is_ram s1 = is_ram s"
      "\<forall>a. PGROUNDDOWN a \<noteq> p \<longrightarrow> bytes s1 a = bytes s a"
    using alloc_some [OF assms] by blast
  have "p \<notin> set ps" using free_distinct [OF assms] by simp
  moreover have "is_ram s1 p" using free_ram [OF assms] s1(3) by simp
  ultimately obtain s2 where s2: "free p s1 = Ok ((), s2)" "free_pages (p # ps) s2"
      "\<forall>a. PGROUNDDOWN a \<noteq> p \<longrightarrow> bytes s2 a = bytes s1 a"
    using free_one [OF s1(2)] by blast
  show thesis
    using that [OF s1(1) s2(1,2)] s1(4) s2(3) by simp
qed

text \<open>A page handed out is not handed out again while it is in use.\<close>

lemma alloc_not_reused:
  assumes "free_pages ps s" and "alloc s = Ok (p, s1)" and "alloc s1 = Ok (q, s2)" and "p \<noteq> 0"
  shows "p \<noteq> q"
proof (cases ps)
  case Nil
  with assms alloc_empty show ?thesis by simp
next
  case (Cons p' ps')
  with assms(1,2) alloc_some [of p' ps' s] have p: "p' = p" and s1: "free_pages ps' s1" by auto
  have p': "p \<notin> set ps'" using free_distinct [OF assms(1)] Cons p by simp
  show ?thesis
  proof (cases ps')
    case Nil
    with s1 assms(3,4) alloc_empty [of s1] show ?thesis by simp
  next
    case (Cons q' qs)
    with s1 assms(3) alloc_some [of q' qs s1] p' show ?thesis by auto
  qed
qed

lemma alloc_pops:
  assumes "free_pages ps s" and "alloc s = Ok (p, s')"
  shows "(p = 0 \<and> ps = [] \<and> s' = s) \<or> (\<exists>qs. ps = p # qs \<and> free_pages qs s')"
proof (cases ps)
  case Nil
  with assms alloc_empty show ?thesis by simp
next
  case (Cons q qs)
  with assms alloc_some [of q qs s] show ?thesis by auto
qed

end

interpretation ka: page_allocator kalloc kfree kmem_inv ram_page mem
proof (unfold_locales, goal_cases)
  case (1 s)
  then show ?case by (rule kalloc_Nil)
next
  case (2 p ps s)
  have "page_aligned p" using 2 by (simp add: kmem_inv_def ram_page_def)
  then show ?case
    using kalloc_Cons [OF 2] by (simp add: memset_page)
next
  case (3 ps s p)
  have "page_aligned p" using 3 by (simp add: ram_page_def)
  then show ?case
    using kfree_push [OF 3] by (simp add: memset_page write64_at_page)
next
  case (4 ps s)
  then show ?case by (simp add: kmem_inv_def)
next
  case (5 ps s p)
  then show ?case by (simp add: kmem_inv_def)
next
  case (6 ps s qs)
  then show ?case by (auto simp: kmem_inv_def dest: flist_unique)
qed

section \<open>Initialisation\<close>

definition pages_between :: "uint64 \<Rightarrow> uint64 \<Rightarrow> uint64 list" where
  "pages_between lo hi = map (\<lambda>i. lo + of_nat (PGSIZE * i)) [0..<(unat hi - unat lo) div PGSIZE]"

lemma div_step:
  fixes l h k :: nat
  assumes "l + k \<le> h" and "0 < k"
  shows "(h - l) div k = Suc ((h - (l + k)) div k)"
proof -
  from assms(1) obtain d where "h = l + k + d" using le_Suc_ex by blast
  with assms(2) show ?thesis using div_add_self1 [of k d] by simp
qed

lemma pages_between_Nil: "unat hi < unat lo + PGSIZE \<Longrightarrow> pages_between lo hi = []"
  by (simp add: pages_between_def)

lemma pages_between_step:
  assumes "unat lo + PGSIZE \<le> unat hi"
  shows "pages_between lo hi = lo # pages_between (lo + PGSIZE) hi" and "unat (lo + PGSIZE) = unat lo + PGSIZE"
proof -
  have hi: "unat hi < 2 ^ 64" using unat_less_exp [of hi] by simp
  have "unat (lo + of_nat 4096) = unat lo + 4096"
    using assms hi by (intro unat_region [where n = 4097]) simp_all
  then show lo: "unat (lo + PGSIZE) = unat lo + PGSIZE" by simp
  have "(unat hi - unat lo) div 4096 = Suc ((unat hi - (unat lo + 4096)) div 4096)"
    using div_step [OF assms] by simp
  then have "[0..<(unat hi - unat lo) div 4096] = 0 # map Suc [0..<(unat hi - (unat lo + 4096)) div 4096]"
    by (simp add: upt_conv_Cons map_Suc_upt del: upt_Suc)
  then show "pages_between lo hi = lo # pages_between (lo + PGSIZE) hi"
    unfolding pages_between_def lo by (simp add: o_def algebra_simps)
qed

lemma page_step_ge:
  assumes "page_aligned p" and "p < hi"  and "page_aligned hi"
  shows "unat p + PGSIZE \<le> unat hi"
proof -
  obtain k l where "unat p = 4096 * k" "unat hi = 4096 * l"
    using assms(1,3) by (auto simp: page_aligned_unat dvd_def)
  with assms(2) show ?thesis by (simp add: word_less_nat_alt)
qed

lemma page_aligned_PHYSTOP [simp]: "page_aligned PHYSTOP"
  by (simp add: page_aligned_def PHYSTOP_eq)

lemma page_aligned_step: "page_aligned p \<Longrightarrow> unat (p + PGSIZE) = unat p + PGSIZE \<Longrightarrow> page_aligned (p + PGSIZE)"
  by (simp add: page_aligned_unat)

lemma freerange_loop_ok:
  assumes "kmem_inv ps s" and "page_aligned p" and "ld_end s \<le> p" and "p \<le> PHYSTOP"
    and "\<forall>q \<in> set ps. q < p" and "(unat PHYSTOP - unat p) div PGSIZE < fuel"
  shows "\<exists>s'. freerange_loop fuel p PHYSTOP s = Ok ((), s') \<and>
    kmem_inv (rev (pages_between p PHYSTOP) @ ps) s'"
  using assms
proof (induction fuel arbitrary: p ps s)
  case 0
  then show ?case by simp
next
  case (Suc fuel)
  show ?case
  proof (cases "p < PHYSTOP")
    case True
    have step: "unat p + PGSIZE \<le> unat PHYSTOP"
      using Suc.prems(2) True by (rule page_step_ge) simp
    note pb = pages_between_step [OF step]
    have guard: "p + PGSIZE \<le> PHYSTOP" using step pb(2) by (simp add: word_le_nat_alt)
    have "p \<notin> set ps" using Suc.prems(5) by auto
    moreover have "ram_page s p" using Suc.prems True by (simp add: ram_page_def)
    ultimately obtain s1 where s1: "kfree p s = Ok ((), s1)" "kmem_inv (p # ps) s1" "ram_page s1 = ram_page s"
        "ld_end s1 = ld_end s"
      using kfree_push [OF Suc.prems(1)] by simp
    have "\<exists>s'. freerange_loop fuel (p + PGSIZE) PHYSTOP s1 = Ok ((), s') \<and>
        kmem_inv (rev (pages_between (p + PGSIZE) PHYSTOP) @ p # ps) s'"
    proof (rule Suc.IH [OF s1(2)])
      show "page_aligned (p + PGSIZE)" using Suc.prems(2) pb(2) by (rule page_aligned_step)
      show "ld_end s1 \<le> p + PGSIZE"
        using Suc.prems(3) pb(2) s1(4) by (simp add: word_le_nat_alt)
      show "p + PGSIZE \<le> PHYSTOP" by (rule guard)
      show "\<forall>q \<in> set (p # ps). q < p + PGSIZE"
        using Suc.prems(5) pb(2) by (auto simp: word_less_nat_alt)
      show "(unat PHYSTOP - unat (p + PGSIZE)) div PGSIZE < fuel"
      proof -
        have "(unat PHYSTOP - unat p) div 4096 = Suc ((unat PHYSTOP - (unat p + 4096)) div 4096)"
          using div_step [OF step] by simp
        with Suc.prems(6) pb(2) show ?thesis by simp
      qed
    qed
    then show ?thesis
      using guard s1(1) pb(1) by simp
  next
    case False
    with Suc.prems(4) have p: "p = PHYSTOP" by simp
    have "\<not> PHYSTOP + PGSIZE \<le> PHYSTOP" by (simp add: PHYSTOP_eq)
    then show ?thesis
      using Suc.prems(1) p by (simp add: pages_between_Nil)
  qed
qed

section \<open>Properties\<close>

text \<open>
  C32. \<open>kinit\<close> returns, and afterwards the free list holds exactly the page-aligned pages from the
  first page boundary at or after the kernel's \<^verbatim>\<open>end\<close> up to \<open>PHYSTOP\<close>, each once.
\<close>

theorem kinit_frees_all_ram:
  assumes "freelist s = 0" and "0 < ld_end s" and "ld_end s \<le> PHYSTOP"
  shows "\<exists>s'. kinit s = Ok ((), s') \<and> kmem_inv (rev (pages_between (PGROUNDUP (ld_end s)) PHYSTOP)) s'"
proof -
  let ?p = "PGROUNDUP (ld_end s)"
  have small: "unat (ld_end s) \<le> 0x88200000"
    using assms(3) by (simp add: PHYSTOP_eq word_le_nat_alt)
  then have up: "unat ?p = (unat (ld_end s) + 4095) div 4096 * 4096"
    by (subst unat_PGROUNDUP) simp_all
  have lo: "ld_end s \<le> ?p"
    using div_mult_mod_eq [of "unat (ld_end s) + 4095" 4096] mod_less_divisor [of 4096 "unat (ld_end s) + 4095"]
    unfolding word_le_nat_alt up by linarith
  have hi: "?p \<le> PHYSTOP"
  proof -
    have "(unat (ld_end s) + 4095) div 4096 \<le> (0x88200000 + 4095) div 4096"
      using small by (intro div_le_mono) simp
    then show ?thesis unfolding word_le_nat_alt up by (simp add: PHYSTOP_eq)
  qed
  have "(unat PHYSTOP - unat ?p) div PGSIZE < Suc (unat PHYSTOP div PGSIZE)"
    by (simp add: div_le_mono less_Suc_eq_le)
  then have "\<exists>s'. freerange_loop (Suc (unat PHYSTOP div PGSIZE)) ?p PHYSTOP s = Ok ((), s') \<and>
      kmem_inv (rev (pages_between ?p PHYSTOP) @ []) s'"
    using assms lo hi by (intro freerange_loop_ok) (simp_all add: kmem_inv_def)
  then show ?thesis by (simp add: kinit_def freerange_def run_bnd)
qed

theorem kinit_frees_all_ram_witness:
  "\<exists>s'. kinit \<lparr>mem = (\<lambda>_. 0), freelist = 0, ld_end = 0x80300000, ld_etext = 0, ld_trampoline = 0\<rparr> = Ok ((), s') \<and>
     kmem_inv (rev (pages_between (PGROUNDUP 0x80300000) PHYSTOP)) s'"
  using kinit_frees_all_ram [of "\<lparr>mem = (\<lambda>_. 0), freelist = 0, ld_end = 0x80300000, ld_etext = 0, ld_trampoline = 0\<rparr>"]
  by (simp add: PHYSTOP_eq)

text \<open>
  C20. \<open>kalloc\<close> and \<open>kfree\<close> refine a stack of pages kept inside the free pages: \<open>kalloc\<close> returns the
  top page, or 0 exactly when no page is free; \<open>kfree\<close> of an allocated page puts it on top; both
  leave every byte outside that page as it was; and \<open>kfree\<close> of an address that is not a page of
  allocatable memory panics.
\<close>

theorem kalloc_kfree_refine_stack:
  assumes "kmem_inv ps s"
  shows "(case ps of [] \<Rightarrow> kalloc s = Ok (0, s)
          | p # qs \<Rightarrow> \<exists>s'. kalloc s = Ok (p, s') \<and> kmem_inv qs s' \<and>
              (\<forall>a. PGROUNDDOWN a \<noteq> p \<longrightarrow> mem s' a = mem s a)) \<and>
    (\<forall>p. kfree p s = Panic ''kfree'' \<longleftrightarrow> \<not> ram_page s p) \<and>
    (\<forall>p. ram_page s p \<and> p \<notin> set ps \<longrightarrow>
       (\<exists>s'. kfree p s = Ok ((), s') \<and> kmem_inv (p # ps) s' \<and>
          (\<forall>a. PGROUNDDOWN a \<noteq> p \<longrightarrow> mem s' a = mem s a)))"
proof (intro conjI allI impI)
  show "case ps of [] \<Rightarrow> kalloc s = Ok (0, s)
      | p # qs \<Rightarrow> \<exists>s'. kalloc s = Ok (p, s') \<and> kmem_inv qs s' \<and>
          (\<forall>a. PGROUNDDOWN a \<noteq> p \<longrightarrow> mem s' a = mem s a)"
    using assms ka.alloc_empty ka.alloc_some by (fastforce split: list.splits)
next
  fix p
  show "kfree p s = Panic ''kfree'' \<longleftrightarrow> \<not> ram_page s p"
    by (auto simp: kfree_def run_bnd run_sq mem_set_def store64_def ram_page_def page_aligned_def not_less not_le)
next
  fix p
  assume "ram_page s p \<and> p \<notin> set ps"
  then show "\<exists>s'. kfree p s = Ok ((), s') \<and> kmem_inv (p # ps) s' \<and>
      (\<forall>a. PGROUNDDOWN a \<noteq> p \<longrightarrow> mem s' a = mem s a)"
    using ka.free_one [OF assms] by blast
qed

theorem kalloc_kfree_refine_stack_witness:
  "(\<exists>s'. kalloc \<lparr>mem = (\<lambda>_. 0), freelist = 0x80300000, ld_end = 0x80300000, ld_etext = 0, ld_trampoline = 0\<rparr> =
       Ok (0x80300000, s') \<and> kmem_inv [] s') \<and>
   (\<exists>s'. kfree 0x80301000 \<lparr>mem = (\<lambda>_. 0), freelist = 0x80300000, ld_end = 0x80300000, ld_etext = 0, ld_trampoline = 0\<rparr> =
       Ok ((), s') \<and> kmem_inv [0x80301000, 0x80300000] s')"
proof -
  let ?s = "\<lparr>mem = (\<lambda>_. 0), freelist = 0x80300000, ld_end = 0x80300000, ld_etext = 0, ld_trampoline = 0\<rparr>"
  have "kmem_inv [0x80300000] ?s"
    by (simp add: kmem_inv_def ram_page_def page_aligned_def PHYSTOP_eq read64_0)
  from kalloc_kfree_refine_stack [OF this]
  have *: "(\<exists>s'. kalloc ?s = Ok (0x80300000, s') \<and> kmem_inv [] s' \<and>
        (\<forall>a. PGROUNDDOWN a \<noteq> 0x80300000 \<longrightarrow> mem s' a = mem ?s a))"
    "ram_page ?s 0x80301000 \<Longrightarrow>
      \<exists>s'. kfree 0x80301000 ?s = Ok ((), s') \<and> kmem_inv [0x80301000, 0x80300000] s'"
    by auto
  have "ram_page ?s 0x80301000" by (simp add: ram_page_def page_aligned_def PHYSTOP_eq)
  with * show ?thesis by blast
qed

end
