(* ===== verification/Param.thy ===== *)
theory Param
  imports Prelude
begin

text \<open>\<^verbatim>\<open>include/kernel/param.h\<close>: the sizes of the kernel's tables.\<close>

definition NPROC :: nat where "NPROC = 64"
definition NCPU :: nat where "NCPU = 8"
definition NOFILE :: nat where "NOFILE = 16"
definition NFILE :: nat where "NFILE = 100"
definition NINODE :: nat where "NINODE = 50"
definition NDEV :: nat where "NDEV = 10"
definition ROOTDEV :: uint32 where "ROOTDEV = 1"
definition MAXARG :: nat where "MAXARG = 32"
definition MAXOPBLOCKS :: nat where "MAXOPBLOCKS = 10"
definition LOGSIZE :: nat where "LOGSIZE = MAXOPBLOCKS * 3"
definition NBUF :: nat where "NBUF = MAXOPBLOCKS * 3"
definition FSSIZE :: nat where "FSSIZE = 1000"
definition MAXPATH :: nat where "MAXPATH = 128"

lemmas param_defs = NPROC_def NCPU_def NOFILE_def NFILE_def NINODE_def NDEV_def ROOTDEV_def MAXARG_def
  MAXOPBLOCKS_def LOGSIZE_def NBUF_def FSSIZE_def MAXPATH_def

end
