(* ===== verification/Vm.thy ===== *)
theory Vm
  imports Kalloc Param
begin

unbundle bit_operations_syntax

text \<open>
  \<^verbatim>\<open>src/kernel/mm/vm.c\<close> (and \<open>proc_mapstacks\<close> of \<^verbatim>\<open>proc.c\<close>, which \<open>kvmmake\<close> calls): Sv39 page tables
  kept in physical memory and the routines that build, change, copy and free them, and that copy
  data between the kernel and user memory through them.

  A page table is the address of its root page, entry \<open>i\<close> of table page \<open>t\<close> the eight bytes at
  \<open>t + 8 * i\<close>. Kernel memory is mapped one to one, so a kernel pointer to a page is its physical
  address. A kernel buffer that user data is copied from or to is given by its bytes: \<open>copyout\<close>
  takes the bytes at \<^verbatim>\<open>src\<close>, \<open>copyin\<close> and \<open>copyinstr\<close> return the bytes they put at \<^verbatim>\<open>dst\<close>.

  The state of the allocator is extended by \<^verbatim>\<open>kernel_pagetable\<close>.
\<close>

section \<open>State and operations\<close>

record vmem = kmem +
  kernel_pagetable :: uint64

text \<open>The loop of \<open>walk\<close> from \<open>level\<close> down to 1, and the address it returns at level 0.\<close>

primrec walk_levels :: "nat \<Rightarrow> uint64 \<Rightarrow> uint64 \<Rightarrow> bool \<Rightarrow> ('x kmem_scheme, uint64) kmonad" where
  "walk_levels 0 pagetable va alloc = ret (pagetable + 8 * PX 0 va)"
| "walk_levels (Suc l) pagetable va alloc =
     (let pte = pagetable + 8 * PX (Suc l) va in
      bnd (load64 pte) (\<lambda>e.
        if e AND PTE_V \<noteq> 0 then walk_levels l (PTE2PA e) va alloc
        else if \<not> alloc then ret 0
        else bnd kalloc (\<lambda>p.
          if p = 0 then ret 0
          else sq (mem_set p 0 PGSIZE) (
               sq (store64 pte (PA2PTE p OR PTE_V)) (
               walk_levels l p va alloc)))))"

definition walk :: "uint64 \<Rightarrow> uint64 \<Rightarrow> bool \<Rightarrow> ('x kmem_scheme, uint64) kmonad" where
  "walk pagetable va alloc = (if va \<ge> MAXVA then panic ''walk'' else walk_levels 2 pagetable va alloc)"

definition walkaddr :: "uint64 \<Rightarrow> uint64 \<Rightarrow> ('x kmem_scheme, uint64) kmonad" where
  "walkaddr pagetable va =
     (if va \<ge> MAXVA then ret 0
      else bnd (walk pagetable va False) (\<lambda>pte.
        if pte = 0 then ret 0
        else bnd (load64 pte) (\<lambda>e.
          if e AND PTE_V = 0 then ret 0
          else if e AND PTE_U = 0 then ret 0
          else ret (PTE2PA e))))"

text \<open>
  The loop of \<open>mappages\<close>. It stops when \<open>a\<close> meets \<open>last\<close>; both are page aligned, so the distance
  between them in pages bounds its iterations.
\<close>

primrec mappages_loop :: "nat \<Rightarrow> uint64 \<Rightarrow> uint64 \<Rightarrow> uint64 \<Rightarrow> uint64 \<Rightarrow> uint64 \<Rightarrow> ('x kmem_scheme, int) kmonad" where
  "mappages_loop 0 pagetable a last_page pa perm = diverge"
| "mappages_loop (Suc fuel) pagetable a last_page pa perm =
     bnd (walk pagetable a True) (\<lambda>pte.
       if pte = 0 then ret (-1)
       else bnd (load64 pte) (\<lambda>e.
         if e AND PTE_V \<noteq> 0 then panic ''mappages: remap''
         else sq (store64 pte (PA2PTE pa OR perm OR PTE_V)) (
           if a = last_page then ret 0
           else mappages_loop fuel pagetable (a + PGSIZE) last_page (pa + PGSIZE) perm)))"

definition mappages :: "uint64 \<Rightarrow> uint64 \<Rightarrow> uint64 \<Rightarrow> uint64 \<Rightarrow> uint64 \<Rightarrow> ('x kmem_scheme, int) kmonad" where
  "mappages pagetable va sz pa perm =
     (if sz = 0 then panic ''mappages: size''
      else let a = PGROUNDDOWN va; last_page = PGROUNDDOWN (va + sz - 1) in
        mappages_loop (Suc (unat (last_page - a) div PGSIZE)) pagetable a last_page pa perm)"

definition kvmmap :: "uint64 \<Rightarrow> uint64 \<Rightarrow> uint64 \<Rightarrow> uint64 \<Rightarrow> uint64 \<Rightarrow> ('x kmem_scheme, unit) kmonad" where
  "kvmmap kpgtbl va pa sz perm =
     bnd (mappages kpgtbl va sz pa perm) (\<lambda>r. if r \<noteq> 0 then panic ''kvmmap'' else ret ())"

definition proc_mapstacks :: "uint64 \<Rightarrow> ('x kmem_scheme, unit) kmonad" where
  "proc_mapstacks kpgtbl = for_each [0..<NPROC] (\<lambda>p.
     bnd kalloc (\<lambda>pa.
       if pa = 0 then panic ''kalloc''
       else kvmmap kpgtbl (KSTACK p) pa PGSIZE (PTE_R OR PTE_W)))"

definition kvmmake :: "('x kmem_scheme, uint64) kmonad" where
  "kvmmake =
     bnd kalloc (\<lambda>kpgtbl.
     sq (mem_set kpgtbl 0 PGSIZE) (
     sq (kvmmap kpgtbl UART0 UART0 PGSIZE (PTE_R OR PTE_W)) (
     sq (kvmmap kpgtbl VIRTIO0 VIRTIO0 PGSIZE (PTE_R OR PTE_W)) (
     sq (kvmmap kpgtbl CLINT_MTIME CLINT_MTIME PGSIZE PTE_R) (
     sq (kvmmap kpgtbl PLIC PLIC 0x400000 (PTE_R OR PTE_W)) (
     bnd (gets ld_etext) (\<lambda>etext.
     sq (kvmmap kpgtbl KERNBASE KERNBASE (etext - KERNBASE) (PTE_R OR PTE_X)) (
     sq (kvmmap kpgtbl etext etext (PHYSTOP - etext) (PTE_R OR PTE_W)) (
     bnd (gets ld_trampoline) (\<lambda>trampoline.
     sq (kvmmap kpgtbl TRAMPOLINE trampoline PGSIZE (PTE_R OR PTE_X)) (
     sq (proc_mapstacks kpgtbl) (
     ret kpgtbl))))))))))))"

definition kvminit :: "('x vmem_scheme, unit) kmonad" where
  "kvminit = bnd kvmmake (\<lambda>t. modify (kernel_pagetable_update (\<lambda>_. t)))"

definition kvminithart :: "'x vmem_scheme \<Rightarrow> csr \<Rightarrow> csr" where
  "kvminithart s h = w_satp (MAKE_SATP (kernel_pagetable s)) h"

primrec uvmunmap_loop :: "nat \<Rightarrow> uint64 \<Rightarrow> uint64 \<Rightarrow> uint64 \<Rightarrow> bool \<Rightarrow> ('x kmem_scheme, unit) kmonad" where
  "uvmunmap_loop 0 pagetable a end_va do_free = diverge"
| "uvmunmap_loop (Suc fuel) pagetable a end_va do_free =
     (if a < end_va then
        bnd (walk pagetable a False) (\<lambda>pte.
          if pte = 0 then panic ''uvmunmap: walk''
          else bnd (load64 pte) (\<lambda>e.
            if e AND PTE_V = 0 then panic ''uvmunmap: not mapped''
            else if PTE_FLAGS e = PTE_V then panic ''uvmunmap: not a leaf''
            else sq (if do_free then kfree (PTE2PA e) else ret ()) (
                 sq (store64 pte 0) (
                 uvmunmap_loop fuel pagetable (a + PGSIZE) end_va do_free))))
      else ret ())"

definition uvmunmap :: "uint64 \<Rightarrow> uint64 \<Rightarrow> uint64 \<Rightarrow> bool \<Rightarrow> ('x kmem_scheme, unit) kmonad" where
  "uvmunmap pagetable va npages do_free =
     (if va mod PGSIZE \<noteq> 0 then panic ''uvmunmap: not aligned''
      else uvmunmap_loop (Suc (unat (npages * PGSIZE) div PGSIZE)) pagetable va (va + npages * PGSIZE) do_free)"

definition uvmcreate :: "('x kmem_scheme, uint64) kmonad" where
  "uvmcreate = bnd kalloc (\<lambda>pagetable.
     if pagetable = 0 then ret 0 else sq (mem_set pagetable 0 PGSIZE) (ret pagetable))"

definition mem_write :: "uint64 \<Rightarrow> uint8 list \<Rightarrow> ('x kmem_scheme, unit) kmonad" where
  "mem_write a bs = modify (mem_update (\<lambda>m. mem_put m a bs))"

definition uvminit :: "uint64 \<Rightarrow> uint8 list \<Rightarrow> ('x kmem_scheme, unit) kmonad" where
  "uvminit pagetable src =
     (if length src \<ge> PGSIZE then panic ''inituvm: more than a page''
      else bnd kalloc (\<lambda>p.
        sq (mem_set p 0 PGSIZE) (
        bnd (mappages pagetable 0 PGSIZE p (PTE_W OR PTE_R OR PTE_X OR PTE_U)) (\<lambda>_.
        mem_write p src))))"

text \<open>\<^verbatim>\<open>int npages\<close> keeps the low 32 bits of the quotient, and is sign-extended when passed on.\<close>

definition uvmdealloc :: "uint64 \<Rightarrow> uint64 \<Rightarrow> uint64 \<Rightarrow> ('x kmem_scheme, uint64) kmonad" where
  "uvmdealloc pagetable oldsz newsz =
     (if newsz \<ge> oldsz then ret oldsz
      else sq (if PGROUNDUP newsz < PGROUNDUP oldsz then
                 let npages = (ucast ((PGROUNDUP oldsz - PGROUNDUP newsz) div PGSIZE) :: uint32) in
                 uvmunmap pagetable (PGROUNDUP newsz) (scast npages) True
               else ret ()) (
           ret newsz))"

primrec uvmalloc_loop :: "nat \<Rightarrow> uint64 \<Rightarrow> uint64 \<Rightarrow> uint64 \<Rightarrow> uint64 \<Rightarrow> ('x kmem_scheme, uint64) kmonad" where
  "uvmalloc_loop 0 pagetable oldsz a newsz = diverge"
| "uvmalloc_loop (Suc fuel) pagetable oldsz a newsz =
     (if a < newsz then
        bnd kalloc (\<lambda>p.
          if p = 0 then bnd (uvmdealloc pagetable a oldsz) (\<lambda>_. ret 0)
          else sq (mem_set p 0 PGSIZE) (
               bnd (mappages pagetable a PGSIZE p (PTE_W OR PTE_X OR PTE_R OR PTE_U)) (\<lambda>r.
               if r \<noteq> 0 then sq (kfree p) (bnd (uvmdealloc pagetable a oldsz) (\<lambda>_. ret 0))
               else uvmalloc_loop fuel pagetable oldsz (a + PGSIZE) newsz)))
      else ret newsz)"

definition uvmalloc :: "uint64 \<Rightarrow> uint64 \<Rightarrow> uint64 \<Rightarrow> ('x kmem_scheme, uint64) kmonad" where
  "uvmalloc pagetable oldsz newsz =
     (if newsz < oldsz then ret oldsz
      else uvmalloc_loop (Suc (unat newsz div PGSIZE + 1)) pagetable (PGROUNDUP oldsz) (PGROUNDUP oldsz) newsz)"

text \<open>
  \<open>freewalk\<close> recurses into every entry that is valid and has none of R, W, X. The recursion is
  bounded by the number of pages there are: deeper, a page would be its own ancestor and the code
  would not return.
\<close>

primrec freewalk_rec :: "nat \<Rightarrow> uint64 \<Rightarrow> ('x kmem_scheme, unit) kmonad" where
  "freewalk_rec 0 pagetable = diverge"
| "freewalk_rec (Suc depth) pagetable =
     sq (for_each [0..<512] (\<lambda>i.
           bnd (load64 (pagetable + 8 * of_nat i)) (\<lambda>pte.
             if pte AND PTE_V \<noteq> 0 \<and> pte AND (PTE_R OR PTE_W OR PTE_X) = 0 then
               sq (freewalk_rec depth (PTE2PA pte)) (store64 (pagetable + 8 * of_nat i) 0)
             else if pte AND PTE_V \<noteq> 0 then panic ''freewalk: leaf''
             else ret ()))) (
        kfree pagetable)"

definition freewalk :: "uint64 \<Rightarrow> ('x kmem_scheme, unit) kmonad" where
  "freewalk pagetable = freewalk_rec (2 ^ 52) pagetable"

definition uvmfree :: "uint64 \<Rightarrow> uint64 \<Rightarrow> ('x kmem_scheme, unit) kmonad" where
  "uvmfree pagetable sz =
     sq (if sz > 0 then uvmunmap pagetable 0 (PGROUNDUP sz div PGSIZE) True else ret ()) (
     freewalk pagetable)"

primrec uvmcopy_loop :: "nat \<Rightarrow> uint64 \<Rightarrow> uint64 \<Rightarrow> uint64 \<Rightarrow> uint64 \<Rightarrow> ('x kmem_scheme, int) kmonad" where
  "uvmcopy_loop 0 old new i sz = diverge"
| "uvmcopy_loop (Suc fuel) old new i sz =
     (if i < sz then
        bnd (walk old i False) (\<lambda>pte.
          if pte = 0 then panic ''uvmcopy: pte should exist''
          else bnd (load64 pte) (\<lambda>e.
            if e AND PTE_V = 0 then panic ''uvmcopy: page not present''
            else bnd kalloc (\<lambda>p.
              if p = 0 then sq (uvmunmap new 0 (i div PGSIZE) True) (ret (-1))
              else sq (mem_move p (PTE2PA e) PGSIZE) (
                   bnd (mappages new i PGSIZE p (PTE_FLAGS e)) (\<lambda>r.
                   if r \<noteq> 0 then sq (kfree p) (sq (uvmunmap new 0 (i div PGSIZE) True) (ret (-1)))
                   else uvmcopy_loop fuel old new (i + PGSIZE) sz)))))
      else ret 0)"

definition uvmcopy :: "uint64 \<Rightarrow> uint64 \<Rightarrow> uint64 \<Rightarrow> ('x kmem_scheme, int) kmonad" where
  "uvmcopy old new sz = uvmcopy_loop (Suc (unat sz div PGSIZE + 1)) old new 0 sz"

definition uvmclear :: "uint64 \<Rightarrow> uint64 \<Rightarrow> ('x kmem_scheme, unit) kmonad" where
  "uvmclear pagetable va =
     bnd (walk pagetable va False) (\<lambda>pte.
       if pte = 0 then panic ''uvmclear''
       else bnd (load64 pte) (\<lambda>e. store64 pte (e AND NOT PTE_U)))"

text \<open>The bytes a page of the copy takes: up to the end of the page of \<open>va\<close>, at most \<open>len\<close>.\<close>

definition page_chunk :: "uint64 \<Rightarrow> nat \<Rightarrow> nat" where
  "page_chunk va len = min (PGSIZE - unat (va - PGROUNDDOWN va)) len"

lemma page_chunk_pos: "0 < len \<Longrightarrow> 0 < page_chunk va len"
  using PGROUNDDOWN_in_page [of "PGROUNDDOWN va" va] by (simp add: page_chunk_def)

function copyout :: "uint64 \<Rightarrow> uint64 \<Rightarrow> uint8 list \<Rightarrow> ('x kmem_scheme, int) kmonad" where
  "copyout pagetable dstva src =
     (if src = [] then ret 0
      else let va0 = PGROUNDDOWN dstva; n = page_chunk dstva (length src) in
        bnd (walkaddr pagetable va0) (\<lambda>pa0.
          if pa0 = 0 then ret (-1)
          else sq (mem_write (pa0 + (dstva - va0)) (take n src)) (
               copyout pagetable (va0 + PGSIZE) (drop n src))))"
  by pat_completeness auto
termination
  by (relation "measure (\<lambda>(pagetable, dstva, src). length src)") (auto simp: page_chunk_pos)

function copyin :: "uint64 \<Rightarrow> uint64 \<Rightarrow> nat \<Rightarrow> ('x kmem_scheme, int \<times> uint8 list) kmonad" where
  "copyin pagetable srcva len =
     (if len = 0 then ret (0, [])
      else let va0 = PGROUNDDOWN srcva; n = page_chunk srcva len in
        bnd (walkaddr pagetable va0) (\<lambda>pa0.
          if pa0 = 0 then ret (-1, [])
          else bnd (gets (\<lambda>s. mem_bytes (mem s) (pa0 + (srcva - va0)) n)) (\<lambda>bs.
               bnd (copyin pagetable (va0 + PGSIZE) (len - n)) (\<lambda>(r, bs').
               ret (r, bs @ bs')))))"
  by pat_completeness auto
termination
  by (relation "measure (\<lambda>(pagetable, srcva, len). len)") (auto simp: page_chunk_pos)

text \<open>The inner loop of \<open>copyinstr\<close>: the bytes stored at \<^verbatim>\<open>dst\<close>, and whether a NUL was found.\<close>

primrec copy_to_nul :: "memory \<Rightarrow> uint64 \<Rightarrow> nat \<Rightarrow> uint8 list \<times> bool" where
  "copy_to_nul m p 0 = ([], False)"
| "copy_to_nul m p (Suc n) =
     (if m p = 0 then ([0], True)
      else let (bs, got_null) = copy_to_nul m (p + 1) n in (m p # bs, got_null))"

function copyinstr :: "uint64 \<Rightarrow> uint64 \<Rightarrow> nat \<Rightarrow> ('x kmem_scheme, int \<times> uint8 list) kmonad" where
  "copyinstr pagetable srcva maxlen =
     (if maxlen = 0 then ret (-1, [])
      else let va0 = PGROUNDDOWN srcva; n = page_chunk srcva maxlen in
        bnd (walkaddr pagetable va0) (\<lambda>pa0.
          if pa0 = 0 then ret (-1, [])
          else bnd (gets (\<lambda>s. copy_to_nul (mem s) (pa0 + (srcva - va0)) n)) (\<lambda>(bs, got_null).
               if got_null then ret (0, bs)
               else bnd (copyinstr pagetable (va0 + PGSIZE) (maxlen - n)) (\<lambda>(r, bs').
                    ret (r, bs @ bs')))))"
  by pat_completeness auto
termination
  by (relation "measure (\<lambda>(pagetable, srcva, maxlen). maxlen)") (auto simp: page_chunk_pos)

declare copyout.simps [simp del] copyin.simps [simp del] copyinstr.simps [simp del]

end
