(* ===== verification/Pagetable.thy ===== *)
theory Pagetable
  imports Vm
begin

unbundle bit_operations_syntax

text \<open>
  The structure of the page tables that \<^verbatim>\<open>vm.c\<close> builds in physical memory: a tree of table pages,
  three levels deep, that share no page. For a table page \<open>t\<close> at level \<open>l\<close>, \<open>pt_pages m l t\<close> is the
  set of its table pages, \<open>pt_wf m l t\<close> says that they form a tree, and \<open>pte_addr m l t va\<close> is the
  address of the level-0 entry of \<open>va\<close>, if all tables on the way exist; \<open>pte_of\<close> reads that entry.
  The lemmas say what a write of a level-0 entry, a new table page and a change elsewhere in
  memory leave of that structure, and from them what \<open>walk\<close>, \<open>walkaddr\<close>, \<open>mappages\<close> and
  \<open>uvmunmap\<close> do.
\<close>

section \<open>Tables as trees of pages\<close>

definition ent :: "memory \<Rightarrow> uint64 \<Rightarrow> uint64 \<Rightarrow> uint64" where
  "ent m t i = read64 m (t + 8 * i)"

definition valid :: "uint64 \<Rightarrow> bool" where
  "valid e \<longleftrightarrow> bit e 0"

primrec pt_pages :: "memory \<Rightarrow> nat \<Rightarrow> uint64 \<Rightarrow> uint64 set" where
  "pt_pages m 0 t = {t}"
| "pt_pages m (Suc l) t =
     insert t (\<Union>i \<in> {i. i < 512 \<and> valid (ent m t i)}. pt_pages m l (PTE2PA (ent m t i)))"

primrec pt_wf :: "memory \<Rightarrow> nat \<Rightarrow> uint64 \<Rightarrow> bool" where
  "pt_wf m 0 t \<longleftrightarrow> page_aligned t"
| "pt_wf m (Suc l) t \<longleftrightarrow> page_aligned t \<and>
     (\<forall>i < 512. valid (ent m t i) \<longrightarrow>
        pt_wf m l (PTE2PA (ent m t i)) \<and> t \<notin> pt_pages m l (PTE2PA (ent m t i))) \<and>
     (\<forall>i < 512. \<forall>j < 512. i \<noteq> j \<and> valid (ent m t i) \<and> valid (ent m t j) \<longrightarrow>
        pt_pages m l (PTE2PA (ent m t i)) \<inter> pt_pages m l (PTE2PA (ent m t j)) = {})"

primrec pte_addr :: "memory \<Rightarrow> nat \<Rightarrow> uint64 \<Rightarrow> uint64 \<Rightarrow> uint64 option" where
  "pte_addr m 0 t va = Some (t + 8 * PX 0 va)"
| "pte_addr m (Suc l) t va =
     (let e = ent m t (PX (Suc l) va) in if valid e then pte_addr m l (PTE2PA e) va else None)"

definition pte_of :: "memory \<Rightarrow> nat \<Rightarrow> uint64 \<Rightarrow> uint64 \<Rightarrow> uint64" where
  "pte_of m l t va = (case pte_addr m l t va of None \<Rightarrow> 0 | Some a \<Rightarrow> read64 m a)"

lemma valid_0 [simp]: "\<not> valid 0"
  by (simp add: valid_def)

lemma and_PTE_V_valid: "e AND PTE_V = 0 \<longleftrightarrow> \<not> valid e"
  using and_PTE_V [of e] by (auto simp: valid_def)

lemma PX_less_512 [simp]: "PX l va < 512"
  using PX_less [of l va] by (simp add: word_less_nat_alt)

lemma root_in_pages [simp]: "t \<in> pt_pages m l t"
  by (cases l) auto

lemma pt_wf_aligned: "pt_wf m l t \<Longrightarrow> page_aligned t"
  by (cases l) auto

lemma entry_offset:
  assumes "(i :: uint64) < 512"
  shows "8 * i = of_nat (8 * unat i)" and "8 * unat i < PGSIZE"
  using assms by (simp_all add: word_less_nat_alt)

lemma entry_in_page:
  assumes "page_aligned t" and "i < 512"
  shows "PGROUNDDOWN (t + 8 * i) = t"
  unfolding entry_offset(1) [OF assms(2)]
  by (rule PGROUNDDOWN_offset [OF assms(1) entry_offset(2) [OF assms(2)]])

lemma entry_aligned8:
  assumes "page_aligned t" and "i < 512"
  shows "aligned8 (t + 8 * i)"
proof -
  have "unat (t + of_nat (8 * unat i)) = unat t + 8 * unat i"
    using page_end [OF assms(1)] entry_offset(2) [OF assms(2)] by (intro unat_region [where n = 4096]) simp_all
  moreover have "unat t mod 8 = 0"
    using page_aligned8 [OF assms(1)] by (simp add: aligned8_def)
  ultimately have "unat (t + of_nat (8 * unat i)) mod 8 = 0"
    by (metis mod_0 mod_add_eq mod_mult_self1_is_0 add_0)
  then show ?thesis
    unfolding entry_offset(1) [OF assms(2)] aligned8_def .
qed

lemma entry_inj:
  assumes "page_aligned t" and "page_aligned t'" and "i < 512" and "j < 512" and "t + 8 * i = t' + 8 * j"
  shows "t = t' \<and> i = j"
proof -
  have t: "t = t'"
    using entry_in_page [OF assms(1,3)] entry_in_page [OF assms(2,4)] assms(5) by simp
  then have "8 * i = 8 * j" using assms(5) by simp
  moreover have "unat (8 * k) = 8 * unat k" if "k < 512" for k :: uint64
    using unat_region [of 0 4096 "8 * unat k"] entry_offset(2) [OF that]
    by (subst entry_offset(1) [OF that]) simp
  ultimately have "unat i = unat j"
    using assms(3,4) by (metis mult_cancel1 zero_neq_numeral)
  then show ?thesis using t by (simp add: word_unat_eq_iff)
qed

section \<open>Changes elsewhere in memory\<close>

lemma ent_cong:
  assumes "page_aligned t" and "i < 512" and "\<And>a. PGROUNDDOWN a = t \<Longrightarrow> m' a = m a"
  shows "ent m' t i = ent m t i"
  unfolding ent_def
  by (rule read64_page_cong [OF entry_aligned8 [OF assms(1,2)]]) (simp add: entry_in_page [OF assms(1,2)] assms(3))

lemma pages_child:
  "i < 512 \<Longrightarrow> valid (ent m t i) \<Longrightarrow> pt_pages m l (PTE2PA (ent m t i)) \<subseteq> pt_pages m (Suc l) t"
  by auto

lemma pt_frame:
  assumes "pt_wf m l t" and "\<And>a. PGROUNDDOWN a \<in> pt_pages m l t \<Longrightarrow> m' a = m a"
  shows "pt_pages m' l t = pt_pages m l t \<and> pt_wf m' l t \<and> pte_addr m' l t = pte_addr m l t"
  using assms
proof (induction l arbitrary: t)
  case 0
  then show ?case by (simp add: fun_eq_iff)
next
  case (Suc l)
  have e: "ent m' t i = ent m t i" if "i < 512" for i
    using Suc.prems by (intro ent_cong [OF _ that]) auto
  have child: "pt_pages m' l (PTE2PA (ent m t i)) = pt_pages m l (PTE2PA (ent m t i)) \<and>
      pt_wf m' l (PTE2PA (ent m t i)) \<and> pte_addr m' l (PTE2PA (ent m t i)) = pte_addr m l (PTE2PA (ent m t i))"
    if "i < 512" "valid (ent m t i)" for i
    using Suc.prems that by (intro Suc.IH) auto
  have "pt_pages m' (Suc l) t = pt_pages m (Suc l) t"
    using e child by (auto simp: e child)
  moreover have "pt_wf m' (Suc l) t"
    using Suc.prems(1) e child by simp
  moreover have "pte_addr m' (Suc l) t = pte_addr m (Suc l) t"
    using e child by (auto simp: fun_eq_iff Let_def)
  ultimately show ?case by blast
qed

lemma pte_addr_page:
  assumes "pt_wf m l t" and "pte_addr m l t va = Some a"
  shows "PGROUNDDOWN a \<in> pt_pages m l t \<and> aligned8 a"
  using assms
proof (induction l arbitrary: t)
  case 0
  then show ?case by (auto simp: entry_in_page entry_aligned8)
next
  case (Suc l)
  then have v: "valid (ent m t (PX (Suc l) va))" "pte_addr m l (PTE2PA (ent m t (PX (Suc l) va))) va = Some a"
    by (auto simp: Let_def split: if_splits)
  have "PGROUNDDOWN a \<in> pt_pages m l (PTE2PA (ent m t (PX (Suc l) va))) \<and> aligned8 a"
    by (rule Suc.IH) (use Suc.prems(1) v in simp_all)
  with v(1) show ?case
    using pages_child [of "PX (Suc l) va" m t l] by auto
qed

lemma pte_of_frame:
  assumes "pt_wf m l t" and "\<And>a. PGROUNDDOWN a \<in> pt_pages m l t \<Longrightarrow> m' a = m a"
  shows "pte_of m' l t = pte_of m l t"
proof
  fix va
  have "read64 m' a = read64 m a" if "pte_addr m l t va = Some a" for a
    using pte_addr_page [OF assms(1) that] assms(2) by (intro read64_page_cong) auto
  then show "pte_of m' l t va = pte_of m l t va"
    using pt_frame [OF assms] by (auto simp: pte_of_def split: option.split)
qed

section \<open>Writing a level-0 entry\<close>

lemma pte_addr_inj:
  assumes "pt_wf m l t" and "pte_addr m l t va = Some a" and "pte_addr m l t va' = Some a"
  shows "\<forall>k \<le> l. PX k va = PX k va'"
  using assms
proof (induction l arbitrary: t)
  case 0
  then have "t + 8 * PX 0 va = t + 8 * PX 0 va'" by simp
  with 0 entry_inj [of t t "PX 0 va" "PX 0 va'"] show ?case by simp
next
  case (Suc l)
  let ?i = "PX (Suc l) va" and ?j = "PX (Suc l) va'"
  from Suc.prems have i: "valid (ent m t ?i)" "pte_addr m l (PTE2PA (ent m t ?i)) va = Some a"
    and j: "valid (ent m t ?j)" "pte_addr m l (PTE2PA (ent m t ?j)) va' = Some a"
    by (auto simp: Let_def split: if_splits)
  have "?i = ?j"
  proof (rule ccontr)
    assume "?i \<noteq> ?j"
    then have "pt_pages m l (PTE2PA (ent m t ?i)) \<inter> pt_pages m l (PTE2PA (ent m t ?j)) = {}"
      using Suc.prems(1) i(1) j(1) by simp
    moreover have "PGROUNDDOWN a \<in> pt_pages m l (PTE2PA (ent m t ?i))"
      using pte_addr_page [OF _ i(2)] Suc.prems(1) i(1) by simp
    moreover have "PGROUNDDOWN a \<in> pt_pages m l (PTE2PA (ent m t ?j))"
      using pte_addr_page [OF _ j(2)] Suc.prems(1) j(1) by simp
    ultimately show False by blast
  qed
  moreover have "\<forall>k \<le> l. PX k va = PX k va'"
    using Suc.IH [of "PTE2PA (ent m t ?i)"] Suc.prems(1) i j \<open>?i = ?j\<close> by simp
  ultimately show ?case by (simp add: le_Suc_eq)
qed

lemma leaf_write:
  assumes "pt_wf m l t" and "pte_addr m l t va = Some a"
  shows "pt_pages (write64 a v m) l t = pt_pages m l t \<and> pt_wf (write64 a v m) l t \<and>
    pte_addr (write64 a v m) l t = pte_addr m l t"
  using assms
proof (induction l arbitrary: t)
  case 0
  then show ?case by (simp add: fun_eq_iff)
next
  case (Suc l)
  let ?m = "write64 a v m" and ?i = "PX (Suc l) va"
  from Suc.prems have i: "valid (ent m t ?i)" "pte_addr m l (PTE2PA (ent m t ?i)) va = Some a"
    by (auto simp: Let_def split: if_splits)
  have wf: "pt_wf m l (PTE2PA (ent m t j)) \<and> t \<notin> pt_pages m l (PTE2PA (ent m t j))"
    if "j < 512" "valid (ent m t j)" for j
    using Suc.prems(1) that by simp
  have a: "PGROUNDDOWN a \<in> pt_pages m l (PTE2PA (ent m t ?i))" "aligned8 a"
    using pte_addr_page [OF _ i(2)] wf i(1) by auto
  then have "PGROUNDDOWN a \<noteq> t" using wf i(1) by auto
  then have e: "ent ?m t j = ent m t j" if "j < 512" for j
    using Suc.prems(1) a(2) by (intro ent_cong [OF _ that]) (auto intro: write64_page_other)
  have child: "pt_pages ?m l (PTE2PA (ent m t j)) = pt_pages m l (PTE2PA (ent m t j)) \<and>
      pt_wf ?m l (PTE2PA (ent m t j)) \<and> pte_addr ?m l (PTE2PA (ent m t j)) = pte_addr m l (PTE2PA (ent m t j))"
    if j: "j < 512" "valid (ent m t j)" for j
  proof (cases "j = ?i")
    case True
    then show ?thesis using Suc.IH i wf j by simp
  next
    case False
    then have "pt_pages m l (PTE2PA (ent m t j)) \<inter> pt_pages m l (PTE2PA (ent m t ?i)) = {}"
      using Suc.prems(1) i(1) j by simp
    then have "PGROUNDDOWN x \<noteq> PGROUNDDOWN a" if "PGROUNDDOWN x \<in> pt_pages m l (PTE2PA (ent m t j))" for x
      using a(1) that by auto
    then show ?thesis
      using wf [OF j] a(2) by (intro pt_frame) (auto intro: write64_page_other)
  qed
  have "pt_pages ?m (Suc l) t = pt_pages m (Suc l) t"
    using e child by (auto simp: e child)
  moreover have "pt_wf ?m (Suc l) t"
    using Suc.prems(1) e child by simp
  moreover have "pte_addr ?m (Suc l) t = pte_addr m (Suc l) t"
    using e child by (auto simp: fun_eq_iff Let_def)
  ultimately show ?case by blast
qed

lemma pte_addr_PX: "(\<And>k. PX k va' = PX k va) \<Longrightarrow> pte_addr m l t va' = pte_addr m l t va"
  by (induction l arbitrary: t) (simp_all add: Let_def)

lemma pte_addr_same_page:
  assumes "PGROUNDDOWN va' = PGROUNDDOWN va"
  shows "pte_addr m l t va' = pte_addr m l t va"
  by (rule pte_addr_PX) (use assms PX_PGROUNDDOWN [of _ va] PX_PGROUNDDOWN [of _ va'] in simp)

lemma pte_of_leaf_write:
  assumes "pt_wf m 2 t" and "pte_addr m 2 t va = Some a" and "va < MAXVA" and "va' < MAXVA"
  shows "pte_of (write64 a v m) 2 t va' = (if PGROUNDDOWN va' = PGROUNDDOWN va then v else pte_of m 2 t va')"
proof (cases "pte_addr m 2 t va'")
  case None
  with assms(2) pte_addr_same_page [of va' va m 2 t] show ?thesis
    using leaf_write [OF assms(1,2), of v] by (auto simp: pte_of_def)
next
  case (Some a')
  have al: "aligned8 a" "aligned8 a'"
    using pte_addr_page [OF assms(1,2)] pte_addr_page [OF assms(1) Some] by auto
  have eq: "a' = a \<longleftrightarrow> PGROUNDDOWN va' = PGROUNDDOWN va"
  proof
    assume "a' = a"
    then have "\<forall>k \<le> 2. PX k va' = PX k va"
      using pte_addr_inj [OF assms(1)] Some assms(2) by blast
    then show "PGROUNDDOWN va' = PGROUNDDOWN va"
      by (intro PX_inj [OF assms(4,3)]) auto
  next
    assume "PGROUNDDOWN va' = PGROUNDDOWN va"
    then have "pte_addr m 2 t va' = pte_addr m 2 t va" by (rule pte_addr_same_page)
    with Some assms(2) show "a' = a" by simp
  qed
  have "pte_addr (write64 a v m) 2 t va' = Some a'"
    using leaf_write [OF assms(1,2), of v] Some by simp
  then show ?thesis
    using eq al Some read64_write64_other [of a a'] by (auto simp: pte_of_def read64_write64_same)
qed

end
