(* ===== verification/Walk.thy ===== *)
theory Walk
  imports Pagetable
begin

unbundle bit_operations_syntax

text \<open>
  What \<open>walk\<close>, \<open>walkaddr\<close> and \<open>mappages\<close> of \<^verbatim>\<open>vm.c\<close> do to a page table: a look-up leaves the state
  alone; with \<open>alloc\<close> the missing table pages are taken from the free list and no mapping changes;
  \<open>mappages\<close> changes exactly the entries of its range. \<open>pt_inv\<close> is the invariant of one page
  table: a tree of allocatable pages, none of them free.
\<close>

section \<open>What the routines leave alone\<close>

definition mem_only :: "'x kmem_scheme \<Rightarrow> 'x kmem_scheme \<Rightarrow> bool" where
  "mem_only s s' \<longleftrightarrow> s' = s\<lparr>mem := mem s', freelist := freelist s'\<rparr>"

lemma mem_only_refl [simp]: "mem_only s s"
  by (simp add: mem_only_def)

lemma mem_only_trans:
  assumes "mem_only s s'" and "mem_only s' s''"
  shows "mem_only s s''"
proof -
  have "s'' = s'\<lparr>mem := mem s'', freelist := freelist s''\<rparr>" "s' = s\<lparr>mem := mem s', freelist := freelist s'\<rparr>"
    using assms by (simp_all add: mem_only_def)
  then have "s'' = s\<lparr>mem := mem s', freelist := freelist s', mem := mem s'', freelist := freelist s''\<rparr>"
    by simp
  then show ?thesis by (simp add: mem_only_def)
qed

lemma mem_only_upd [simp]:
  "mem_only s (s\<lparr>mem := m, freelist := f\<rparr>)" "mem_only s (s\<lparr>freelist := f, mem := m\<rparr>)"
  "mem_only s (s\<lparr>freelist := f\<rparr>)" "mem_only s (mem_update g s)"
  by (simp_all add: mem_only_def)

lemma mem_only_ld_end: "mem_only s s' \<Longrightarrow> ld_end s' = ld_end s"
proof -
  assume "mem_only s s'"
  then have "ld_end s' = ld_end (s\<lparr>mem := mem s', freelist := freelist s'\<rparr>)"
    unfolding mem_only_def by (rule arg_cong)
  then show ?thesis by simp
qed

lemma mem_only_ram_page: "mem_only s s' \<Longrightarrow> ram_page s' = ram_page s"
  by (simp add: fun_eq_iff ram_page_def mem_only_ld_end)

section \<open>Look-up\<close>

lemma walk_levels_lookup:
  "walk_levels l t va False s = Ok (case pte_addr (mem s) l t va of None \<Rightarrow> 0 | Some a \<Rightarrow> a, s)"
  by (induction l arbitrary: t) (simp_all add: Let_def load64_def run_bnd and_PTE_V_valid ent_def)

lemma walk_lookup:
  "va < MAXVA \<Longrightarrow> walk t va False s = Ok (case pte_addr (mem s) 2 t va of None \<Rightarrow> 0 | Some a \<Rightarrow> a, s)"
  by (simp add: walk_def walk_levels_lookup not_le)

lemma walk_levels_found:
  "pte_addr (mem s) l t va = Some a \<Longrightarrow> walk_levels l t va alloc s = Ok (a, s)"
  by (induction l arbitrary: t) (auto simp: Let_def load64_def run_bnd and_PTE_V_valid ent_def split: if_splits)

lemma pte_addr_nonzero:
  assumes "pt_wf m l t" and "0 \<notin> pt_pages m l t" and "pte_addr m l t va = Some a"
  shows "a \<noteq> 0"
proof
  assume "a = 0"
  then have "PGROUNDDOWN a = 0" by (simp add: PGROUNDDOWN_def)
  with pte_addr_page [OF assms(1,3)] assms(2) show False by simp
qed

text \<open>\<open>walkaddr\<close> returns the page of a user mapping, and 0 for every other address.\<close>

lemma walkaddr_eq:
  assumes "pt_wf (mem s) 2 t" and "0 \<notin> pt_pages (mem s) 2 t"
  shows "walkaddr t va s = Ok (if va < MAXVA \<and> valid (pte_of (mem s) 2 t va) \<and> bit (pte_of (mem s) 2 t va) 4
      then PTE2PA (pte_of (mem s) 2 t va) else 0, s)"
proof (cases "va < MAXVA")
  case True
  have "pte AND PTE_U = 0 \<longleftrightarrow> \<not> bit pte 4" for pte :: uint64
    using and_PTE_U [of pte] by auto
  then show ?thesis
    using True pte_addr_nonzero [OF assms, of va]
    by (auto simp: walkaddr_def walk_lookup run_bnd load64_def and_PTE_V_valid pte_of_def split: option.splits)
next
  case False
  then show ?thesis by (auto simp: walkaddr_def not_less)
qed

section \<open>A change below one entry\<close>

definition others :: "memory \<Rightarrow> nat \<Rightarrow> uint64 \<Rightarrow> uint64 \<Rightarrow> uint64 set" where
  "others m l t i = (\<Union>j \<in> {j. j < 512 \<and> j \<noteq> i \<and> valid (ent m t j)}. pt_pages m l (PTE2PA (ent m t j)))"

lemma pt_pages_others:
  assumes "i < 512"
  shows "pt_pages m (Suc l) t =
    insert t (others m l t i \<union> (if valid (ent m t i) then pt_pages m l (PTE2PA (ent m t i)) else {}))"
  using assms by (auto simp: others_def)

lemma others_disjoint:
  assumes "pt_wf m (Suc l) t" and "i < 512" and "valid (ent m t i)"
  shows "others m l t i \<inter> pt_pages m l (PTE2PA (ent m t i)) = {}"
proof -
  have "pt_pages m l (PTE2PA (ent m t j)) \<inter> pt_pages m l (PTE2PA (ent m t i)) = {}"
    if "j < 512" "j \<noteq> i" "valid (ent m t j)" for j
    using assms that by simp
  then show ?thesis unfolding others_def by blast
qed

lemma root_not_others: "pt_wf m (Suc l) t \<Longrightarrow> t \<notin> others m l t i"
  by (auto simp: others_def)

lemma subtree_change:
  assumes wf: "pt_wf m (Suc l) t" and i: "i < 512"
    and e: "\<And>j. j < 512 \<Longrightarrow> j \<noteq> i \<Longrightarrow> ent m' t j = ent m t j"
    and v: "valid (ent m' t i)" and c: "c = PTE2PA (ent m' t i)"
    and wfc: "pt_wf m' l c" and tc: "t \<notin> pt_pages m' l c" and oc: "pt_pages m' l c \<inter> others m l t i = {}"
    and fr: "\<And>a. PGROUNDDOWN a \<in> others m l t i \<Longrightarrow> m' a = m a"
  shows "pt_wf m' (Suc l) t \<and> pt_pages m' (Suc l) t = insert t (others m l t i \<union> pt_pages m' l c) \<and>
    pte_addr m' (Suc l) t = (\<lambda>va. if PX (Suc l) va = i then pte_addr m' l c va else pte_addr m (Suc l) t va)"
proof -
  have ch: "pt_pages m' l (PTE2PA (ent m t j)) = pt_pages m l (PTE2PA (ent m t j)) \<and>
      pt_wf m' l (PTE2PA (ent m t j)) \<and> pte_addr m' l (PTE2PA (ent m t j)) = pte_addr m l (PTE2PA (ent m t j))"
    if j: "j < 512" "j \<noteq> i" "valid (ent m t j)" for j
  proof (rule pt_frame)
    show "pt_wf m l (PTE2PA (ent m t j))" using wf j by simp
  next
    fix a assume "PGROUNDDOWN a \<in> pt_pages m l (PTE2PA (ent m t j))"
    then have "PGROUNDDOWN a \<in> others m l t i" using j by (auto simp: others_def)
    then show "m' a = m a" by (rule fr)
  qed
  have oth: "others m' l t i = others m l t i"
    unfolding others_def using e ch by (auto simp: e ch)
  have sub: "pt_pages m' l (PTE2PA (ent m' t j)) \<subseteq> others m l t i" if "j < 512" "j \<noteq> i" "valid (ent m' t j)" for j
    using that e ch by (auto simp: others_def)
  have dis: "pt_pages m' l (PTE2PA (ent m' t j)) \<inter> pt_pages m' l (PTE2PA (ent m' t k)) = {}"
    if jk: "j < 512" "k < 512" "j \<noteq> k" "valid (ent m' t j)" "valid (ent m' t k)" for j k
  proof -
    consider "j = i" | "k = i" | "j \<noteq> i" "k \<noteq> i" by blast
    then show ?thesis
    proof cases
      case 1
      then show ?thesis using sub [of k] jk oc c by auto
    next
      case 2
      then show ?thesis using sub [of j] jk oc c by auto
    next
      case 3
      then show ?thesis using jk e ch wf by simp
    qed
  qed
  have one: "pt_wf m' l (PTE2PA (ent m' t j)) \<and> t \<notin> pt_pages m' l (PTE2PA (ent m' t j))"
    if "j < 512" "valid (ent m' t j)" for j
    using that wf e ch wfc tc c by (cases "j = i") auto
  have "pt_wf m' (Suc l) t"
    using wf one dis by simp
  moreover have "pt_pages m' (Suc l) t = insert t (others m l t i \<union> pt_pages m' l c)"
    using v oth c by (simp add: pt_pages_others [OF i] del: pt_pages.simps)
  moreover have "pte_addr m' (Suc l) t =
      (\<lambda>va. if PX (Suc l) va = i then pte_addr m' l c va else pte_addr m (Suc l) t va)"
    using e ch v c by (auto simp: fun_eq_iff Let_def)
  ultimately show ?thesis by blast
qed

lemma zero_table:
  assumes "page_aligned p" and "\<And>a. PGROUNDDOWN a = p \<Longrightarrow> m a = 0"
  shows "pt_wf m l p \<and> pt_pages m l p = {p} \<and> pte_of m l p = (\<lambda>_. 0)"
proof -
  have e: "ent m p i = 0" if "i < 512" for i
    unfolding ent_def
    by (rule read64_0) (simp add: assms(2) aligned8_page [OF entry_aligned8 [OF assms(1) that]] entry_in_page [OF assms(1) that])
  show ?thesis
  proof (cases l)
    case 0
    then show ?thesis using assms(1) e by (simp add: pte_of_def ent_def fun_eq_iff)
  next
    case (Suc k)
    have "{i. i < 512 \<and> valid (ent m p i)} = {}" using e by auto
    then show ?thesis
      using assms(1) e Suc by (auto simp: pte_of_def fun_eq_iff)
  qed
qed

lemma ram_page_small:
  assumes "ram_page s p"
  shows "unat p < 2 ^ 56"
  using assms by (simp add: ram_page_def PHYSTOP_eq word_less_nat_alt)

lemma table_entry:
  assumes "ram_page s p"
  shows "valid (PA2PTE p OR PTE_V)" and "PTE2PA (PA2PTE p OR PTE_V) = p"
proof -
  show "valid (PA2PTE p OR PTE_V)" by (simp add: valid_def bit_or_iff)
  show "PTE2PA (PA2PTE p OR PTE_V) = p"
    using assms ram_page_small [OF assms] by (intro PTE2PA_encode) (auto simp: ram_page_def PTE_V_def)
qed

lemma pte_of_subtree:
  assumes "pt_wf m (Suc l) t"
    and "pte_addr m' (Suc l) t = (\<lambda>va. if PX (Suc l) va = i then pte_addr m' l c va else pte_addr m (Suc l) t va)"
    and "\<And>a. PGROUNDDOWN a \<in> others m l t i \<Longrightarrow> m' a = m a"
  shows "pte_of m' (Suc l) t va = (if PX (Suc l) va = i then pte_of m' l c va else pte_of m (Suc l) t va)"
proof -
  have "read64 m' a = read64 m a" if ne: "PX (Suc l) va \<noteq> i" and a: "pte_addr m (Suc l) t va = Some a" for a
  proof -
    let ?c = "PTE2PA (ent m t (PX (Suc l) va))"
    from a have v: "valid (ent m t (PX (Suc l) va))" "pte_addr m l ?c va = Some a"
      by (auto simp: Let_def split: if_splits)
    have wf: "pt_wf m l ?c" using assms(1) v(1) by simp
    have "PGROUNDDOWN a \<in> others m l t i" "aligned8 a"
      using pte_addr_page [OF wf v(2)] ne v(1)
      by (auto simp: others_def intro!: exI [of _ "PX (Suc l) va"])
    then show ?thesis using assms(3) by (intro read64_page_cong) auto
  qed
  then show ?thesis
    by (auto simp: pte_of_def assms(2) simp del: pte_addr.simps split: option.split)
qed

section \<open>Allocating tables on the way\<close>

definition walk_post ::
  "nat \<Rightarrow> uint64 \<Rightarrow> uint64 \<Rightarrow> uint64 list \<Rightarrow> 'x kmem_scheme \<Rightarrow> uint64 \<Rightarrow> uint64 list \<Rightarrow> uint64 list \<Rightarrow> 'x kmem_scheme \<Rightarrow> bool" where
  "walk_post l t va fp s a us fp' s' \<longleftrightarrow>
     fp = us @ fp' \<and> kmem_inv fp' s' \<and> mem_only s s' \<and> pt_wf (mem s') l t \<and>
     pt_pages (mem s') l t = pt_pages (mem s) l t \<union> set us \<and> pte_of (mem s') l t = pte_of (mem s) l t \<and>
     (\<forall>x. PGROUNDDOWN x \<notin> pt_pages (mem s) l t \<union> set us \<longrightarrow> mem s' x = mem s x) \<and>
     (if a = 0 then fp' = [] else pte_addr (mem s') l t va = Some a)"

lemma walk_post_child:
  assumes wf: "pt_wf (mem s) (Suc l) t" and v: "valid (ent (mem s) t (PX (Suc l) va))"
    and fp: "pt_pages (mem s) (Suc l) t \<inter> set fp = {}"
    and post: "walk_post l (PTE2PA (ent (mem s) t (PX (Suc l) va))) va fp s a us fp' s'"
  shows "walk_post (Suc l) t va fp s a us fp' s'"
proof -
  let ?i = "PX (Suc l) va" and ?m = "mem s" and ?m' = "mem s'"
  let ?c = "PTE2PA (ent ?m t ?i)"
  have c: "pt_wf ?m l ?c" "t \<notin> pt_pages ?m l ?c" using wf v by simp_all
  have us: "set us \<subseteq> set fp" "pt_wf ?m' l ?c" "pt_pages ?m' l ?c = pt_pages ?m l ?c \<union> set us"
    "pte_of ?m' l ?c = pte_of ?m l ?c"
    and out: "\<And>x. PGROUNDDOWN x \<notin> pt_pages ?m l ?c \<union> set us \<Longrightarrow> ?m' x = ?m x"
    and addr: "if a = 0 then fp' = [] else pte_addr ?m' l ?c va = Some a"
    and rest: "fp = us @ fp'" "kmem_inv fp' s'" "mem_only s s'"
    using post by (auto simp: walk_post_def)
  have pages: "pt_pages ?m (Suc l) t = insert t (others ?m l t ?i \<union> pt_pages ?m l ?c)"
    using v by (simp add: pt_pages_others [OF PX_less_512 [of "Suc l" va]] del: pt_pages.simps)
  then have nt: "t \<notin> set us" "others ?m l t ?i \<inter> set us = {}"
    using fp us(1) by auto
  have oc: "others ?m l t ?i \<inter> pt_pages ?m l ?c = {}"
    using wf v by (intro others_disjoint) simp_all
  have ot: "?m' x = ?m x" if "PGROUNDDOWN x \<in> others ?m l t ?i" for x
    using out [of x] that oc nt by auto
  have e: "ent ?m' t j = ent ?m t j" if "j < 512" for j
    by (rule ent_cong [OF pt_wf_aligned [OF wf] that]) (use out c(2) nt(1) in auto)
  have ch: "pt_wf ?m' (Suc l) t \<and> pt_pages ?m' (Suc l) t = insert t (others ?m l t ?i \<union> pt_pages ?m' l ?c) \<and>
    pte_addr ?m' (Suc l) t = (\<lambda>va'. if PX (Suc l) va' = ?i then pte_addr ?m' l ?c va' else pte_addr ?m (Suc l) t va')"
    using e v us c nt oc ot by (intro subtree_change [OF wf]) auto
  have "pte_of ?m' (Suc l) t va' = pte_of ?m (Suc l) t va'" for va'
  proof (cases "PX (Suc l) va' = ?i")
    case True
    then have "pte_of ?m (Suc l) t va' = pte_of ?m l ?c va'" using v by (simp add: pte_of_def)
    then show ?thesis using pte_of_subtree [OF wf conjunct2 [OF conjunct2 [OF ch]] ot] us(4) True by simp
  next
    case False
    then show ?thesis using pte_of_subtree [OF wf conjunct2 [OF conjunct2 [OF ch]] ot] by simp
  qed
  moreover have "?m' x = ?m x" if "PGROUNDDOWN x \<notin> pt_pages ?m (Suc l) t \<union> set us" for x
    using that out [of x] pages by auto
  moreover have "if a = 0 then fp' = [] else pte_addr ?m' (Suc l) t va = Some a"
    using addr ch by simp
  ultimately show ?thesis
    using ch us(3) pages rest unfolding walk_post_def by (auto simp: fun_eq_iff)
qed

text \<open>A new table page: what the three writes of \<open>walk\<close> make of memory.\<close>

definition new_table :: "uint64 \<Rightarrow> uint64 \<Rightarrow> uint64 \<Rightarrow> memory \<Rightarrow> memory" where
  "new_table t i p m = write64 (t + 8 * i) (PA2PTE p OR PTE_V) (memset p 0 PGSIZE (memset p 5 PGSIZE m))"

lemma new_table_mem:
  assumes "page_aligned t" and "page_aligned p" and "p \<noteq> t" and "i < 512"
  shows "PGROUNDDOWN x = p \<Longrightarrow> new_table t i p m x = 0"
    and "PGROUNDDOWN x \<noteq> p \<Longrightarrow> PGROUNDDOWN x \<noteq> t \<Longrightarrow> new_table t i p m x = m x"
    and "ent (new_table t i p m) t i = PA2PTE p OR PTE_V"
    and "j < 512 \<Longrightarrow> j \<noteq> i \<Longrightarrow> ent (new_table t i p m) t j = ent m t j"
proof -
  have other: "new_table t i p m x = memset p 0 PGSIZE (memset p 5 PGSIZE m) x" if "PGROUNDDOWN x \<noteq> t" for x
    unfolding new_table_def using that
    by (intro write64_page_other) (simp_all add: entry_aligned8 entry_in_page assms)
  show "PGROUNDDOWN x = p \<Longrightarrow> new_table t i p m x = 0"
    using other [of x] assms(2,3) by (simp add: memset_page)
  show "PGROUNDDOWN x \<noteq> p \<Longrightarrow> PGROUNDDOWN x \<noteq> t \<Longrightarrow> new_table t i p m x = m x"
    using other [of x] assms(2) by (simp add: memset_page)
  show "ent (new_table t i p m) t i = PA2PTE p OR PTE_V"
    by (simp add: ent_def new_table_def read64_write64_same)
  assume j: "j < 512" "j \<noteq> i"
  then have "t + 8 * j \<noteq> t + 8 * i" using entry_inj [of t t j i] assms by blast
  then have "ent (new_table t i p m) t j = ent (memset p 0 PGSIZE (memset p 5 PGSIZE m)) t j"
    unfolding ent_def new_table_def using j assms
    by (intro read64_write64_other) (simp_all add: entry_aligned8)
  also have "\<dots> = ent m t j"
    by (rule ent_cong [OF assms(1) j(1)]) (use assms in \<open>simp add: memset_page\<close>)
  finally show "ent (new_table t i p m) t j = ent m t j" .
qed

lemma walk_post_new:
  assumes wf: "pt_wf (mem s) (Suc l) t" and nv: "\<not> valid (ent (mem s) t (PX (Suc l) va))"
    and fp: "pt_pages (mem s) (Suc l) t \<inter> set (p # ps) = {}" and dis: "distinct (p # ps)" and p: "ram_page s p"
    and m1: "mem s1 = new_table t (PX (Suc l) va) p (mem s)" and s1: "mem_only s s1"
    and post: "walk_post l p va ps s1 a us fp' s'"
  shows "walk_post (Suc l) t va (p # ps) s a (p # us) fp' s'"
proof -
  let ?i = "PX (Suc l) va" and ?m = "mem s" and ?m' = "mem s'" and ?m1 = "mem s1"
  have al: "page_aligned t" "page_aligned p" "p \<noteq> t"
    using pt_wf_aligned [OF wf] p fp by (auto simp: ram_page_def)
  note nt = new_table_mem [OF al PX_less_512 [of "Suc l" va], where m = ?m, folded m1]
  have z: "pt_wf ?m1 l p" "pt_pages ?m1 l p = {p}" "pte_of ?m1 l p = (\<lambda>_. 0)"
    using zero_table [OF al(2), of ?m1 l] nt(1) by auto
  have us: "set us \<subseteq> set ps" "pt_wf ?m' l p" "pt_pages ?m' l p = insert p (set us)"
    "pte_of ?m' l p = (\<lambda>_. 0)"
    and out1: "\<And>x. PGROUNDDOWN x \<notin> insert p (set us) \<Longrightarrow> ?m' x = ?m1 x"
    and addr: "if a = 0 then fp' = [] else pte_addr ?m' l p va = Some a"
    and rest: "ps = us @ fp'" "kmem_inv fp' s'" "mem_only s1 s'"
    using post z by (auto simp: walk_post_def)
  have out: "?m' x = ?m x" if "PGROUNDDOWN x \<notin> insert t (insert p (set us))" for x
    using that out1 [of x] nt(2) [of x] by simp
  have pages: "pt_pages ?m (Suc l) t = insert t (others ?m l t ?i)"
    using nv by (simp add: pt_pages_others [OF PX_less_512 [of "Suc l" va]] del: pt_pages.simps)
  then have dj: "t \<notin> insert p (set us)" "others ?m l t ?i \<inter> insert p (set us) = {}"
    using fp us(1) by auto
  have ot: "?m' x = ?m x" if "PGROUNDDOWN x \<in> others ?m l t ?i" for x
    using out [of x] that dj root_not_others [OF wf, of ?i] by auto
  have e1: "ent ?m' t j = ent ?m1 t j" if "j < 512" for j
    by (rule ent_cong [OF al(1) that]) (use out1 dj(1) in auto)
  have ei: "ent ?m' t ?i = PA2PTE p OR PTE_V" using e1 nt(3) by simp
  have ch: "pt_wf ?m' (Suc l) t \<and> pt_pages ?m' (Suc l) t = insert t (others ?m l t ?i \<union> pt_pages ?m' l p) \<and>
    pte_addr ?m' (Suc l) t = (\<lambda>va'. if PX (Suc l) va' = ?i then pte_addr ?m' l p va' else pte_addr ?m (Suc l) t va')"
  proof (rule subtree_change [OF wf PX_less_512])
    show "ent ?m' t j = ent ?m t j" if "j < 512" "j \<noteq> ?i" for j
      using e1 [OF that(1)] nt(4) [OF that] by simp
    show "pt_pages ?m' l p \<inter> others ?m l t ?i = {}" using us(3) dj(2) by auto
    show "t \<notin> pt_pages ?m' l p" using us(3) dj(1) by simp
  qed (use ei table_entry [OF p] us(2) ot in auto)
  have "pte_of ?m' (Suc l) t va' = pte_of ?m (Suc l) t va'" for va'
    using pte_of_subtree [OF wf conjunct2 [OF conjunct2 [OF ch]] ot, of va'] us(4) nv
    by (auto simp: pte_of_def split: if_splits)
  moreover have "?m' x = ?m x" if "PGROUNDDOWN x \<notin> pt_pages ?m (Suc l) t \<union> set (p # us)" for x
    using that out [of x] pages by auto
  moreover have "if a = 0 then fp' = [] else pte_addr ?m' (Suc l) t va = Some a"
    using addr ch by simp
  moreover have "mem_only s s'" using mem_only_trans [OF s1 rest(3)] .
  ultimately show ?thesis
    using ch us(3) pages rest unfolding walk_post_def by (auto simp: fun_eq_iff)
qed

lemma walk_alloc:
  assumes "kmem_inv fp s" and "pt_wf (mem s) l t" and "pt_pages (mem s) l t \<inter> set fp = {}"
    and "0 \<notin> pt_pages (mem s) l t"
  shows "\<exists>a us fp' s'. walk_levels l t va True s = Ok (a, s') \<and> walk_post l t va fp s a us fp' s'"
  using assms
proof (induction l arbitrary: t fp s)
  case 0
  then have "t + 8 * PX 0 va \<noteq> 0"
    using pte_addr_nonzero [of "mem s" 0 t va "t + 8 * PX 0 va"] by simp
  with 0 show ?case by (simp add: walk_post_def exI [of _ "[]"])
next
  case (Suc l)
  let ?i = "PX (Suc l) va"
  let ?e = "ent (mem s) t ?i"
  have run: "walk_levels (Suc l) t va True s =
      (if valid ?e then walk_levels l (PTE2PA ?e) va True s
       else bnd kalloc (\<lambda>p. if p = 0 then ret 0
         else sq (mem_set p 0 PGSIZE) (sq (store64 (t + 8 * ?i) (PA2PTE p OR PTE_V)) (walk_levels l p va True))) s)"
    by (simp add: Let_def run_bnd load64_def and_PTE_V_valid ent_def)
  show ?case
  proof (cases "valid ?e")
    case True
    have "pt_pages (mem s) l (PTE2PA ?e) \<subseteq> pt_pages (mem s) (Suc l) t"
      using pages_child [of ?i "mem s" t l] True by simp
    then have "pt_pages (mem s) l (PTE2PA ?e) \<inter> set fp = {}" "0 \<notin> pt_pages (mem s) l (PTE2PA ?e)"
      using Suc.prems(3,4) by blast+
    moreover have "pt_wf (mem s) l (PTE2PA ?e)" using Suc.prems(2) True by simp
    ultimately obtain a us fp' s' where "walk_levels l (PTE2PA ?e) va True s = Ok (a, s')"
        "walk_post l (PTE2PA ?e) va fp s a us fp' s'"
      using Suc.IH [OF Suc.prems(1)] by blast
    then have "walk_levels (Suc l) t va True s = Ok (a, s')" "walk_post (Suc l) t va fp s a us fp' s'"
      using walk_post_child [OF Suc.prems(2) True Suc.prems(3)] True run by (simp del: walk_levels.simps, blast)
    then show ?thesis by blast
  next
    case False
    show ?thesis
    proof (cases fp)
      case Nil
      with Suc.prems(1) have "kalloc s = Ok (0, s)" by (simp add: kalloc_Nil)
      then have "walk_levels (Suc l) t va True s = Ok (0, s)" using False run by (simp del: walk_levels.simps)
      moreover have "walk_post (Suc l) t va fp s 0 [] [] s"
        using Suc.prems Nil by (simp add: walk_post_def)
      ultimately show ?thesis by blast
    next
      case (Cons p ps)
      define s1 where "s1 = s\<lparr>freelist := read64 (mem s) p, mem := new_table t ?i p (mem s)\<rparr>"
      have inv: "kmem_inv (p # ps) s" using Suc.prems(1) Cons by simp
      then have p: "ram_page s p" "distinct (p # ps)" "p \<noteq> 0" by (auto simp: kmem_inv_def)
      have al: "page_aligned t" "page_aligned p" "p \<noteq> t"
        using pt_wf_aligned [OF Suc.prems(2)] p(1) Suc.prems(3) Cons by (auto simp: ram_page_def)
      note nt = new_table_mem [OF al PX_less_512 [of "Suc l" va], where m = "mem s"]
      have step: "walk_levels (Suc l) t va True s = walk_levels l p va True s1"
        using run False kalloc_Cons(1) [OF inv] p(3)
        by (simp add: run_bnd run_sq mem_set_def store64_def s1_def new_table_def comp_def del: walk_levels.simps)
      have k0: "kmem_inv ps (s\<lparr>freelist := read64 (mem s) p, mem := memset p 5 PGSIZE (mem s)\<rparr>)"
        by (rule kalloc_Cons(2) [OF inv])
      have "kmem_inv ps (mem_update (\<lambda>_. new_table t ?i p (mem s))
          (s\<lparr>freelist := read64 (mem s) p, mem := memset p 5 PGSIZE (mem s)\<rparr>))"
      proof (rule kmem_inv_mem [OF k0])
        fix x assume "PGROUNDDOWN x \<in> set ps"
        then have "PGROUNDDOWN x \<noteq> p" "PGROUNDDOWN x \<noteq> t"
          using p(2) Suc.prems(3) Cons by auto
        then show "new_table t ?i p (mem s) x =
            mem (s\<lparr>freelist := read64 (mem s) p, mem := memset p 5 PGSIZE (mem s)\<rparr>) x"
          using nt(2) [of x] al(2) by (simp add: memset_page)
      qed
      then have k1: "kmem_inv ps s1" by (simp add: s1_def)
      have z: "pt_wf (mem s1) l p" "pt_pages (mem s1) l p = {p}"
        using zero_table [OF al(2), of "mem s1" l] nt(1) by (simp_all add: s1_def)
      obtain a us fp' s' where "walk_levels l p va True s1 = Ok (a, s')" "walk_post l p va ps s1 a us fp' s'"
        using Suc.IH [OF k1 z(1)] z(2) p(2,3) by auto
      moreover from this(2) have "walk_post (Suc l) t va (p # ps) s a (p # us) fp' s'"
        using Suc.prems(3) Cons p
        by (intro walk_post_new [OF Suc.prems(2) False]) (auto simp: s1_def)
      ultimately show ?thesis using step Cons by metis
    qed
  qed
qed

section \<open>The invariant of a page table\<close>

definition pt_inv :: "uint64 list \<Rightarrow> 'x kmem_scheme \<Rightarrow> uint64 \<Rightarrow> bool" where
  "pt_inv fp s t \<longleftrightarrow> kmem_inv fp s \<and> pt_wf (mem s) 2 t \<and> pt_pages (mem s) 2 t \<inter> set fp = {} \<and>
     (\<forall>p \<in> pt_pages (mem s) 2 t. ram_page s p)"

lemma ram_page_nonzero: "kmem_inv fp s \<Longrightarrow> ram_page s p \<Longrightarrow> p \<noteq> 0"
  by (auto simp: kmem_inv_def ram_page_def)

lemma pt_inv_nonzero: "pt_inv fp s t \<Longrightarrow> 0 \<notin> pt_pages (mem s) 2 t"
  by (metis pt_inv_def ram_page_nonzero)

lemma pt_inv_pte_addr_nonzero: "pt_inv fp s t \<Longrightarrow> pte_addr (mem s) 2 t va = Some a \<Longrightarrow> a \<noteq> 0"
  using pte_addr_nonzero [of "mem s" 2 t va a] pt_inv_nonzero [of fp s t] by (simp add: pt_inv_def)

lemma walk_alloc_inv:
  assumes "pt_inv fp s t" and "va < MAXVA"
  shows "\<exists>a us fp' s'. walk t va True s = Ok (a, s') \<and> walk_post 2 t va fp s a us fp' s' \<and> pt_inv fp' s' t"
proof -
  have k: "kmem_inv fp s" using assms(1) by (simp add: pt_inv_def)
  obtain a us fp' s' where w: "walk_levels 2 t va True s = Ok (a, s')" "walk_post 2 t va fp s a us fp' s'"
    using walk_alloc [of fp s 2 t va] assms(1) pt_inv_nonzero [OF assms(1)] by (auto simp: pt_inv_def)
  have "\<forall>p \<in> set us. ram_page s p" "distinct fp"
    using k w(2) by (auto simp: kmem_inv_def walk_post_def)
  then have "pt_inv fp' s' t"
    using w(2) assms(1) mem_only_ram_page [of s s'] by (auto simp: walk_post_def pt_inv_def)
  then show ?thesis using w assms(2) by (auto simp: walk_def not_le)
qed

lemma leaf_store:
  assumes "pt_inv fp s t" and "pte_addr (mem s) 2 t va = Some a" and "va < MAXVA"
  shows "pt_inv fp (mem_update (write64 a v) s) t"
    and "pt_pages (write64 a v (mem s)) 2 t = pt_pages (mem s) 2 t"
    and "va' < MAXVA \<Longrightarrow> pte_of (write64 a v (mem s)) 2 t va' =
      (if PGROUNDDOWN va' = PGROUNDDOWN va then v else pte_of (mem s) 2 t va')"
    and "PGROUNDDOWN x \<notin> pt_pages (mem s) 2 t \<Longrightarrow> write64 a v (mem s) x = mem s x"
proof -
  have wf: "pt_wf (mem s) 2 t" using assms(1) by (simp add: pt_inv_def)
  note lw = leaf_write [OF wf assms(2), of v]
  have a: "PGROUNDDOWN a \<in> pt_pages (mem s) 2 t" "aligned8 a"
    using pte_addr_page [OF wf assms(2)] by auto
  show frame: "write64 a v (mem s) x = mem s x" if "PGROUNDDOWN x \<notin> pt_pages (mem s) 2 t" for x
    using that a by (intro write64_page_other) auto
  have "kmem_inv fp (mem_update (write64 a v) s)"
    using assms(1) frame by (intro kmem_inv_mem) (auto simp: pt_inv_def)
  then show "pt_inv fp (mem_update (write64 a v) s) t"
    using assms(1) lw by (auto simp: pt_inv_def)
  show "pt_pages (write64 a v (mem s)) 2 t = pt_pages (mem s) 2 t" using lw by simp
  show "va' < MAXVA \<Longrightarrow> pte_of (write64 a v (mem s)) 2 t va' =
      (if PGROUNDDOWN va' = PGROUNDDOWN va then v else pte_of (mem s) 2 t va')"
    using pte_of_leaf_write [OF wf assms(2,3)] .
qed

section \<open>Mapping a range\<close>

definition in_pages :: "uint64 \<Rightarrow> nat \<Rightarrow> uint64 \<Rightarrow> bool" where
  "in_pages a n va \<longleftrightarrow> unat a \<le> unat va \<and> unat va < unat a + PGSIZE * n"

lemma in_pages_0 [simp]: "\<not> in_pages a 0 va"
  by (simp add: in_pages_def)

lemma in_page_unat:
  assumes "page_aligned a"
  shows "PGROUNDDOWN va = a \<longleftrightarrow> unat a \<le> unat va \<and> unat va < unat a + PGSIZE"
proof -
  obtain k where k: "unat a = 4096 * k" using assms by (auto simp: page_aligned_unat dvd_def)
  have "unat va div 4096 = k \<longleftrightarrow> 4096 * k \<le> unat va \<and> unat va < 4096 * k + 4096"
    using div_mult_mod_eq [of "unat va" 4096] mod_less_divisor [of 4096 "unat va"]
    by (auto intro!: div_nat_eqI)
  then show ?thesis
    by (simp add: word_unat_eq_iff unat_PGROUNDDOWN k)
qed

lemma in_pages_Suc:
  assumes "page_aligned a" and "unat (a + PGSIZE) = unat a + PGSIZE"
  shows "in_pages a (Suc n) va \<longleftrightarrow> PGROUNDDOWN va = a \<or> in_pages (a + PGSIZE) n va"
  unfolding in_pages_def in_page_unat [OF assms(1)] assms(2) by auto

definition mapped_range ::
  "memory \<Rightarrow> memory \<Rightarrow> uint64 \<Rightarrow> uint64 \<Rightarrow> nat \<Rightarrow> uint64 \<Rightarrow> uint64 \<Rightarrow> bool" where
  "mapped_range m m' t a n pa perm \<longleftrightarrow> (\<forall>va < MAXVA. pte_of m' 2 t va =
     (if in_pages a n va then PA2PTE (pa + (PGROUNDDOWN va - a)) OR perm OR PTE_V else pte_of m 2 t va))"

lemma mapped_range_0: "pte_of m' 2 t = pte_of m 2 t \<Longrightarrow> mapped_range m m' t a 0 pa perm"
  by (simp add: mapped_range_def)

lemma mapped_range_step:
  assumes al: "page_aligned a" "unat (a + PGSIZE) = unat a + PGSIZE"
    and one: "\<And>va. va < MAXVA \<Longrightarrow> pte_of m1 2 t va =
      (if PGROUNDDOWN va = a then PA2PTE pa OR perm OR PTE_V else pte_of m 2 t va)"
    and more: "mapped_range m1 m2 t (a + PGSIZE) k (pa + PGSIZE) perm"
  shows "mapped_range m m2 t a (Suc k) pa perm"
  unfolding mapped_range_def
proof (intro allI impI)
  fix va :: uint64 assume va: "va < MAXVA"
  have "\<not> in_pages (a + PGSIZE) k va" if "PGROUNDDOWN va = a"
    using that al(2) unfolding in_pages_def in_page_unat [OF al(1)] by simp
  moreover have "pa + PGSIZE + (PGROUNDDOWN va - (a + PGSIZE)) = pa + (PGROUNDDOWN va - a)"
    by simp
  ultimately show "pte_of m2 2 t va =
     (if in_pages a (Suc k) va then PA2PTE (pa + (PGROUNDDOWN va - a)) OR perm OR PTE_V else pte_of m 2 t va)"
    using more one [OF va] va by (auto simp: mapped_range_def in_pages_Suc [OF al])
qed

definition map_post ::
  "uint64 \<Rightarrow> uint64 \<Rightarrow> nat \<Rightarrow> uint64 \<Rightarrow> uint64 \<Rightarrow> uint64 list \<Rightarrow> 'x kmem_scheme \<Rightarrow> int \<Rightarrow>
   uint64 list \<Rightarrow> uint64 list \<Rightarrow> 'x kmem_scheme \<Rightarrow> bool" where
  "map_post t a n pa perm fp s r us fp' s' \<longleftrightarrow>
     fp = us @ fp' \<and> pt_inv fp' s' t \<and> mem_only s s' \<and>
     pt_pages (mem s') 2 t = pt_pages (mem s) 2 t \<union> set us \<and>
     (\<forall>x. PGROUNDDOWN x \<notin> pt_pages (mem s) 2 t \<union> set us \<longrightarrow> mem s' x = mem s x) \<and>
     (r = 0 \<and> mapped_range (mem s) (mem s') t a n pa perm \<or>
      r = -1 \<and> fp' = [] \<and> (\<exists>k < n. mapped_range (mem s) (mem s') t a k pa perm))"

lemma map_first:
  assumes inv: "pt_inv fp s t" and va: "a < MAXVA" and unm: "\<not> valid (pte_of (mem s) 2 t a)"
    and al: "page_aligned a"
  obtains
    (fail) us s' where "walk t a True s = Ok (0, s')" "map_post t a (Suc n) pa perm fp s (-1) us [] s'"
  | (ok) p us fp' s1 s' where "walk t a True s = Ok (p, s1)" "p \<noteq> 0"
      "load64 p s1 = Ok (pte_of (mem s) 2 t a, s1)"
      "store64 p (PA2PTE pa OR perm OR PTE_V) s1 = Ok ((), s')"
      "fp = us @ fp'" "pt_inv fp' s' t" "mem_only s s'"
      "pt_pages (mem s') 2 t = pt_pages (mem s) 2 t \<union> set us"
      "\<And>x. PGROUNDDOWN x \<notin> pt_pages (mem s) 2 t \<union> set us \<Longrightarrow> mem s' x = mem s x"
      "\<And>va. va < MAXVA \<Longrightarrow> pte_of (mem s') 2 t va =
        (if PGROUNDDOWN va = a then PA2PTE pa OR perm OR PTE_V else pte_of (mem s) 2 t va)"
proof -
  obtain p us fp' s1 where w: "walk t a True s = Ok (p, s1)" and post: "walk_post 2 t a fp s p us fp' s1"
    and inv1: "pt_inv fp' s1 t"
    using walk_alloc_inv [OF inv va] by blast
  show thesis
  proof (cases "p = 0")
    case True
    have "map_post t a (Suc n) pa perm fp s (-1) us [] s1"
      using post inv1 True mapped_range_0 [of "mem s1" t "mem s" a pa perm]
      by (auto simp: map_post_def walk_post_def)
    then show thesis using fail w True by simp
  next
    case False
    then have pa: "pte_addr (mem s1) 2 t a = Some p" and eq: "pte_of (mem s1) 2 t = pte_of (mem s) 2 t"
      using post by (auto simp: walk_post_def)
    define s' where "s' = mem_update (write64 p (PA2PTE pa OR perm OR PTE_V)) s1"
    note ls = leaf_store [OF inv1 pa va]
    have "load64 p s1 = Ok (pte_of (mem s) 2 t a, s1)"
      using pa eq [symmetric] by (simp add: load64_def pte_of_def)
    moreover have "store64 p (PA2PTE pa OR perm OR PTE_V) s1 = Ok ((), s')"
      by (simp add: store64_def s'_def)
    moreover have "mem_only s s'"
      using post mem_only_trans [of s s1 s'] by (simp add: walk_post_def s'_def)
    moreover have "pte_of (mem s') 2 t va' = (if PGROUNDDOWN va' = a then PA2PTE pa OR perm OR PTE_V else pte_of (mem s) 2 t va')"
      if "va' < MAXVA" for va'
      using ls(3) [OF that] al eq by (simp add: s'_def page_aligned_iff)
    moreover have "mem s' x = mem s x" if "PGROUNDDOWN x \<notin> pt_pages (mem s) 2 t \<union> set us" for x
      using that ls(4) [of x] post by (simp add: s'_def walk_post_def)
    ultimately show thesis
      using ok [OF w False] post ls(1,2) by (simp add: s'_def walk_post_def)
  qed
qed

lemma next_page: "unat (a :: uint64) + PGSIZE \<le> unat MAXVA \<Longrightarrow> unat (a + PGSIZE) = unat a + PGSIZE"
  using unat_region [of a 4097 4096] by (simp add: MAXVA_eq)

lemma mappages_loop_ok:
  assumes "pt_inv fp s t" and "page_aligned a" and "unat a + PGSIZE * Suc n \<le> unat MAXVA"
    and "last_page = a + of_nat (PGSIZE * n)" and "\<And>va. in_pages a (Suc n) va \<Longrightarrow> \<not> valid (pte_of (mem s) 2 t va)"
    and "n < fuel"
  shows "\<exists>r us fp' s'. mappages_loop fuel t a last_page pa perm s = Ok (r, s') \<and>
    map_post t a (Suc n) pa perm fp s r us fp' s'"
  using assms
proof (induction n arbitrary: fuel a pa fp s)
  case 0
  then obtain f where f: "fuel = Suc f" by (cases fuel) auto
  have va: "a < MAXVA" using 0 by (simp add: word_less_nat_alt)
  have unm: "\<not> valid (pte_of (mem s) 2 t a)" using 0 by (simp add: in_pages_def)
  show ?case
  proof (cases rule: map_first [OF 0(1) va unm 0(2), of 0 pa perm, case_names fail ok])
    case (fail us s')
    then show ?thesis using f by (auto simp: run_bnd)
  next
    case (ok p us fp' s1 s')
    have "mapped_range (mem s) (mem s') t a (Suc 0) pa perm"
      by (rule mapped_range_step [OF 0(2) next_page ok(10)]) (use 0(3) in \<open>simp_all add: mapped_range_0\<close>)
    then have "map_post t a (Suc 0) pa perm fp s 0 us fp' s'"
      using ok by (simp add: map_post_def)
    then show ?thesis using f ok(1-4) unm 0(4) and_PTE_V_valid by (auto simp: run_bnd run_sq)
  qed
next
  case (Suc n)
  then obtain f where f: "fuel = Suc f" "n < f" by (cases fuel) auto
  have MAX: "unat MAXVA < 2 ^ 64" by (simp add: MAXVA_eq)
  have va: "a < MAXVA" using Suc.prems(3) by (simp add: word_less_nat_alt)
  have a1: "unat (a + PGSIZE) = unat a + PGSIZE"
    using Suc.prems(3) by (intro next_page) simp
  have unm: "\<not> valid (pte_of (mem s) 2 t a)" using Suc.prems(5) by (simp add: in_pages_def)
  have last_ne: "a \<noteq> last_page"
    using unat_region [of a "4096 * Suc n + 1" "4096 * Suc n"] Suc.prems(3,4) MAX by auto
  show ?case
  proof (cases rule: map_first [OF Suc.prems(1) va unm Suc.prems(2), of "Suc n" pa perm, case_names fail ok])
    case (fail us s')
    then show ?thesis using f by (auto simp: run_bnd)
  next
    case (ok p us fp' s1 s')
    have "\<exists>r us' fp'' s''. mappages_loop f t (a + PGSIZE) last_page (pa + PGSIZE) perm s' = Ok (r, s'') \<and>
      map_post t (a + PGSIZE) (Suc n) (pa + PGSIZE) perm fp' s' r us' fp'' s''"
    proof (rule Suc.IH)
      show "pt_inv fp' s' t" by (rule ok)
      show "page_aligned (a + PGSIZE)" using Suc.prems(2) a1 by (rule page_aligned_step)
      show "unat (a + PGSIZE) + PGSIZE * Suc n \<le> unat MAXVA" using Suc.prems(3) a1 by simp
      show "last_page = a + PGSIZE + of_nat (PGSIZE * n)" using Suc.prems(4) by (simp add: algebra_simps)
      show "n < f" by (rule f)
    next
      fix va assume iv: "in_pages (a + PGSIZE) (Suc n) va"
      have "va < MAXVA"
        using iv Suc.prems(3) a1 by (auto simp: in_pages_def word_less_nat_alt)
      moreover have "PGROUNDDOWN va \<noteq> a"
        using iv a1 unfolding in_pages_def in_page_unat [OF Suc.prems(2)] by simp
      moreover have "\<not> valid (pte_of (mem s) 2 t va)"
        by (rule Suc.prems(5)) (use iv in \<open>simp add: in_pages_Suc [OF Suc.prems(2) a1]\<close>)
      ultimately show "\<not> valid (pte_of (mem s') 2 t va)" using ok(10) by simp
    qed
    then obtain r us' fp'' s'' where run: "mappages_loop f t (a + PGSIZE) last_page (pa + PGSIZE) perm s' = Ok (r, s'')"
      and post: "map_post t (a + PGSIZE) (Suc n) (pa + PGSIZE) perm fp' s' r us' fp'' s''" by blast
    have step: "mapped_range (mem s') (mem s'') t (a + PGSIZE) k (pa + PGSIZE) perm \<Longrightarrow>
        mapped_range (mem s) (mem s'') t a (Suc k) pa perm" for k
      by (rule mapped_range_step [OF Suc.prems(2) a1 ok(10)])
    have "map_post t a (Suc (Suc n)) pa perm fp s r (us @ us') fp'' s''"
      unfolding map_post_def
    proof (intro conjI)
      show "fp = (us @ us') @ fp''" using ok(5) post by (simp add: map_post_def)
      show "pt_inv fp'' s'' t" using post by (simp add: map_post_def)
      show "mem_only s s''" using ok(7) post mem_only_trans by (auto simp: map_post_def)
      show "pt_pages (mem s'') 2 t = pt_pages (mem s) 2 t \<union> set (us @ us')"
        using ok(8) post by (auto simp: map_post_def)
      show "\<forall>x. PGROUNDDOWN x \<notin> pt_pages (mem s) 2 t \<union> set (us @ us') \<longrightarrow> mem s'' x = mem s x"
        using ok(8,9) post by (simp add: map_post_def)
      show "r = 0 \<and> mapped_range (mem s) (mem s'') t a (Suc (Suc n)) pa perm \<or>
          r = -1 \<and> fp'' = [] \<and> (\<exists>k < Suc (Suc n). mapped_range (mem s) (mem s'') t a k pa perm)"
        using post step by (fastforce simp: map_post_def)
    qed
    then show ?thesis
      using f ok(1-4) unm run last_ne and_PTE_V_valid by (auto simp: run_bnd run_sq)
  qed
qed

end
