(* ===== verification/Usermem.thy ===== *)
theory Usermem
  imports Walk
begin

unbundle bit_operations_syntax

text \<open>
  User memory of \<^verbatim>\<open>vm.c\<close>: the operations that grow, shrink, copy and free the pages of a process.
  \<open>uvm_inv fp s t pas\<close> says that the free pages are \<open>fp\<close>, that \<open>t\<close> is a page table whose first
  \<open>length pas\<close> virtual pages are mapped to the physical pages \<open>pas\<close>, each used once and by nothing
  else. The operations then refine operations on the list \<open>pas\<close>.
\<close>

section \<open>Allocation and release beside a page table\<close>

lemma pt_inv_frame:
  assumes "pt_inv fp s t" and "kmem_inv fp' s'" and "mem_only s s'" and "pt_pages (mem s) 2 t \<inter> set fp' = {}"
    and "\<And>x. PGROUNDDOWN x \<in> pt_pages (mem s) 2 t \<Longrightarrow> mem s' x = mem s x"
  shows "pt_inv fp' s' t" and "pt_pages (mem s') 2 t = pt_pages (mem s) 2 t"
    and "pte_of (mem s') 2 t = pte_of (mem s) 2 t" and "pte_addr (mem s') 2 t = pte_addr (mem s) 2 t"
proof -
  have wf: "pt_wf (mem s) 2 t" using assms(1) by (simp add: pt_inv_def)
  note f = pt_frame [OF wf assms(5)]
  show "pt_pages (mem s') 2 t = pt_pages (mem s) 2 t" "pte_addr (mem s') 2 t = pte_addr (mem s) 2 t"
    using f by blast+
  show "pte_of (mem s') 2 t = pte_of (mem s) 2 t" by (rule pte_of_frame [OF wf assms(5)])
  show "pt_inv fp' s' t"
    using f assms(1,2,4) mem_only_ram_page [OF assms(3)] by (simp add: pt_inv_def)
qed

lemma kfree_pt:
  assumes "pt_inv fp s t" and "ram_page s p" and "p \<notin> set fp" and "p \<notin> pt_pages (mem s) 2 t"
  obtains s' where "kfree p s = Ok ((), s')" and "pt_inv (p # fp) s' t" and "mem_only s s'"
    and "pt_pages (mem s') 2 t = pt_pages (mem s) 2 t" and "pte_of (mem s') 2 t = pte_of (mem s) 2 t"
    and "pte_addr (mem s') 2 t = pte_addr (mem s) 2 t"
    and "\<forall>x. PGROUNDDOWN x \<noteq> p \<longrightarrow> mem s' x = mem s x"
proof -
  have k: "kmem_inv fp s" using assms(1) by (simp add: pt_inv_def)
  have al: "page_aligned p" using assms(2) by (simp add: ram_page_def)
  let ?s' = "s\<lparr>mem := write64 p (freelist s) (memset p 1 PGSIZE (mem s)), freelist := p\<rparr>"
  note kf = kfree_push [OF k assms(2,3)]
  have fr: "mem ?s' x = mem s x" if "PGROUNDDOWN x \<noteq> p" for x
    using that al by (simp add: write64_at_page memset_page)
  have "pt_pages (mem s) 2 t \<inter> set (p # fp) = {}"
    using assms(1,4) by (auto simp: pt_inv_def)
  moreover have "mem ?s' x = mem s x" if "PGROUNDDOWN x \<in> pt_pages (mem s) 2 t" for x
    using fr [of x] that assms(4) by metis
  ultimately show thesis
    using that [OF kf(1)] pt_inv_frame [OF assms(1) kf(2)] fr by simp
qed

lemma kalloc_pt:
  assumes "pt_inv (p # fp) s t"
  obtains s' where "kalloc s = Ok (p, s')" and "pt_inv fp s' t" and "mem_only s s'" and "p \<noteq> 0"
    and "ram_page s p" and "p \<notin> set fp" and "p \<notin> pt_pages (mem s) 2 t"
    and "pt_pages (mem s') 2 t = pt_pages (mem s) 2 t" and "pte_of (mem s') 2 t = pte_of (mem s) 2 t"
    and "\<And>x. PGROUNDDOWN x \<noteq> p \<Longrightarrow> mem s' x = mem s x"
proof -
  have k: "kmem_inv (p # fp) s" using assms by (simp add: pt_inv_def)
  have p: "ram_page s p" "p \<notin> set fp" "p \<noteq> 0" using k by (auto simp: kmem_inv_def)
  have al: "page_aligned p" using p(1) by (simp add: ram_page_def)
  let ?s' = "s\<lparr>freelist := read64 (mem s) p, mem := memset p 5 PGSIZE (mem s)\<rparr>"
  note ka = kalloc_Cons [OF k]
  have np: "p \<notin> pt_pages (mem s) 2 t" "pt_pages (mem s) 2 t \<inter> set fp = {}"
    using assms by (auto simp: pt_inv_def)
  have fr: "mem ?s' x = mem s x" if "PGROUNDDOWN x \<noteq> p" for x
    using that al by (simp add: memset_page)
  then have "mem ?s' x = mem s x" if "PGROUNDDOWN x \<in> pt_pages (mem s) 2 t" for x
    using that np(1) by metis
  then show thesis
    using that [OF ka(1)] pt_inv_frame [OF assms ka(2)] fr p np by simp
qed

text \<open>A change of memory inside one page that is neither a table page nor free.\<close>

lemma page_update_pt:
  assumes "pt_inv fp s t" and "p \<notin> set fp" and "p \<notin> pt_pages (mem s) 2 t"
    and "\<And>x. PGROUNDDOWN x \<noteq> p \<Longrightarrow> f (mem s) x = mem s x"
  shows "pt_inv fp (mem_update f s) t" and "pt_pages (f (mem s)) 2 t = pt_pages (mem s) 2 t"
    and "pte_of (f (mem s)) 2 t = pte_of (mem s) 2 t"
proof -
  have "f (mem s) x = mem s x" if "PGROUNDDOWN x \<in> set fp" for x
    using assms(2,4) that by metis
  then have "kmem_inv fp (mem_update f s)"
    using assms(1) by (intro kmem_inv_mem) (simp_all add: pt_inv_def)
  moreover have "mem (mem_update f s) x = mem s x" if "PGROUNDDOWN x \<in> pt_pages (mem s) 2 t" for x
    using assms(3,4) that by (simp, metis)
  ultimately show "pt_inv fp (mem_update f s) t" "pt_pages (f (mem s)) 2 t = pt_pages (mem s) 2 t"
    "pte_of (f (mem s)) 2 t = pte_of (mem s) 2 t"
    using pt_inv_frame [OF assms(1), of fp "mem_update f s"] assms(1) by (auto simp: pt_inv_def)
qed

section \<open>Unmapping a range\<close>

definition page_va :: "nat \<Rightarrow> uint64" where
  "page_va i = of_nat (PGSIZE * i)"

lemma unat_page_va: "PGSIZE * i < 2 ^ 64 \<Longrightarrow> unat (page_va i) = PGSIZE * i"
  using unat_of_nat [of "PGSIZE * i", where 'a = 64] by (simp only: page_va_def take_bit_nat_eq_self) simp

definition leaf :: "uint64 \<Rightarrow> bool" where
  "leaf e \<longleftrightarrow> valid e \<and> PTE_FLAGS e \<noteq> PTE_V"

definition unmapped_range :: "memory \<Rightarrow> memory \<Rightarrow> uint64 \<Rightarrow> uint64 \<Rightarrow> nat \<Rightarrow> bool" where
  "unmapped_range m m' t a n \<longleftrightarrow>
     (\<forall>va < MAXVA. pte_of m' 2 t va = (if in_pages a n va then 0 else pte_of m 2 t va))"

definition range_pas :: "memory \<Rightarrow> uint64 \<Rightarrow> uint64 \<Rightarrow> nat \<Rightarrow> uint64 list" where
  "range_pas m t a n = map (\<lambda>i. PTE2PA (pte_of m 2 t (a + page_va i))) [0..<n]"

lemma range_pas_Suc:
  "range_pas m t a (Suc n) = PTE2PA (pte_of m 2 t a) # range_pas m t (a + PGSIZE) n"
proof -
  have "[0..<Suc n] = 0 # map Suc [0..<n]" by (simp add: upt_conv_Cons map_Suc_upt del: upt_Suc)
  then show ?thesis by (simp add: range_pas_def page_va_def o_def algebra_simps del: upt_Suc)
qed

lemma range_pas_cong:
  assumes "\<And>va. in_pages a n va \<Longrightarrow> pte_of m' 2 t va = pte_of m 2 t va" and "unat a + PGSIZE * n \<le> 2 ^ 64"
  shows "range_pas m' t a n = range_pas m t a n"
  unfolding range_pas_def
proof (rule map_cong [OF refl])
  fix i assume "i \<in> set [0..<n]"
  then have "i < n" by simp
  then have "unat (a + of_nat (4096 * i)) = unat a + 4096 * i"
    using assms(2) by (intro unat_region [where n = "4096 * n"]) simp_all
  then have "in_pages a n (a + page_va i)"
    using \<open>i < n\<close> unfolding in_pages_def page_va_def by simp
  then show "PTE2PA (pte_of m' 2 t (a + page_va i)) = PTE2PA (pte_of m 2 t (a + page_va i))"
    using assms(1) by simp
qed

definition unmap_post ::
  "uint64 \<Rightarrow> uint64 \<Rightarrow> nat \<Rightarrow> bool \<Rightarrow> uint64 list \<Rightarrow> 'x kmem_scheme \<Rightarrow> 'x kmem_scheme \<Rightarrow> bool" where
  "unmap_post t a n do_free fp s s' \<longleftrightarrow>
     (let pas = if do_free then range_pas (mem s) t a n else [] in
      pt_inv (rev pas @ fp) s' t \<and> mem_only s s' \<and> pt_pages (mem s') 2 t = pt_pages (mem s) 2 t \<and>
      unmapped_range (mem s) (mem s') t a n \<and>
      (\<forall>x. PGROUNDDOWN x \<notin> pt_pages (mem s) 2 t \<union> set pas \<longrightarrow> mem s' x = mem s x))"

definition freeable :: "uint64 list \<Rightarrow> 'x kmem_scheme \<Rightarrow> uint64 \<Rightarrow> uint64 list \<Rightarrow> bool" where
  "freeable fp s t pas \<longleftrightarrow> distinct pas \<and>
     (\<forall>p \<in> set pas. ram_page s p \<and> p \<notin> set fp \<and> p \<notin> pt_pages (mem s) 2 t)"

lemma unmap_first:
  assumes inv: "pt_inv fp s t" and a: "a < MAXVA" and al: "page_aligned a"
    and lf: "leaf (pte_of (mem s) 2 t a)"
    and fr: "do_free \<Longrightarrow> freeable fp s t (PTE2PA (pte_of (mem s) 2 t a) # pas)"
  obtains p s1 s' where "walk t a False s = Ok (p, s)" and "p \<noteq> 0"
    and "load64 p s = Ok (pte_of (mem s) 2 t a, s)"
    and "(if do_free then kfree (PTE2PA (pte_of (mem s) 2 t a)) else ret ()) s = Ok ((), s1)"
    and "store64 p 0 s1 = Ok ((), s')"
    and "pt_inv ((if do_free then [PTE2PA (pte_of (mem s) 2 t a)] else []) @ fp) s' t" and "mem_only s s'"
    and "pt_pages (mem s') 2 t = pt_pages (mem s) 2 t"
    and "\<And>va. va < MAXVA \<Longrightarrow> pte_of (mem s') 2 t va = (if PGROUNDDOWN va = a then 0 else pte_of (mem s) 2 t va)"
    and "\<And>x. PGROUNDDOWN x \<notin> pt_pages (mem s) 2 t \<Longrightarrow>
      \<not> (do_free \<and> PGROUNDDOWN x = PTE2PA (pte_of (mem s) 2 t a)) \<Longrightarrow> mem s' x = mem s x"
proof -
  let ?e = "pte_of (mem s) 2 t a"
  let ?fp = "(if do_free then [PTE2PA ?e] else []) @ fp"
  from lf obtain p where p: "pte_addr (mem s) 2 t a = Some p"
    by (auto simp: leaf_def pte_of_def split: option.splits)
  obtain s1 where s1: "(if do_free then kfree (PTE2PA ?e) else ret ()) s = Ok ((), s1)" "pt_inv ?fp s1 t"
      "mem_only s s1" "pt_pages (mem s1) 2 t = pt_pages (mem s) 2 t" "pte_of (mem s1) 2 t = pte_of (mem s) 2 t"
      "pte_addr (mem s1) 2 t = pte_addr (mem s) 2 t"
    and fr1: "\<And>x. \<not> (do_free \<and> PGROUNDDOWN x = PTE2PA ?e) \<Longrightarrow> mem s1 x = mem s x"
  proof (cases do_free)
    case True
    then have f: "ram_page s (PTE2PA ?e)" "PTE2PA ?e \<notin> set fp" "PTE2PA ?e \<notin> pt_pages (mem s) 2 t"
      using fr by (auto simp: freeable_def)
    obtain s1 where "kfree (PTE2PA ?e) s = Ok ((), s1)" "pt_inv (PTE2PA ?e # fp) s1 t" "mem_only s s1"
        "pt_pages (mem s1) 2 t = pt_pages (mem s) 2 t" "pte_of (mem s1) 2 t = pte_of (mem s) 2 t"
        "pte_addr (mem s1) 2 t = pte_addr (mem s) 2 t"
        "\<forall>x. PGROUNDDOWN x \<noteq> PTE2PA ?e \<longrightarrow> mem s1 x = mem s x"
      using kfree_pt [OF inv f] by blast
    then show thesis using that [of s1] True by simp
  next
    case False
    then show thesis using that [of s] inv by simp
  qed
  define s' where "s' = mem_update (write64 p 0) s1"
  have p1: "pte_addr (mem s1) 2 t a = Some p" using p s1(6) by simp
  note ls = leaf_store [OF s1(2) p1 a]
  show thesis
  proof (rule that [of p s1 s'])
    show "walk t a False s = Ok (p, s)" using p a by (simp add: walk_lookup)
    show "p \<noteq> 0" by (rule pt_inv_pte_addr_nonzero [OF inv p])
    show "load64 p s = Ok (?e, s)" using p by (simp add: load64_def pte_of_def)
    show "store64 p 0 s1 = Ok ((), s')" by (simp add: store64_def s'_def)
    show "mem_only s s'" by (rule mem_only_trans [OF s1(3)]) (simp add: s'_def)
    show "pte_of (mem s') 2 t va = (if PGROUNDDOWN va = a then 0 else pte_of (mem s) 2 t va)" if "va < MAXVA" for va
      using ls(3) [OF that, of 0] al s1(5) by (simp add: s'_def page_aligned_iff)
    show "mem s' x = mem s x" if "PGROUNDDOWN x \<notin> pt_pages (mem s) 2 t"
      "\<not> (do_free \<and> PGROUNDDOWN x = PTE2PA ?e)" for x
      using ls(4) [of x 0] fr1 [OF that(2)] that(1) s1(4) by (simp add: s'_def)
  qed (use s1 ls(1,2) in \<open>simp_all add: s'_def\<close>)
qed

lemma in_pages_MAXVA: "in_pages a n va \<Longrightarrow> unat a + PGSIZE * n \<le> unat MAXVA \<Longrightarrow> va < MAXVA"
  by (simp add: in_pages_def word_less_nat_alt)

lemma unmapped_range_step:
  assumes al: "page_aligned a" "unat (a + PGSIZE) = unat a + PGSIZE"
    and one: "\<And>va. va < MAXVA \<Longrightarrow> pte_of m1 2 t va = (if PGROUNDDOWN va = a then 0 else pte_of m 2 t va)"
    and more: "unmapped_range m1 m2 t (a + PGSIZE) n"
  shows "unmapped_range m m2 t a (Suc n)"
  using one more by (auto simp: unmapped_range_def in_pages_Suc [OF al])

lemma uvmunmap_loop_ok:
  assumes "pt_inv fp s t" and "page_aligned a" and "unat a + PGSIZE * n \<le> unat MAXVA"
    and "end_va = a + page_va n" and "\<And>va. in_pages a n va \<Longrightarrow> leaf (pte_of (mem s) 2 t va)"
    and "do_free \<Longrightarrow> freeable fp s t (range_pas (mem s) t a n)" and "n < fuel"
  shows "\<exists>s'. uvmunmap_loop fuel t a end_va do_free s = Ok ((), s') \<and> unmap_post t a n do_free fp s s'"
  using assms
proof (induction n arbitrary: fuel a fp s)
  case 0
  then obtain f where "fuel = Suc f" by (cases fuel) auto
  with 0 show ?case
    by (simp add: unmap_post_def unmapped_range_def range_pas_def page_va_def Let_def)
next
  case (Suc n)
  then obtain f where f: "fuel = Suc f" "n < f" by (cases fuel) auto
  have MAX: "unat MAXVA < 2 ^ 64" by (simp add: MAXVA_eq)
  have a: "a < MAXVA" using Suc.prems(3) by (simp add: word_less_nat_alt)
  have a1: "unat (a + PGSIZE) = unat a + PGSIZE" using Suc.prems(3) by (intro next_page) simp
  have end_va: "unat end_va = unat a + PGSIZE * Suc n"
    using unat_region [of a "4096 * Suc n + 1" "4096 * Suc n"] Suc.prems(3,4) MAX by (simp add: page_va_def)
  let ?e = "pte_of (mem s) 2 t a"
  let ?pas = "range_pas (mem s) t (a + PGSIZE) n"
  have lf: "leaf ?e" by (rule Suc.prems(5)) (simp add: in_pages_def)
  have fr: "do_free \<Longrightarrow> freeable fp s t (PTE2PA ?e # ?pas)"
    using Suc.prems(6) by (simp add: range_pas_Suc)
  obtain p s1 s' where w: "walk t a False s = Ok (p, s)" "p \<noteq> 0" "load64 p s = Ok (?e, s)"
      "(if do_free then kfree (PTE2PA ?e) else ret ()) s = Ok ((), s1)" "store64 p 0 s1 = Ok ((), s')"
    and inv: "pt_inv ((if do_free then [PTE2PA ?e] else []) @ fp) s' t" "mem_only s s'"
      "pt_pages (mem s') 2 t = pt_pages (mem s) 2 t"
    and pte: "\<And>va. va < MAXVA \<Longrightarrow> pte_of (mem s') 2 t va = (if PGROUNDDOWN va = a then 0 else pte_of (mem s) 2 t va)"
    and out: "\<And>x. PGROUNDDOWN x \<notin> pt_pages (mem s) 2 t \<Longrightarrow>
      \<not> (do_free \<and> PGROUNDDOWN x = PTE2PA ?e) \<Longrightarrow> mem s' x = mem s x"
    using unmap_first [OF Suc.prems(1) a Suc.prems(2) lf fr] by blast
  have same: "pte_of (mem s') 2 t va = pte_of (mem s) 2 t va" if "in_pages (a + PGSIZE) n va" for va
  proof -
    have "va < MAXVA" by (rule in_pages_MAXVA [OF that]) (use Suc.prems(3) a1 in simp)
    moreover have "PGROUNDDOWN va \<noteq> a"
      using that a1 unfolding in_pages_def in_page_unat [OF Suc.prems(2)] by simp
    ultimately show ?thesis using pte by simp
  qed
  have pas: "range_pas (mem s') t (a + PGSIZE) n = ?pas"
    by (rule range_pas_cong [OF same]) (use Suc.prems(3) a1 MAX in simp_all)
  have "\<exists>s''. uvmunmap_loop f t (a + PGSIZE) end_va do_free s' = Ok ((), s'') \<and>
      unmap_post t (a + PGSIZE) n do_free ((if do_free then [PTE2PA ?e] else []) @ fp) s' s''"
  proof (rule Suc.IH [OF inv(1)])
    show "page_aligned (a + PGSIZE)" using Suc.prems(2) a1 by (rule page_aligned_step)
    show "unat (a + PGSIZE) + PGSIZE * n \<le> unat MAXVA" using Suc.prems(3) a1 by simp
    show "end_va = a + PGSIZE + page_va n" using Suc.prems(4) by (simp add: page_va_def algebra_simps)
    show "leaf (pte_of (mem s') 2 t va)" if "in_pages (a + PGSIZE) n va" for va
    proof -
      have "in_pages a (Suc n) va" using that by (simp add: in_pages_Suc [OF Suc.prems(2) a1])
      then show ?thesis using Suc.prems(5) same [OF that] by simp
    qed
    show "freeable ((if do_free then [PTE2PA ?e] else []) @ fp) s' t (range_pas (mem s') t (a + PGSIZE) n)" if do_free
      unfolding pas using fr [OF that] inv(3) mem_only_ram_page [OF inv(2)] that by (auto simp: freeable_def)
  qed (rule f)
  then obtain s'' where run: "uvmunmap_loop f t (a + PGSIZE) end_va do_free s' = Ok ((), s'')"
    and post: "unmap_post t (a + PGSIZE) n do_free ((if do_free then [PTE2PA ?e] else []) @ fp) s' s''" by blast
  have "unmapped_range (mem s) (mem s'') t a (Suc n)"
    by (rule unmapped_range_step [OF Suc.prems(2) a1 pte]) (use post in \<open>simp_all add: unmap_post_def Let_def\<close>)
  then have "unmap_post t a (Suc n) do_free fp s s''"
    using post inv(3) out mem_only_trans [OF inv(2)]
    by (auto simp: unmap_post_def Let_def pas range_pas_Suc)
  moreover have "uvmunmap_loop fuel t a end_va do_free s = Ok ((), s'')"
  proof -
    have "a < end_va" using end_va by (simp add: word_less_nat_alt)
    then show ?thesis
      using f w run lf and_PTE_V_valid by (simp add: run_bnd run_sq leaf_def)
  qed
  ultimately show ?case by blast
qed

lemma uvmunmap_ok:
  assumes "pt_inv fp s t" and "page_aligned a" and "unat a + PGSIZE * n \<le> unat MAXVA"
    and "\<And>va. in_pages a n va \<Longrightarrow> leaf (pte_of (mem s) 2 t va)"
    and "do_free \<Longrightarrow> freeable fp s t (range_pas (mem s) t a n)"
  shows "\<exists>s'. uvmunmap t a (of_nat n) do_free s = Ok ((), s') \<and> unmap_post t a n do_free fp s s'"
proof -
  have n: "PGSIZE * n < 2 ^ 64" using assms(3) by (simp add: MAXVA_eq)
  have "of_nat n * PGSIZE = page_va n" by (simp add: page_va_def)
  moreover from this have "unat (of_nat n * PGSIZE :: uint64) div PGSIZE = n" using unat_page_va [OF n] by simp
  ultimately show ?thesis
    using assms(2) uvmunmap_loop_ok [OF assms(1-3) refl assms(4,5), of do_free "Suc n"]
    by (simp add: uvmunmap_def page_aligned_def)
qed

section \<open>The pages of a process\<close>

definition uvm_inv :: "uint64 list \<Rightarrow> 'x kmem_scheme \<Rightarrow> uint64 \<Rightarrow> uint64 list \<Rightarrow> bool" where
  "uvm_inv fp s t pas \<longleftrightarrow> pt_inv fp s t \<and> PGSIZE * length pas \<le> unat MAXVA \<and> freeable fp s t pas \<and>
     (\<forall>i < length pas. leaf (pte_of (mem s) 2 t (page_va i)) \<and> PTE2PA (pte_of (mem s) 2 t (page_va i)) = pas ! i)"

lemma PGROUNDDOWN_idem [simp]: "PGROUNDDOWN (PGROUNDDOWN va) = PGROUNDDOWN va"
  using page_aligned_PGROUNDDOWN [of va] by (simp add: page_aligned_iff)

lemma pte_of_same_page: "PGROUNDDOWN va' = PGROUNDDOWN va \<Longrightarrow> pte_of m l t va' = pte_of m l t va"
  using pte_addr_same_page [of va' va m l t] by (simp add: pte_of_def)

lemma page_va_add: "page_va i + page_va j = page_va (i + j)"
  by (simp add: page_va_def algebra_simps)

lemma page_va_Suc: "page_va i + PGSIZE = page_va (Suc i)"
  by (simp add: page_va_def algebra_simps)

lemma page_aligned_page_va: "PGSIZE * i < 2 ^ 64 \<Longrightarrow> page_aligned (page_va i)"
  by (simp add: page_aligned_unat unat_page_va)

lemma in_pages_index:
  assumes "in_pages (page_va j) n va" and "PGSIZE * j < 2 ^ 64"
  obtains i where "j \<le> i" and "i < j + n" and "PGROUNDDOWN va = page_va i"
proof -
  let ?i = "unat va div 4096"
  have "PGSIZE * j \<le> unat va" "unat va < PGSIZE * (j + n)"
    using assms by (simp_all add: in_pages_def unat_page_va)
  then have "j \<le> ?i" "?i < j + n"
    using div_le_mono [of "4096 * j" "unat va" 4096] by (simp_all add: less_mult_imp_div_less mult.commute)
  moreover have "PGROUNDDOWN va = page_va ?i"
  proof -
    have "unat va < 2 ^ 64" using unat_less_exp [of va] by simp
    then have "4096 * ?i < 2 ^ 64" using times_div_less_eq_dividend [of 4096 "unat va"] by linarith
    then show ?thesis by (simp only: word_unat_eq_iff unat_PGROUNDDOWN unat_page_va mult.commute)
  qed
  ultimately show thesis by (rule that)
qed

lemma uvm_leaf:
  assumes "uvm_inv fp s t pas" and "in_pages (page_va j) n va" and "j + n \<le> length pas"
  shows "leaf (pte_of (mem s) 2 t va)"
proof -
  have "4096 * length pas \<le> unat MAXVA" using assms(1) by (simp add: uvm_inv_def)
  then have "4096 * j < 2 ^ 64" using assms(3) by (simp add: MAXVA_eq)
  then obtain i where "i < length pas" "PGROUNDDOWN va = page_va i"
    using in_pages_index [OF assms(2)] assms(3) by (metis less_le_trans)
  moreover have "PGROUNDDOWN (page_va i) = page_va i"
    using \<open>PGROUNDDOWN va = page_va i\<close> PGROUNDDOWN_idem [of va] by simp
  ultimately show ?thesis
    using assms(1) pte_of_same_page [of va "page_va i" "mem s" 2 t] by (simp add: uvm_inv_def)
qed

lemma uvm_range_pas:
  assumes "uvm_inv fp s t pas" and "j \<le> length pas"
  shows "range_pas (mem s) t (page_va j) (length pas - j) = drop j pas"
  using assms by (intro nth_equalityI) (simp_all add: range_pas_def page_va_add uvm_inv_def)

lemma uvm_inv_frame:
  assumes "uvm_inv fp s t pas" and "pt_inv fp' s' t" and "mem_only s s'"
    and "set pas \<inter> (set fp' \<union> pt_pages (mem s') 2 t) = {}"
    and "\<And>i. i < length pas \<Longrightarrow> pte_of (mem s') 2 t (page_va i) = pte_of (mem s) 2 t (page_va i)"
  shows "uvm_inv fp' s' t pas"
  using assms mem_only_ram_page [OF assms(3)] by (auto simp: uvm_inv_def freeable_def)

lemma page_va_inj: "PGSIZE * i < 2 ^ 64 \<Longrightarrow> PGSIZE * j < 2 ^ 64 \<Longrightarrow> page_va i = page_va j \<longleftrightarrow> i = j"
  by (auto simp: word_unat_eq_iff unat_page_va)

lemma in_pages_page_va:
  "PGSIZE * i < 2 ^ 64 \<Longrightarrow> PGSIZE * j < 2 ^ 64 \<Longrightarrow> in_pages (page_va j) n (page_va i) \<longleftrightarrow> j \<le> i \<and> i < j + n"
  by (auto simp: in_pages_def unat_page_va)

text \<open>Unmapping the last pages of a process.\<close>

lemma uvm_unmap_tail:
  assumes inv: "uvm_inv fp s t pas" and j: "j \<le> length pas"
  obtains s' where "uvmunmap t (page_va j) (of_nat (length pas - j)) True s = Ok ((), s')"
    and "uvm_inv (rev (drop j pas) @ fp) s' t (take j pas)" and "mem_only s s'"
    and "pt_pages (mem s') 2 t = pt_pages (mem s) 2 t"
    and "unmapped_range (mem s) (mem s') t (page_va j) (length pas - j)"
    and "\<And>x. PGROUNDDOWN x \<notin> pt_pages (mem s) 2 t \<union> set (drop j pas) \<Longrightarrow> mem s' x = mem s x"
proof -
  let ?n = "length pas - j"
  have pt: "pt_inv fp s t" and len: "4096 * length pas \<le> unat MAXVA" and fr: "freeable fp s t pas"
    using inv by (auto simp: uvm_inv_def)
  have MAX: "unat MAXVA = 2 ^ 38" by (simp add: MAXVA_eq)
  have va: "unat (page_va j) = 4096 * j" using len j MAX by (intro unat_page_va) simp
  have pas: "range_pas (mem s) t (page_va j) ?n = drop j pas" by (rule uvm_range_pas [OF inv j])
  have "\<exists>s'. uvmunmap t (page_va j) (of_nat ?n) True s = Ok ((), s') \<and> unmap_post t (page_va j) ?n True fp s s'"
  proof (rule uvmunmap_ok [OF pt])
    show "page_aligned (page_va j)" using len j MAX by (intro page_aligned_page_va) simp
    show "unat (page_va j) + PGSIZE * ?n \<le> unat MAXVA" using len j unfolding va by simp
    show "leaf (pte_of (mem s) 2 t va)" if "in_pages (page_va j) ?n va" for va
      by (rule uvm_leaf [OF inv that]) (use j in simp)
    show "freeable fp s t (range_pas (mem s) t (page_va j) ?n)"
      unfolding pas using fr by (auto simp: freeable_def dest: in_set_dropD)
  qed
  then obtain s' where run: "uvmunmap t (page_va j) (of_nat ?n) True s = Ok ((), s')"
    and post: "unmap_post t (page_va j) ?n True fp s s'" by blast
  have p: "pt_inv (rev (drop j pas) @ fp) s' t" "mem_only s s'" "pt_pages (mem s') 2 t = pt_pages (mem s) 2 t"
      "unmapped_range (mem s) (mem s') t (page_va j) ?n"
      "\<And>x. PGROUNDDOWN x \<notin> pt_pages (mem s) 2 t \<union> set (drop j pas) \<Longrightarrow> mem s' x = mem s x"
    using post by (auto simp: unmap_post_def pas Let_def)
  have "uvm_inv fp s t (take j pas)"
    using inv j fr by (auto simp: uvm_inv_def freeable_def dest: in_set_takeD)
  then have "uvm_inv (rev (drop j pas) @ fp) s' t (take j pas)"
  proof (rule uvm_inv_frame [OF _ p(1,2)])
    show "set (take j pas) \<inter> (set (rev (drop j pas) @ fp) \<union> pt_pages (mem s') 2 t) = {}"
      using fr set_take_disj_set_drop_if_distinct [of pas j j] p(3)
      by (auto simp: freeable_def dest: in_set_takeD)
    show "pte_of (mem s') 2 t (page_va i) = pte_of (mem s) 2 t (page_va i)" if "i < length (take j pas)" for i
    proof -
      have i: "i < j" "4096 * i < 2 ^ 64" "4096 * j < 2 ^ 64" using that len j MAX by auto
      have "page_va i < MAXVA" using i(1) j len unat_page_va [OF i(2)] by (simp add: word_less_nat_alt)
      then show ?thesis
        using p(4) i by (simp add: unmapped_range_def in_pages_page_va)
    qed
  qed
  then show thesis using that [OF run] p by blast
qed

section \<open>Shrinking\<close>

definition npg :: "uint64 \<Rightarrow> nat" where
  "npg sz = (unat sz + PGSIZE - 1) div PGSIZE"

lemma PGROUNDUP_page_va:
  assumes "sz \<le> MAXVA"
  shows "PGROUNDUP sz = page_va (npg sz)" and "PGSIZE * npg sz \<le> unat MAXVA"
proof -
  have sz: "unat sz \<le> 2 ^ 38" using assms by (simp add: MAXVA_eq word_le_nat_alt)
  then have "npg sz \<le> (2 ^ 38 + 4095) div 4096"
    unfolding npg_def by (intro div_le_mono) simp
  then show le: "4096 * npg sz \<le> unat MAXVA" by (simp add: MAXVA_eq)
  have "unat (PGROUNDUP sz) = npg sz * 4096" using sz by (simp add: unat_PGROUNDUP npg_def)
  moreover have "unat (page_va (npg sz)) = 4096 * npg sz" using le by (intro unat_page_va) (simp add: MAXVA_eq)
  ultimately show "PGROUNDUP sz = page_va (npg sz)" by (simp add: word_unat_eq_iff)
qed

lemma npg_page_va: "PGSIZE * i < 2 ^ 64 \<Longrightarrow> npg (page_va i) = i"
  by (simp add: npg_def unat_page_va)

lemma npages_int:
  assumes "k < 2 ^ 31"
  shows "scast (ucast (page_va k div PGSIZE) :: uint32) = (of_nat k :: uint64)"
proof -
  have "unat (page_va k) = 4096 * k" using assms by (intro unat_page_va) simp
  then have "unat (page_va k div PGSIZE) = unat (of_nat k :: uint64)"
    using assms by (simp add: unat_div_distrib unat_of_nat take_bit_nat_eq_self)
  then have d: "page_va k div PGSIZE = of_nat k" by (simp add: word_unat_eq_iff)
  have u: "(ucast (of_nat k :: uint64) :: uint32) = of_nat k"
    using assms by (simp add: unsigned_of_nat take_bit_nat_eq_self)
  have "sint (of_nat k :: uint32) = int k"
    using assms by (simp add: signed_of_nat signed_take_bit_int_eq_self)
  then show ?thesis unfolding d u by (metis of_int_sint of_int_of_nat_eq)
qed

lemma page_va_diff: "j \<le> n \<Longrightarrow> page_va n - page_va j = page_va (n - j)"
  using page_va_add [of j "n - j"] by (simp add: diff_eq_eq add.commute)

lemma page_va_less: "PGSIZE * i < 2 ^ 64 \<Longrightarrow> PGSIZE * j < 2 ^ 64 \<Longrightarrow> page_va i < page_va j \<longleftrightarrow> i < j"
  by (simp add: word_less_nat_alt unat_page_va)

text \<open>A page size that is a whole number of pages, and the pages it drops.\<close>

lemma uvmdealloc_unmap:
  assumes "uvm_inv fp s t pas" and "newsz < oldsz" and "oldsz \<le> MAXVA" and "npg oldsz = length pas"
  shows "npg newsz \<le> length pas"
    and "uvmunmap t (page_va (npg newsz)) (of_nat (length pas - npg newsz)) True s = Ok ((), s') \<Longrightarrow>
      npg newsz < length pas \<Longrightarrow> uvmdealloc t oldsz newsz s = Ok (newsz, s')"
    and "npg newsz = length pas \<Longrightarrow> uvmdealloc t oldsz newsz s = Ok (newsz, s)"
proof -
  have new: "newsz \<le> MAXVA" using assms(2,3) by simp
  note up = PGROUNDUP_page_va [OF assms(3)] PGROUNDUP_page_va [OF new]
  have "unat newsz \<le> unat oldsz" using assms(2) by (simp add: word_less_nat_alt)
  then show le: "npg newsz \<le> length pas"
    unfolding assms(4) [symmetric] npg_def by (intro div_le_mono) simp
  have b: "4096 * npg oldsz < 2 ^ 64" "4096 * npg newsz < 2 ^ 64" "npg oldsz < 2 ^ 31"
    using up(2,4) by (simp_all add: MAXVA_eq)
  have cmp: "PGROUNDUP newsz < PGROUNDUP oldsz \<longleftrightarrow> npg newsz < length pas"
    using page_va_less [OF b(2,1)] up(1,3) assms(4) by simp
  have "scast (ucast ((PGROUNDUP oldsz - PGROUNDUP newsz) div PGSIZE) :: uint32) =
      (of_nat (length pas - npg newsz) :: uint64)"
    unfolding up(1,3) using le b(3) by (simp add: assms(4) page_va_diff npages_int)
  then show "uvmunmap t (page_va (npg newsz)) (of_nat (length pas - npg newsz)) True s = Ok ((), s') \<Longrightarrow>
      npg newsz < length pas \<Longrightarrow> uvmdealloc t oldsz newsz s = Ok (newsz, s')"
    using assms(2) cmp up(3) by (auto simp: uvmdealloc_def Let_def)
  show "npg newsz = length pas \<Longrightarrow> uvmdealloc t oldsz newsz s = Ok (newsz, s)"
    using assms(2) cmp by (auto simp: uvmdealloc_def Let_def)
qed

definition dealloc_post :: "uint64 \<Rightarrow> nat \<Rightarrow> uint64 list \<Rightarrow> uint64 list \<Rightarrow> 'x kmem_scheme \<Rightarrow> 'x kmem_scheme \<Rightarrow> bool" where
  "dealloc_post t j pas fp s s' \<longleftrightarrow>
     uvm_inv (rev (drop j pas) @ fp) s' t (take j pas) \<and> mem_only s s' \<and>
     pt_pages (mem s') 2 t = pt_pages (mem s) 2 t \<and>
     unmapped_range (mem s) (mem s') t (page_va j) (length pas - j) \<and>
     (\<forall>x. PGROUNDDOWN x \<notin> pt_pages (mem s) 2 t \<union> set (drop j pas) \<longrightarrow> mem s' x = mem s x)"

lemma dealloc_post_all:
  assumes "uvm_inv fp s t pas"
  shows "dealloc_post t (length pas) pas fp s s"
  using assms by (simp add: dealloc_post_def unmapped_range_def)

lemma uvmdealloc_ok:
  assumes "uvm_inv fp s t pas" and "newsz < oldsz" and "oldsz \<le> MAXVA" and "npg oldsz = length pas"
  shows "\<exists>s'. uvmdealloc t oldsz newsz s = Ok (newsz, s') \<and> dealloc_post t (npg newsz) pas fp s s'"
proof (cases "npg newsz = length pas")
  case True
  then show ?thesis
    using uvmdealloc_unmap(3) [OF assms True] dealloc_post_all [OF assms(1)] by auto
next
  case False
  have le: "npg newsz \<le> length pas" by (rule uvmdealloc_unmap(1) [OF assms])
  obtain s' where s': "uvmunmap t (page_va (npg newsz)) (of_nat (length pas - npg newsz)) True s = Ok ((), s')"
      "uvm_inv (rev (drop (npg newsz) pas) @ fp) s' t (take (npg newsz) pas)" "mem_only s s'"
      "pt_pages (mem s') 2 t = pt_pages (mem s) 2 t"
      "unmapped_range (mem s) (mem s') t (page_va (npg newsz)) (length pas - npg newsz)"
      "\<And>x. PGROUNDDOWN x \<notin> pt_pages (mem s) 2 t \<union> set (drop (npg newsz) pas) \<Longrightarrow> mem s' x = mem s x"
    using uvm_unmap_tail [OF assms(1) le] by blast
  then show ?thesis
    using uvmdealloc_unmap(2) [OF assms s'(1)] False le by (auto simp: dealloc_post_def)
qed

text \<open>The form in which \<open>uvmalloc\<close> undoes its work.\<close>

lemma uvmdealloc_pages:
  assumes "uvm_inv fp s t pas" and "j \<le> length pas"
  shows "\<exists>r s'. uvmdealloc t (page_va (length pas)) (page_va j) s = Ok (r, s') \<and> dealloc_post t j pas fp s s'"
proof (cases "j = length pas")
  case True
  then show ?thesis
    using dealloc_post_all [OF assms(1)] by (auto simp: uvmdealloc_def)
next
  case False
  have len: "4096 * length pas \<le> unat MAXVA" using assms(1) by (simp add: uvm_inv_def)
  then have b: "4096 * length pas < 2 ^ 64" "4096 * j < 2 ^ 64" using assms(2) by (simp_all add: MAXVA_eq)
  have "page_va j < page_va (length pas)" using False assms(2) b by (simp add: page_va_less)
  moreover have "page_va (length pas) \<le> MAXVA" using len b(1) by (simp add: word_le_nat_alt unat_page_va)
  ultimately show ?thesis
    using uvmdealloc_ok [OF assms(1), of "page_va j" "page_va (length pas)"] b by (auto simp: npg_page_va)
qed

section \<open>Growing\<close>

lemma unat_or_less: "unat (a :: uint64) < 2 ^ n \<Longrightarrow> unat b < 2 ^ n \<Longrightarrow> unat (a OR b) < 2 ^ n"
  by (simp add: unsigned_or_eq take_bit_or flip: take_bit_nat_eq_self_iff)

lemma map_entry:
  assumes "ram_page s p" and "unat flags < 2 ^ 10"
  shows "valid (PA2PTE p OR flags OR PTE_V)" and "PTE2PA (PA2PTE p OR flags OR PTE_V) = p"
    and "PTE_FLAGS (PA2PTE p OR flags OR PTE_V) = flags OR PTE_V"
proof -
  have fl: "unat (flags OR PTE_V) < 2 ^ 10" using assms(2) by (intro unat_or_less) (simp_all add: PTE_V_def)
  show "valid (PA2PTE p OR flags OR PTE_V)" by (simp add: valid_def bit_or_iff)
  show "PTE2PA (PA2PTE p OR flags OR PTE_V) = p"
    using assms(1) ram_page_small [OF assms(1)] fl PTE2PA_encode [of p "flags OR PTE_V"]
    by (simp add: ram_page_def or.assoc)
  show "PTE_FLAGS (PA2PTE p OR flags OR PTE_V) = flags OR PTE_V"
    using PTE_FLAGS_encode [OF fl] by (simp add: or.assoc)
qed

lemma mappages_one:
  assumes "pt_inv fp s t" and "PGSIZE * Suc n \<le> unat MAXVA" and "\<not> valid (pte_of (mem s) 2 t (page_va n))"
  shows "\<exists>r us fp' s'. mappages t (page_va n) PGSIZE pa perm s = Ok (r, s') \<and>
    map_post t (page_va n) (Suc 0) pa perm fp s r us fp' s'"
proof -
  have n: "4096 * n < 2 ^ 64" using assms(2) by (simp add: MAXVA_eq)
  have al: "page_aligned (page_va n)" by (rule page_aligned_page_va [OF n])
  then have down: "PGROUNDDOWN (page_va n) = page_va n" by (simp add: page_aligned_iff)
  have "page_va n + PGSIZE - 1 = page_va n + of_nat 4095" by simp
  then have last: "PGROUNDDOWN (page_va n + PGSIZE - 1) = page_va n"
    using PGROUNDDOWN_offset [OF al, of 4095] by (simp add: add.commute)
  have "\<exists>r us fp' s'. mappages_loop (Suc 0) t (page_va n) (page_va n) pa perm s = Ok (r, s') \<and>
    map_post t (page_va n) (Suc 0) pa perm fp s r us fp' s'"
  proof (rule mappages_loop_ok [OF assms(1) al])
    show "unat (page_va n) + PGSIZE * Suc 0 \<le> unat MAXVA" using assms(2) unat_page_va [OF n] by simp
    show "\<not> valid (pte_of (mem s) 2 t va)" if "in_pages (page_va n) (Suc 0) va" for va
    proof -
      have "PGROUNDDOWN va = page_va n" using that unfolding in_pages_def in_page_unat [OF al] by simp
      then show ?thesis using assms(3) pte_of_same_page [of va "page_va n" "mem s" 2 t] down by simp
    qed
  qed simp_all
  then show ?thesis
    unfolding mappages_def Let_def down last by (simp del: mappages_loop.simps)
qed

lemma mapped_one:
  assumes "mapped_range m m' t (page_va n) (Suc 0) pa perm" and "PGSIZE * Suc n \<le> unat MAXVA" and "va < MAXVA"
  shows "pte_of m' 2 t va = (if PGROUNDDOWN va = page_va n then PA2PTE pa OR perm OR PTE_V else pte_of m 2 t va)"
proof -
  have al: "page_aligned (page_va n)" using assms(2) by (intro page_aligned_page_va) (simp add: MAXVA_eq)
  have "in_pages (page_va n) (Suc 0) va \<longleftrightarrow> PGROUNDDOWN va = page_va n"
    unfolding in_pages_def in_page_unat [OF al] by simp
  then show ?thesis using assms(1,3) by (simp add: mapped_range_def)
qed

text \<open>
  One more page at the end: a page of the process is neither free nor a table page, and all pages
  are accounted for before and after.
\<close>

definition all_pages :: "uint64 list \<Rightarrow> 'x kmem_scheme \<Rightarrow> uint64 \<Rightarrow> uint64 list \<Rightarrow> uint64 set" where
  "all_pages fp s t pas = set fp \<union> pt_pages (mem s) 2 t \<union> set pas"

lemma uvm_extend:
  assumes inv: "uvm_inv fp s t pas" and pt: "pt_inv fp' s' t" and mo: "mem_only s s'"
    and n: "PGSIZE * Suc (length pas) \<le> unat MAXVA"
    and fp: "set pas \<inter> (set fp' \<union> pt_pages (mem s') 2 t) = {}" "p \<notin> set fp'" "p \<notin> pt_pages (mem s') 2 t" "p \<notin> set pas"
    and p: "ram_page s p" and fl: "unat flags < 2 ^ 10" "flags OR PTE_V \<noteq> PTE_V"
    and map: "mapped_range (mem s) (mem s') t (page_va (length pas)) (Suc 0) p flags"
  shows "uvm_inv fp' s' t (pas @ [p])"
proof -
  let ?n = "length pas"
  note e = mapped_one [OF map n]
  have MAX: "unat MAXVA = 2 ^ 38" by (simp add: MAXVA_eq)
  have va: "page_va i < MAXVA" "PGROUNDDOWN (page_va i) = page_va i" if "i \<le> ?n" for i
  proof -
    have i: "4096 * i < 2 ^ 64" using that n MAX by simp
    show "page_va i < MAXVA" using that n unat_page_va [OF i] by (simp add: word_less_nat_alt)
    show "PGROUNDDOWN (page_va i) = page_va i" using page_aligned_page_va [OF i] by (simp add: page_aligned_iff)
  qed
  have old: "pte_of (mem s') 2 t (page_va i) = pte_of (mem s) 2 t (page_va i)" if "i < ?n" for i
  proof -
    have "page_va i \<noteq> page_va ?n" using that n MAX page_va_inj [of i ?n] by simp
    then show ?thesis using e [OF va(1)] va(2) that by simp
  qed
  have new: "pte_of (mem s') 2 t (page_va ?n) = PA2PTE p OR flags OR PTE_V"
    using e [OF va(1)] va(2) by simp
  have "uvm_inv fp' s' t pas" using uvm_inv_frame [OF inv pt mo fp(1) old] .
  then show ?thesis
    using new map_entry [OF p fl(1)] fl(2) fp p n mem_only_ram_page [OF mo]
    by (auto simp: uvm_inv_def freeable_def leaf_def nth_append less_Suc_eq)
qed

lemma uvm_va: "uvm_inv fp s t pas \<Longrightarrow> i < length pas \<Longrightarrow> page_va i < MAXVA"
  using unat_page_va [of i] by (simp add: uvm_inv_def word_less_nat_alt MAXVA_eq)

definition alloc_post ::
  "uint64 \<Rightarrow> uint64 \<Rightarrow> uint64 \<Rightarrow> (memory \<Rightarrow> memory) \<Rightarrow> uint64 list \<Rightarrow> 'x kmem_scheme \<Rightarrow> uint64 list \<Rightarrow>
   'x kmem_scheme \<Rightarrow> int \<Rightarrow> uint64 list \<Rightarrow> uint64 list \<Rightarrow> 'x kmem_scheme \<Rightarrow> bool" where
  "alloc_post t p flags f fp s pas s1 r us fp' s3 \<longleftrightarrow>
     kalloc s = Ok (p, s1) \<and> p \<noteq> 0 \<and> (\<forall>x. PGROUNDDOWN x \<noteq> p \<longrightarrow> mem s1 x = mem s x) \<and>
     mappages t (page_va (length pas)) PGSIZE p flags (mem_update f s1) = Ok (r, s3) \<and>
     fp = us @ fp' \<and> mem_only s s3 \<and> pt_pages (mem s3) 2 t = pt_pages (mem s) 2 t \<union> set us \<and>
     (\<forall>x. PGROUNDDOWN x \<notin> pt_pages (mem s) 2 t \<union> set us \<union> {p} \<longrightarrow> mem s3 x = mem s x) \<and>
     (\<forall>x. PGROUNDDOWN x = p \<longrightarrow> mem s3 x = f (mem s1) x) \<and>
     (r = 0 \<and> uvm_inv fp' s3 t (pas @ [p]) \<and>
        mapped_range (mem s) (mem s3) t (page_va (length pas)) (Suc 0) p flags \<or>
      r = -1 \<and> fp' = [] \<and> uvm_inv [] s3 t pas \<and> (\<forall>va < MAXVA. pte_of (mem s3) 2 t va = pte_of (mem s) 2 t va) \<and>
        ram_page s3 p \<and> p \<notin> pt_pages (mem s3) 2 t \<and> p \<notin> set pas)"

lemma alloc_one:
  assumes inv: "uvm_inv (p # fp) s t pas" and n: "PGSIZE * Suc (length pas) \<le> unat MAXVA"
    and unm: "\<not> valid (pte_of (mem s) 2 t (page_va (length pas)))"
    and fl: "unat flags < 2 ^ 10" "flags OR PTE_V \<noteq> PTE_V"
    and f: "\<And>m x. PGROUNDDOWN x \<noteq> p \<Longrightarrow> f m x = m x"
  shows "\<exists>s1 r us fp' s3. alloc_post t p flags f fp s pas s1 r us fp' s3"
proof -
  have pt: "pt_inv (p # fp) s t" and fr: "freeable (p # fp) s t pas" using inv by (auto simp: uvm_inv_def)
  obtain s1 where s1: "kalloc s = Ok (p, s1)" "pt_inv fp s1 t" "mem_only s s1" "p \<noteq> 0" "ram_page s p"
      "p \<notin> set fp" "p \<notin> pt_pages (mem s) 2 t" "pt_pages (mem s1) 2 t = pt_pages (mem s) 2 t"
      "pte_of (mem s1) 2 t = pte_of (mem s) 2 t"
    and m1: "\<And>x. PGROUNDDOWN x \<noteq> p \<Longrightarrow> mem s1 x = mem s x"
    using kalloc_pt [OF pt] by blast
  let ?s2 = "mem_update f s1"
  have s2: "pt_inv fp ?s2 t" "pt_pages (mem ?s2) 2 t = pt_pages (mem s) 2 t" "pte_of (mem ?s2) 2 t = pte_of (mem s) 2 t"
    using page_update_pt [OF s1(2,6), of f] s1(7,8,9) f by simp_all
  have unm2: "\<not> valid (pte_of (mem ?s2) 2 t (page_va (length pas)))" using unm s2(3) by simp
  obtain r us fp' s3 where run: "mappages t (page_va (length pas)) PGSIZE p flags ?s2 = Ok (r, s3)"
    and post: "map_post t (page_va (length pas)) (Suc 0) p flags fp ?s2 r us fp' s3"
    using mappages_one [OF s2(1) n unm2] by blast
  have mo: "mem_only s s3"
    using mem_only_trans [OF s1(3) mem_only_trans [OF mem_only_upd(4) [of s1 f]]] post by (simp add: map_post_def)
  have pages: "fp = us @ fp'" "pt_inv fp' s3 t" "pt_pages (mem s3) 2 t = pt_pages (mem s) 2 t \<union> set us"
    and out2: "\<And>x. PGROUNDDOWN x \<notin> pt_pages (mem s) 2 t \<union> set us \<Longrightarrow> mem s3 x = mem ?s2 x"
    using post s2(2) by (auto simp: map_post_def)
  have pu: "p \<notin> set us" "p \<notin> set fp'" "p \<notin> pt_pages (mem s3) 2 t" using pages(1,3) s1(6,7) by auto
  have out: "mem s3 x = mem s x" if "PGROUNDDOWN x \<notin> pt_pages (mem s) 2 t \<union> set us \<union> {p}" for x
    using that out2 [of x] f [of x] m1 [of x] by simp
  have inp: "mem s3 x = f (mem s1) x" if "PGROUNDDOWN x = p" for x
    using that out2 [of x] pu(1) s1(7) by simp
  have pn: "p \<notin> set pas" "set pas \<inter> (set fp' \<union> pt_pages (mem s3) 2 t) = {}"
    using fr pages(1,3) by (auto simp: freeable_def)
  have mr: "mapped_range (mem ?s2) m t a k pa perm = mapped_range (mem s) m t a k pa perm" for m a k pa perm
    using s2(3) by (simp add: mapped_range_def)
  have "r = 0 \<and> uvm_inv fp' s3 t (pas @ [p]) \<and>
           mapped_range (mem s) (mem s3) t (page_va (length pas)) (Suc 0) p flags \<or>
         r = -1 \<and> fp' = [] \<and> uvm_inv [] s3 t pas \<and> (\<forall>va < MAXVA. pte_of (mem s3) 2 t va = pte_of (mem s) 2 t va) \<and>
           ram_page s3 p \<and> p \<notin> pt_pages (mem s3) 2 t \<and> p \<notin> set pas"
  proof (cases "r = 0")
    case True
    then have map: "mapped_range (mem s) (mem s3) t (page_va (length pas)) (Suc 0) p flags"
      using post mr by (simp add: map_post_def)
    have "uvm_inv fp' s3 t (pas @ [p])"
      by (rule uvm_extend [OF inv pages(2) mo n pn(2) pu(2,3) pn(1) s1(5) fl map])
    with map True show ?thesis by simp
  next
    case False
    then have r: "r = -1" "fp' = []" "\<forall>va < MAXVA. pte_of (mem s3) 2 t va = pte_of (mem s) 2 t va"
      using post s2(3) by (auto simp: map_post_def mapped_range_def)
    have "uvm_inv fp' s3 t pas"
      by (rule uvm_inv_frame [OF inv pages(2) mo pn(2)]) (use r(3) uvm_va [OF inv] in simp)
    then show ?thesis using r pu(3) pn(1) s1(5) mem_only_ram_page [OF mo] by simp
  qed
  then have "alloc_post t p flags f fp s pas s1 r us fp' s3"
    unfolding alloc_post_def using s1(1,4) m1 run pages(1) mo pages(3) out inp by blast
  then show ?thesis by blast
qed

text \<open>
  The state after growing from \<open>j\<close> to \<open>N\<close> pages, from a point where the pages are \<open>pas\<close>: either all
  new pages are there, filled with zeroes, or none is.
\<close>

definition grow_post ::
  "uint64 \<Rightarrow> nat \<Rightarrow> nat \<Rightarrow> uint64 \<Rightarrow> uint64 list \<Rightarrow> 'x kmem_scheme \<Rightarrow> uint64 list \<Rightarrow> uint64 \<Rightarrow> 'x kmem_scheme \<Rightarrow> bool" where
  "grow_post t j N newsz fp s pas r s' \<longleftrightarrow> (\<exists>fp' pas'.
     uvm_inv fp' s' t pas' \<and> all_pages fp' s' t pas' = all_pages fp s t pas \<and> mem_only s s' \<and>
     (\<forall>va < MAXVA. \<not> in_pages (page_va j) (N - j) va \<longrightarrow> pte_of (mem s') 2 t va = pte_of (mem s) 2 t va) \<and>
     (\<forall>x. PGROUNDDOWN x \<in> set (take j pas) \<or> PGROUNDDOWN x \<notin> all_pages fp s t pas \<longrightarrow> mem s' x = mem s x) \<and>
     (r = newsz \<and> length pas' = N \<and> take (length pas) pas' = pas \<and>
        (\<forall>x. PGROUNDDOWN x \<in> set (drop j pas') \<longrightarrow> mem s' x = 0) \<or>
      r = 0 \<and> pas' = take j pas \<and>
        (\<forall>va. in_pages (page_va j) (N - j) va \<longrightarrow> \<not> valid (pte_of (mem s') 2 t va))))"

lemma in_pages_split:
  assumes "in_pages (page_va j) (N - j) va" and "j \<le> n" and "n \<le> N" and "PGSIZE * N \<le> unat MAXVA"
  shows "in_pages (page_va j) (n - j) va \<or> in_pages (page_va n) (N - n) va"
proof -
  have "4096 * j < 2 ^ 64" "4096 * n < 2 ^ 64" using assms(2,3,4) by (simp_all add: MAXVA_eq)
  then show ?thesis using assms by (auto simp: in_pages_def unat_page_va)
qed

lemma in_pages_mono:
  assumes "in_pages (page_va i) k va" and "j \<le> i" and "i + k \<le> j + l" and "PGSIZE * i < 2 ^ 64"
  shows "in_pages (page_va j) l va"
  using assms by (simp add: in_pages_def unat_page_va)

lemma grow_fail:
  assumes inv: "uvm_inv fp1 s1 t pas" and j: "j \<le> length pas" "length pas \<le> N" "PGSIZE * N \<le> unat MAXVA"
    and mo: "mem_only s s1" and ap: "all_pages fp1 s1 t pas = all_pages fp s t pas"
    and pte: "\<forall>va < MAXVA. pte_of (mem s1) 2 t va = pte_of (mem s) 2 t va"
    and fr: "\<And>x. PGROUNDDOWN x \<in> set (take j pas) \<or> PGROUNDDOWN x \<notin> all_pages fp s t pas \<Longrightarrow> mem s1 x = mem s x"
    and unm: "\<And>va. in_pages (page_va (length pas)) (N - length pas) va \<Longrightarrow> \<not> valid (pte_of (mem s) 2 t va)"
  shows "\<exists>r s'. uvmdealloc t (page_va (length pas)) (page_va j) s1 = Ok (r, s') \<and>
    grow_post t j N newsz fp s pas 0 s'"
proof -
  obtain r s' where run: "uvmdealloc t (page_va (length pas)) (page_va j) s1 = Ok (r, s')"
    and post: "dealloc_post t j pas fp1 s1 s'"
    using uvmdealloc_pages [OF inv j(1)] by blast
  let ?fp = "rev (drop j pas) @ fp1"
  have pp: "uvm_inv ?fp s' t (take j pas)" "mem_only s1 s'" "pt_pages (mem s') 2 t = pt_pages (mem s1) 2 t"
    "unmapped_range (mem s1) (mem s') t (page_va j) (length pas - j)"
    and out: "\<And>x. PGROUNDDOWN x \<notin> pt_pages (mem s1) 2 t \<union> set (drop j pas) \<Longrightarrow> mem s' x = mem s1 x"
    using post by (auto simp: dealloc_post_def)
  have "set (take j pas) \<union> set (drop j pas) = set pas"
    using set_append [of "take j pas" "drop j pas"] by simp
  then have "all_pages ?fp s' t (take j pas) = all_pages fp1 s1 t pas"
    unfolding all_pages_def using pp(3) by auto
  then have ap': "all_pages ?fp s' t (take j pas) = all_pages fp s t pas" using ap by simp
  have fd: "freeable fp1 s1 t pas" using inv by (simp add: uvm_inv_def)
  have keep: "mem s' x = mem s x" if "PGROUNDDOWN x \<in> set (take j pas) \<or> PGROUNDDOWN x \<notin> all_pages fp s t pas" for x
  proof -
    have "PGROUNDDOWN x \<notin> pt_pages (mem s1) 2 t \<union> set (drop j pas)"
      using that set_take_disj_set_drop_if_distinct [of pas j j] fd
      unfolding ap [symmetric] by (auto simp: all_pages_def freeable_def dest: in_set_takeD in_set_dropD)
    then show ?thesis using out fr [OF that] by simp
  qed
  have bounds: "4096 * j < 2 ^ 64" using j by (simp add: MAXVA_eq)
  have ua: "unat (page_va j) + 4096 * (N - j) \<le> unat MAXVA"
    using j unat_page_va [OF bounds] by simp
  have none: "\<not> valid (pte_of (mem s') 2 t va)" if "in_pages (page_va j) (N - j) va" for va
    using in_pages_split [OF that j] pp(4) in_pages_MAXVA [OF that ua] unm [of va] pte
    by (auto simp: unmapped_range_def)
  have "pte_of (mem s') 2 t va = pte_of (mem s) 2 t va" if "va < MAXVA" "\<not> in_pages (page_va j) (N - j) va" for va
  proof -
    have "\<not> in_pages (page_va j) (length pas - j) va"
      using that(2) j in_pages_mono [of j "length pas - j" va j "N - j"] bounds by auto
    then show ?thesis using pp(4) pte that(1) by (simp add: unmapped_range_def)
  qed
  then have "grow_post t j N newsz fp s pas 0 s'"
    unfolding grow_post_def using pp(1) ap' mem_only_trans [OF mo pp(2)] keep none by blast
  then show ?thesis using run by blast
qed

lemma page_va_less_sz:
  assumes "newsz \<le> MAXVA" and "k \<le> npg newsz"
  shows "page_va k < newsz \<longleftrightarrow> k < npg newsz"
proof -
  have "4096 * npg newsz \<le> unat MAXVA" by (rule PGROUNDUP_page_va(2) [OF assms(1)])
  then have "unat (page_va k) = 4096 * k" using assms(2) by (intro unat_page_va) (simp add: MAXVA_eq)
  moreover have "4096 * k < n \<longleftrightarrow> k < (n + 4095) div 4096" for n :: nat
    using div_mult_mod_eq [of "n + 4095" 4096] mod_less_divisor [of 4096 "n + 4095"]
    by (auto simp: less_eq_div_iff_mult_less_eq Suc_le_eq [symmetric])
  ultimately show ?thesis by (simp add: word_less_nat_alt npg_def add.commute)
qed

lemma zero_page_fill: "page_aligned p \<Longrightarrow> PGROUNDDOWN x \<noteq> p \<Longrightarrow> memset p c PGSIZE m x = m x"
  by (simp add: memset_page)

lemma page_in_pages:
  assumes "PGROUNDDOWN va = page_va n" and "j \<le> n" and "n < N" and "PGSIZE * N \<le> unat MAXVA"
  shows "in_pages (page_va j) (N - j) va"
proof -
  have b: "4096 * n < 2 ^ 64" "4096 * j < 2 ^ 64" using assms by (simp_all add: MAXVA_eq)
  have "unat (page_va n) \<le> unat va \<and> unat va < unat (page_va n) + 4096"
    using assms(1) in_page_unat [OF page_aligned_page_va [OF b(1)]] by simp
  then show ?thesis using assms(2,3) b by (auto simp: in_pages_def unat_page_va)
qed

lemma grow_step_ok:
  assumes inv: "uvm_inv (p # us @ fp') s t pas" and n: "j \<le> length pas" "length pas < N" "PGSIZE * N \<le> unat MAXVA"
    and mo: "mem_only s s3" and pg: "pt_pages (mem s3) 2 t = pt_pages (mem s) 2 t \<union> set us"
    and out: "\<And>x. PGROUNDDOWN x \<notin> pt_pages (mem s) 2 t \<union> set us \<union> {p} \<Longrightarrow> mem s3 x = mem s x"
    and map: "mapped_range (mem s) (mem s3) t (page_va (length pas)) (Suc 0) p perm"
    and post: "grow_post t j N newsz fp' s3 (pas @ [p]) r s'"
  shows "grow_post t j N newsz (p # us @ fp') s pas r s'"
proof -
  let ?ap = "all_pages (p # us @ fp') s t pas"
  have ap: "all_pages fp' s3 t (pas @ [p]) = ?ap" using pg by (auto simp: all_pages_def)
  have tk: "take j (pas @ [p]) = take j pas" using n(1) by simp
  have fd: "freeable (p # us @ fp') s t pas" using inv by (simp add: uvm_inv_def)
  have fr: "mem s3 x = mem s x" if "PGROUNDDOWN x \<in> set (take j pas) \<or> PGROUNDDOWN x \<notin> ?ap" for x
  proof (rule out)
    show "PGROUNDDOWN x \<notin> pt_pages (mem s) 2 t \<union> set us \<union> {p}"
      using that fd by (auto simp: all_pages_def freeable_def dest: in_set_takeD)
  qed
  have n': "4096 * Suc (length pas) \<le> unat MAXVA" using n by simp
  have pte: "pte_of (mem s3) 2 t va = pte_of (mem s) 2 t va" if "va < MAXVA" "\<not> in_pages (page_va j) (N - j) va" for va
    using mapped_one [OF map n' that(1)] that(2) page_in_pages [OF _ n] by auto
  obtain fp'' pas' where g: "uvm_inv fp'' s' t pas'" "all_pages fp'' s' t pas' = ?ap" "mem_only s3 s'"
      "\<forall>va < MAXVA. \<not> in_pages (page_va j) (N - j) va \<longrightarrow> pte_of (mem s') 2 t va = pte_of (mem s3) 2 t va"
      "\<forall>x. PGROUNDDOWN x \<in> set (take j pas) \<or> PGROUNDDOWN x \<notin> ?ap \<longrightarrow> mem s' x = mem s3 x"
    and res: "r = newsz \<and> length pas' = N \<and> take (length (pas @ [p])) pas' = pas @ [p] \<and>
        (\<forall>x. PGROUNDDOWN x \<in> set (drop j pas') \<longrightarrow> mem s' x = 0) \<or>
      r = 0 \<and> pas' = take j pas \<and>
        (\<forall>va. in_pages (page_va j) (N - j) va \<longrightarrow> \<not> valid (pte_of (mem s') 2 t va))"
    using post unfolding grow_post_def ap tk by blast
  have "take (length pas) pas' = pas" if "take (length (pas @ [p])) pas' = pas @ [p]"
  proof -
    have "take (length pas) (take (length (pas @ [p])) pas') = take (length pas) pas'"
      by (simp add: min_def)
    then show ?thesis unfolding that by simp
  qed
  then have "r = newsz \<and> length pas' = N \<and> take (length pas) pas' = pas \<and>
        (\<forall>x. PGROUNDDOWN x \<in> set (drop j pas') \<longrightarrow> mem s' x = 0) \<or>
      r = 0 \<and> pas' = take j pas \<and>
        (\<forall>va. in_pages (page_va j) (N - j) va \<longrightarrow> \<not> valid (pte_of (mem s') 2 t va))"
    using res by argo
  moreover have "\<forall>va < MAXVA. \<not> in_pages (page_va j) (N - j) va \<longrightarrow> pte_of (mem s') 2 t va = pte_of (mem s) 2 t va"
    using g(4) pte by simp
  moreover have "\<forall>x. PGROUNDDOWN x \<in> set (take j pas) \<or> PGROUNDDOWN x \<notin> ?ap \<longrightarrow> mem s' x = mem s x"
    using g(5) fr by simp
  ultimately show ?thesis
    unfolding grow_post_def
    by (intro exI [of _ fp''] exI [of _ pas'] conjI g(1,2) mem_only_trans [OF mo g(3)])
qed

lemma grow_step_fail:
  assumes inv: "uvm_inv (p # us) s t pas" and n: "j \<le> length pas" "length pas < N" "PGSIZE * N \<le> unat MAXVA"
    and mo: "mem_only s s3" and pg: "pt_pages (mem s3) 2 t = pt_pages (mem s) 2 t \<union> set us"
    and out: "\<And>x. PGROUNDDOWN x \<notin> pt_pages (mem s) 2 t \<union> set us \<union> {p} \<Longrightarrow> mem s3 x = mem s x"
    and inv3: "uvm_inv [] s3 t pas" and pte: "\<forall>va < MAXVA. pte_of (mem s3) 2 t va = pte_of (mem s) 2 t va"
    and p: "ram_page s3 p" "p \<notin> pt_pages (mem s3) 2 t" "p \<notin> set pas"
    and unm: "\<And>va. in_pages (page_va (length pas)) (N - length pas) va \<Longrightarrow> \<not> valid (pte_of (mem s) 2 t va)"
  shows "\<exists>s'. sq (kfree p) (bnd (uvmdealloc t (page_va (length pas)) (page_va j)) (\<lambda>_. ret 0)) s3 = Ok (0, s') \<and>
    grow_post t j N newsz (p # us) s pas 0 s'"
proof -
  have pt3: "pt_inv [] s3 t" and fd: "freeable [] s3 t pas" using inv3 by (auto simp: uvm_inv_def)
  have "p \<notin> set []" by simp
  then obtain s4 where s4: "kfree p s3 = Ok ((), s4)" "pt_inv [p] s4 t" "mem_only s3 s4"
      "pt_pages (mem s4) 2 t = pt_pages (mem s3) 2 t" "pte_of (mem s4) 2 t = pte_of (mem s3) 2 t"
      "pte_addr (mem s4) 2 t = pte_addr (mem s3) 2 t"
      "\<forall>x. PGROUNDDOWN x \<noteq> p \<longrightarrow> mem s4 x = mem s3 x"
    using kfree_pt [OF pt3 p(1) _ p(2)] by blast
  have inv4: "uvm_inv [p] s4 t pas"
    by (rule uvm_inv_frame [OF inv3 s4(2,3)]) (use fd p(3) s4(4,5) in \<open>auto simp: freeable_def\<close>)
  have ap: "all_pages [p] s4 t pas = all_pages (p # us) s t pas" using s4(4) pg by (auto simp: all_pages_def)
  have fd0: "freeable (p # us) s t pas" using inv by (simp add: uvm_inv_def)
  have fr: "mem s4 x = mem s x" if "PGROUNDDOWN x \<in> set (take j pas) \<or> PGROUNDDOWN x \<notin> all_pages (p # us) s t pas" for x
  proof -
    have "PGROUNDDOWN x \<notin> pt_pages (mem s) 2 t \<union> set us \<union> {p}"
      using that fd0 by (auto simp: all_pages_def freeable_def dest: in_set_takeD)
    then show ?thesis using out [of x] s4(7) by simp
  qed
  have "\<exists>r s'. uvmdealloc t (page_va (length pas)) (page_va j) s4 = Ok (r, s') \<and>
      grow_post t j N newsz (p # us) s pas 0 s'"
    by (rule grow_fail [OF inv4 n(1) _ n(3) mem_only_trans [OF mo s4(3)] ap _ fr unm])
      (use n(2) pte s4(5) in auto)
  then show ?thesis using s4(1) by (auto simp: run_bnd)
qed

lemma uvmalloc_loop_ok:
  assumes "uvm_inv fp s t pas" and "j \<le> length pas" and "length pas \<le> npg newsz" and "newsz \<le> MAXVA"
    and "\<And>va. in_pages (page_va (length pas)) (npg newsz - length pas) va \<Longrightarrow> \<not> valid (pte_of (mem s) 2 t va)"
    and "\<And>x. PGROUNDDOWN x \<in> set (drop j pas) \<Longrightarrow> mem s x = 0" and "npg newsz - length pas < fuel"
  shows "\<exists>r s'. uvmalloc_loop fuel t (page_va j) (page_va (length pas)) newsz s = Ok (r, s') \<and>
    grow_post t j (npg newsz) newsz fp s pas r s'"
  using assms
proof (induction fuel arbitrary: fp s pas)
  case 0
  then show ?case by simp
next
  case (Suc fuel)
  let ?n = "length pas" and ?N = "npg newsz"
  let ?perm = "PTE_W OR PTE_X OR PTE_R OR PTE_U"
  have N: "4096 * ?N \<le> unat MAXVA" by (rule PGROUNDUP_page_va(2) [OF Suc.prems(4)])
  have less: "page_va ?n < newsz \<longleftrightarrow> ?n < ?N" by (rule page_va_less_sz [OF Suc.prems(4,3)])
  show ?case
  proof (cases "?n < ?N")
    case False
    then have "?n = ?N" using Suc.prems(3) by simp
    then have "grow_post t j ?N newsz fp s pas newsz s"
      using Suc.prems(1,6) unfolding grow_post_def by fastforce
    then show ?thesis using False less by simp
  next
    case True
    then have cond: "page_va ?n < newsz" using less by simp
    show ?thesis
    proof (cases fp)
      case Nil
      then have "kalloc s = Ok (0, s)"
        using Suc.prems(1) by (simp add: uvm_inv_def pt_inv_def kalloc_Nil)
      moreover obtain r s' where "uvmdealloc t (page_va ?n) (page_va j) s = Ok (r, s')"
          "grow_post t j ?N newsz fp s pas 0 s'"
        using grow_fail [OF Suc.prems(1-3) N, of s fp newsz] Suc.prems(5) by auto
      ultimately show ?thesis using cond by (auto simp: run_bnd)
    next
      case (Cons p fq)
      have pal: "page_aligned p"
        using Suc.prems(1) Cons by (auto simp: uvm_inv_def pt_inv_def kmem_inv_def ram_page_def)
      have inv: "uvm_inv (p # fq) s t pas" using Suc.prems(1) Cons by simp
      have n: "4096 * Suc ?n \<le> unat MAXVA" using True N by simp
      have unm: "\<not> valid (pte_of (mem s) 2 t (page_va ?n))"
        by (rule Suc.prems(5)) (use True n unat_page_va [of ?n] in \<open>simp add: in_pages_def MAXVA_eq\<close>)
      have fl: "unat ?perm < 2 ^ 10" "?perm OR PTE_V \<noteq> PTE_V"
        by (simp_all add: PTE_W_def PTE_X_def PTE_R_def PTE_U_def PTE_V_def)
      obtain s1 r us fp' s3 where post: "alloc_post t p ?perm (memset p 0 PGSIZE) fq s pas s1 r us fp' s3"
        using alloc_one [where f = "memset p 0 PGSIZE", OF inv n unm fl zero_page_fill [OF pal]] by blast
      have k: "kalloc s = Ok (p, s1)" "p \<noteq> 0"
        and m: "mappages t (page_va ?n) PGSIZE p ?perm (mem_update (memset p 0 PGSIZE) s1) = Ok (r, s3)"
        and fq: "fq = us @ fp'" and mo: "mem_only s s3"
        and pg: "pt_pages (mem s3) 2 t = pt_pages (mem s) 2 t \<union> set us"
        and out: "\<And>x. PGROUNDDOWN x \<notin> pt_pages (mem s) 2 t \<union> set us \<union> {p} \<Longrightarrow> mem s3 x = mem s x"
        and inp: "\<And>x. PGROUNDDOWN x = p \<Longrightarrow> mem s3 x = memset p 0 PGSIZE (mem s1) x"
        and res: "r = 0 \<and> uvm_inv fp' s3 t (pas @ [p]) \<and> mapped_range (mem s) (mem s3) t (page_va ?n) (Suc 0) p ?perm \<or>
          r = -1 \<and> fp' = [] \<and> uvm_inv [] s3 t pas \<and> (\<forall>va < MAXVA. pte_of (mem s3) 2 t va = pte_of (mem s) 2 t va) \<and>
           ram_page s3 p \<and> p \<notin> pt_pages (mem s3) 2 t \<and> p \<notin> set pas"
        using post unfolding alloc_post_def by blast+
      have run: "uvmalloc_loop (Suc fuel) t (page_va j) (page_va ?n) newsz s =
          (if r \<noteq> 0 then sq (kfree p) (bnd (uvmdealloc t (page_va ?n) (page_va j)) (\<lambda>_. ret 0))
           else uvmalloc_loop fuel t (page_va j) (page_va ?n + PGSIZE) newsz) s3"
        using cond k m by (simp add: run_bnd run_sq mem_set_def del: uvmalloc_loop.simps(1))
      have unm_next: "\<not> valid (pte_of (mem s3) 2 t va)"
        if "in_pages (page_va (Suc ?n)) (?N - Suc ?n) va" "mapped_range (mem s) (mem s3) t (page_va ?n) (Suc 0) p ?perm" for va
      proof -
        have b: "4096 * Suc ?n < 2 ^ 64" using n by (simp add: MAXVA_eq)
        have iv: "in_pages (page_va ?n) (?N - ?n) va"
          using in_pages_mono [OF that(1) _ _ b, of ?n "?N - ?n"] True by simp
        have b0: "4096 * ?n < 2 ^ 64" using b by simp
        have "unat (page_va ?n) + 4096 * (?N - ?n) \<le> unat MAXVA" using unat_page_va [OF b0] N True by simp
        with iv have "va < MAXVA" by (rule in_pages_MAXVA)
        moreover have "PGROUNDDOWN va \<noteq> page_va ?n"
          using that(1) unfolding in_page_unat [OF page_aligned_page_va [OF b0]]
          by (simp add: in_pages_def unat_page_va [OF b] unat_page_va [OF b0])
        ultimately show ?thesis using mapped_one [OF that(2) n] Suc.prems(5) [OF iv] by simp
      qed
      have zero_next: "mem s3 x = 0" if "PGROUNDDOWN x \<in> set (drop j pas) \<union> {p}" for x
      proof (cases "PGROUNDDOWN x = p")
        case True
        then show ?thesis using inp [OF True] pal by (simp add: memset_page)
      next
        case False
        then have "PGROUNDDOWN x \<in> set (drop j pas)" using that by simp
        moreover from this have "PGROUNDDOWN x \<notin> pt_pages (mem s) 2 t \<union> set us \<union> {p}"
          using inv fq False by (auto simp: uvm_inv_def freeable_def dest: in_set_dropD)
        ultimately show ?thesis using out Suc.prems(6) by simp
      qed
      show ?thesis
      proof (cases "r = 0")
        case True
        have "\<exists>r' s'. uvmalloc_loop fuel t (page_va j) (page_va (length (pas @ [p]))) newsz s3 = Ok (r', s') \<and>
            grow_post t j ?N newsz fp' s3 (pas @ [p]) r' s'"
        proof (rule Suc.IH)
          show "uvm_inv fp' s3 t (pas @ [p])" using res True by simp
          show "\<not> valid (pte_of (mem s3) 2 t va)" if "in_pages (page_va (length (pas @ [p]))) (?N - length (pas @ [p])) va" for va
            by (rule unm_next) (use res True that in simp_all)
          show "mem s3 x = 0" if "PGROUNDDOWN x \<in> set (drop j (pas @ [p]))" for x
            by (rule zero_next) (use that Suc.prems(2) in auto)
        qed (use Suc.prems \<open>?n < ?N\<close> in simp_all)
        then obtain r' s' where s': "uvmalloc_loop fuel t (page_va j) (page_va (Suc ?n)) newsz s3 = Ok (r', s')"
            "grow_post t j ?N newsz fp' s3 (pas @ [p]) r' s'" by auto
        have inv': "uvm_inv (p # us @ fp') s t pas" using inv fq by simp
        have map: "mapped_range (mem s) (mem s3) t (page_va ?n) (Suc 0) p ?perm" using res True by simp
        have "grow_post t j ?N newsz (p # us @ fp') s pas r' s'"
          by (rule grow_step_ok [OF inv' Suc.prems(2) \<open>?n < ?N\<close> N mo pg out map s'(2)])
        moreover have "uvmalloc_loop (Suc fuel) t (page_va j) (page_va ?n) newsz s = Ok (r', s')"
          unfolding run using True s'(1) by (simp add: page_va_Suc)
        ultimately show ?thesis using fq Cons by blast
      next
        case False
        have "\<exists>s'. sq (kfree p) (bnd (uvmdealloc t (page_va ?n) (page_va j)) (\<lambda>_. ret 0)) s3 = Ok (0, s') \<and>
            grow_post t j ?N newsz (p # us) s pas 0 s'"
        proof -
          have f: "fp' = []" "uvm_inv [] s3 t pas" "\<forall>va < MAXVA. pte_of (mem s3) 2 t va = pte_of (mem s) 2 t va"
              "ram_page s3 p" "p \<notin> pt_pages (mem s3) 2 t" "p \<notin> set pas"
            using res False by auto
          have inv': "uvm_inv (p # us) s t pas" using inv fq f(1) by simp
          show ?thesis
            by (rule grow_step_fail [OF inv' Suc.prems(2) \<open>?n < ?N\<close> N mo pg out f(2-6) Suc.prems(5)])
        qed
        moreover have "uvmalloc_loop (Suc fuel) t (page_va j) (page_va ?n) newsz s =
            sq (kfree p) (bnd (uvmdealloc t (page_va ?n) (page_va j)) (\<lambda>_. ret 0)) s3"
          unfolding run using False by simp
        moreover have "fp = p # us" using res False fq Cons by auto
        ultimately show ?thesis by auto
      qed
    qed
  qed
qed

section \<open>Properties\<close>

definition npages_of :: "uint64 \<Rightarrow> uint64 \<Rightarrow> nat" where
  "npages_of va sz = (unat va + unat sz - 1) div PGSIZE - unat va div PGSIZE + 1"

lemma pages_sum: "(i :: nat) \<le> j \<Longrightarrow> PGSIZE * i + PGSIZE * Suc (j - i) = PGSIZE * Suc j"
  by simp

lemma mappages_ok:
  assumes inv: "pt_inv fp s t" and sz: "sz \<noteq> 0" and le: "unat va + unat sz \<le> unat MAXVA"
    and unm: "\<And>v. in_pages (PGROUNDDOWN va) (npages_of va sz) v \<Longrightarrow> \<not> valid (pte_of (mem s) 2 t v)"
  shows "\<exists>r us fp' s'. mappages t va sz pa perm s = Ok (r, s') \<and>
    map_post t (PGROUNDDOWN va) (npages_of va sz) pa perm fp s r us fp' s'"
proof -
  let ?A = "unat va div 4096" and ?B = "(unat va + unat sz - 1) div 4096"
  have sz0: "0 < unat sz" using sz by (simp add: unat_gt_0)
  have small: "unat va + unat sz < 2 ^ 64" using le by (simp add: MAXVA_eq)
  have AB: "?A \<le> ?B" using sz0 by (intro div_le_mono) simp
  have "unat (va + sz - 1) = unat va + unat sz - 1"
  proof -
    have "unat (va + sz) = unat va + unat sz" using small by (simp add: unat_word_ariths)
    moreover have "va + sz \<noteq> 0" using sz0 calculation by (metis add_is_0 not_gr_zero unat_0)
    ultimately show ?thesis by (simp add: unat_minus_one)
  qed
  then have last: "PGROUNDDOWN (va + sz - 1) = page_va ?B"
  proof -
    assume u: "unat (va + sz - 1) = unat va + unat sz - 1"
    have "4096 * ?B < 2 ^ 64" using small times_div_less_eq_dividend [of 4096 "unat va + unat sz - 1"] by linarith
    then show ?thesis by (simp only: word_unat_eq_iff unat_PGROUNDDOWN u unat_page_va mult.commute)
  qed
  have b: "4096 * ?A < 2 ^ 64" "4096 * ?B < 2 ^ 64"
    using small times_div_less_eq_dividend [of 4096 "unat va"]
      times_div_less_eq_dividend [of 4096 "unat va + unat sz - 1"] by linarith+
  have first: "PGROUNDDOWN va = page_va ?A"
    using b(1) by (simp only: word_unat_eq_iff unat_PGROUNDDOWN unat_page_va mult.commute)
  have n: "npages_of va sz = Suc (?B - ?A)" by (simp add: npages_of_def)
  have d: "page_va ?B - page_va ?A = page_va (?B - ?A)" by (rule page_va_diff [OF AB])
  have "unat (page_va (?B - ?A)) div 4096 = ?B - ?A"
    using b(2) by (subst unat_page_va) simp_all
  moreover have "\<exists>r us fp' s'. mappages_loop (Suc (?B - ?A)) t (page_va ?A) (page_va ?B) pa perm s = Ok (r, s') \<and>
      map_post t (page_va ?A) (Suc (?B - ?A)) pa perm fp s r us fp' s'"
  proof (rule mappages_loop_ok [OF inv page_aligned_page_va [OF b(1)]])
    have "4096 * Suc ?B \<le> unat MAXVA"
    proof -
      have "?B < 2 ^ 26" using le sz0 by (simp add: MAXVA_eq less_mult_imp_div_less)
      then show ?thesis by (simp add: MAXVA_eq)
    qed
    then show "unat (page_va ?A) + PGSIZE * Suc (?B - ?A) \<le> unat MAXVA"
      unfolding unat_page_va [OF b(1)] pages_sum [OF AB] .
    show "page_va ?B = page_va ?A + of_nat (PGSIZE * (?B - ?A))"
      using page_va_add [of ?A "?B - ?A"] AB by (simp add: page_va_def)
  qed (use unm n first in simp_all)
  ultimately show ?thesis
    using sz unfolding mappages_def Let_def first last d n by (simp del: mappages_loop.simps)
qed

text \<open>
  C7. \<open>mappages\<close> over a range of unmapped user addresses either maps every page that the range
  touches, page by page to consecutive physical pages with the given permissions, and changes no
  other mapping, or returns -1 with no free page left; in both cases the page table stays a tree
  of allocatable pages disjoint from the free list.
\<close>

theorem mappages_maps_range:
  assumes "pt_inv fp s t" and "sz \<noteq> 0" and "unat va + unat sz \<le> unat MAXVA"
    and "\<forall>v. in_pages (PGROUNDDOWN va) (npages_of va sz) v \<longrightarrow> \<not> valid (pte_of (mem s) 2 t v)"
  shows "\<exists>r fp' s'. mappages t va sz pa perm s = Ok (r, s') \<and> pt_inv fp' s' t \<and>
    (r = 0 \<and> (\<forall>v < MAXVA. pte_of (mem s') 2 t v =
       (if in_pages (PGROUNDDOWN va) (npages_of va sz) v
        then PA2PTE (pa + (PGROUNDDOWN v - PGROUNDDOWN va)) OR perm OR PTE_V else pte_of (mem s) 2 t v)) \<or>
     r = -1 \<and> fp' = [])"
proof -
  obtain r us fp' s' where "mappages t va sz pa perm s = Ok (r, s')"
      "map_post t (PGROUNDDOWN va) (npages_of va sz) pa perm fp s r us fp' s'"
    using mappages_ok [of fp s t sz va pa perm] assms by blast
  then show ?thesis unfolding map_post_def mapped_range_def by blast
qed


text \<open>A page table with no mappings and three free pages, for the instances.\<close>

definition demo_state :: kmem where
  "demo_state = \<lparr>mem = write64 0x80302000 0x80303000 (write64 0x80301000 0x80302000 (\<lambda>_. 0)),
     freelist = 0x80301000, ld_end = 0x80300000, ld_etext = 0, ld_trampoline = 0\<rparr>"

abbreviation demo_free :: "uint64 list" where
  "demo_free \<equiv> [0x80301000, 0x80302000, 0x80303000]"

lemma demo_state_zero:
  assumes "PGROUNDDOWN a = 0x80300000"
  shows "mem demo_state a = 0"
proof -
  have "write64 p v m a = m a" if "page_aligned p" "p \<noteq> 0x80300000" for p v m
    using that assms by (intro write64_at_page) auto
  then show ?thesis by (simp add: demo_state_def page_aligned_def)
qed

lemma demo_state_inv: "uvm_inv demo_free demo_state 0x80300000 []"
  and demo_state_unmapped: "pte_of (mem demo_state) 2 0x80300000 = (\<lambda>_. 0)"
proof -
  have z: "pt_wf (mem demo_state) 2 0x80300000 \<and> pt_pages (mem demo_state) 2 0x80300000 = {0x80300000} \<and>
      pte_of (mem demo_state) 2 0x80300000 = (\<lambda>_. 0)"
    by (rule zero_table) (simp_all add: page_aligned_def demo_state_zero)
  then show "pte_of (mem demo_state) 2 0x80300000 = (\<lambda>_. 0)" by blast
  have "kmem_inv demo_free demo_state"
    by (simp add: kmem_inv_def demo_state_def ram_page_def page_aligned_def PHYSTOP_eq
        read64_write64_other aligned8_def read64_0)
  moreover have "ram_page demo_state 0x80300000"
    by (simp add: ram_page_def demo_state_def page_aligned_def PHYSTOP_eq)
  ultimately show "uvm_inv demo_free demo_state 0x80300000 []"
    using z by (simp add: uvm_inv_def pt_inv_def freeable_def)
qed

theorem mappages_maps_range_witness:
  "\<exists>r fp' s'. mappages 0x80300000 0x1000 0x2000 0x80400000 PTE_R demo_state = Ok (r, s') \<and> pt_inv fp' s' 0x80300000"
proof -
  have "pt_inv demo_free demo_state 0x80300000" using demo_state_inv by (simp add: uvm_inv_def)
  then have "\<exists>r fp' s'. mappages 0x80300000 0x1000 0x2000 0x80400000 PTE_R demo_state = Ok (r, s') \<and>
    pt_inv fp' s' 0x80300000 \<and>
    (r = 0 \<and> (\<forall>v < MAXVA. pte_of (mem s') 2 0x80300000 v =
       (if in_pages (PGROUNDDOWN 0x1000) (npages_of 0x1000 0x2000) v
        then PA2PTE (0x80400000 + (PGROUNDDOWN v - PGROUNDDOWN 0x1000)) OR PTE_R OR PTE_V
        else pte_of (mem demo_state) 2 0x80300000 v)) \<or>
     r = -1 \<and> fp' = [])"
    by (rule mappages_maps_range) (simp_all add: demo_state_unmapped MAXVA_eq)
  then show ?thesis by blast
qed


end
