(* ===== verification/Freewalk.thy ===== *)
theory Freewalk
  imports Usermem
begin

unbundle bit_operations_syntax

text \<open>
  \<open>freewalk\<close> of \<^verbatim>\<open>vm.c\<close>: on a page table with no mapping left it returns, and every page of the table
  is then free. \<open>pt_empty\<close> is what the code requires of the table: no valid level-0 entry, and no
  permission bit in an entry that points to a table.
\<close>

primrec pt_empty :: "memory \<Rightarrow> nat \<Rightarrow> uint64 \<Rightarrow> bool" where
  "pt_empty m 0 t \<longleftrightarrow> (\<forall>i < 512. \<not> valid (ent m t i))"
| "pt_empty m (Suc l) t \<longleftrightarrow> (\<forall>i < 512. valid (ent m t i) \<longrightarrow>
     ent m t i AND (PTE_R OR PTE_W OR PTE_X) = 0 \<and> pt_empty m l (PTE2PA (ent m t i)))"

lemma pt_empty_frame:
  assumes "pt_wf m l t" and "pt_empty m l t" and "\<And>a. PGROUNDDOWN a \<in> pt_pages m l t \<Longrightarrow> m' a = m a"
  shows "pt_empty m' l t"
  using assms
proof (induction l arbitrary: t)
  case 0
  then have "ent m' t i = ent m t i" if "i < 512" for i
    by (intro ent_cong [OF _ that]) auto
  then show ?case using 0 by simp
next
  case (Suc l)
  have e: "ent m' t i = ent m t i" if "i < 512" for i
    using Suc.prems by (intro ent_cong [OF _ that]) auto
  have "pt_empty m' l (PTE2PA (ent m t i))" if "i < 512" "valid (ent m t i)" for i
    using Suc.prems that by (intro Suc.IH) auto
  then show ?case using Suc.prems(2) e by simp
qed

section \<open>The loop over the entries of a table\<close>

definition children :: "memory \<Rightarrow> nat \<Rightarrow> uint64 \<Rightarrow> nat \<Rightarrow> uint64 set" where
  "children m l t n = (\<Union>j \<in> {j. j < 512 \<and> unat j < n \<and> valid (ent m t j)}. pt_pages m l (PTE2PA (ent m t j)))"

lemma children_Suc:
  assumes "n < 512"
  shows "children m l t (Suc n) = children m l t n \<union>
    (if valid (ent m t (of_nat n)) then pt_pages m l (PTE2PA (ent m t (of_nat n))) else {})"
proof -
  have u: "unat (of_nat n :: uint64) = n" using assms by (simp add: unat_of_nat take_bit_nat_eq_self)
  then have lt: "(of_nat n :: uint64) < 512" using assms by (simp add: word_less_nat_alt)
  have "unat j < Suc n \<longleftrightarrow> unat j < n \<or> j = of_nat n" for j :: uint64
    using u by (auto simp: less_Suc_eq word_unat_eq_iff)
  then have "{j. j < 512 \<and> unat j < Suc n \<and> valid (ent m t j)} =
      {j. j < 512 \<and> unat j < n \<and> valid (ent m t j)} \<union> (if valid (ent m t (of_nat n)) then {of_nat n} else {})"
    using lt by auto
  then show ?thesis unfolding children_def by (simp add: UN_Un)
qed

lemma children_all: "pt_pages m (Suc l) t = insert t (children m l t 512)"
  by (auto simp: children_def word_less_nat_alt)

lemma child_disjoint:
  assumes "pt_wf m (Suc l) t" and "n < 512" and "valid (ent m t (of_nat n))"
  shows "pt_pages m l (PTE2PA (ent m t (of_nat n))) \<inter> children m l t n = {}"
proof -
  have u: "unat (of_nat n :: uint64) = n" using assms(2) by (simp add: unat_of_nat take_bit_nat_eq_self)
  then have lt: "(of_nat n :: uint64) < 512" using assms(2) by (simp add: word_less_nat_alt)
  have "pt_pages m l (PTE2PA (ent m t (of_nat n))) \<inter> pt_pages m l (PTE2PA (ent m t j)) = {}"
    if "j < 512" "unat j < n" "valid (ent m t j)" for j
  proof -
    have "j \<noteq> of_nat n" using that(2) u by auto
    then show ?thesis using assms(1,3) lt that by simp
  qed
  then show ?thesis unfolding children_def by blast
qed

lemma children_not_root: "pt_wf m (Suc l) t \<Longrightarrow> t \<notin> children m l t n"
  by (auto simp: children_def)

definition fw_inv :: "memory \<Rightarrow> nat \<Rightarrow> uint64 \<Rightarrow> uint64 list \<Rightarrow> 'x kmem_scheme \<Rightarrow> nat \<Rightarrow> 'x kmem_scheme \<Rightarrow> bool" where
  "fw_inv m l t fp s n u \<longleftrightarrow> (\<exists>fq. kmem_inv fq u \<and> set fq = set fp \<union> children m l t n) \<and> mem_only s u \<and>
     (\<forall>j < 512. n \<le> unat j \<longrightarrow> ent (mem u) t j = ent m t j) \<and>
     (\<forall>x. PGROUNDDOWN x \<noteq> t \<longrightarrow> PGROUNDDOWN x \<notin> children m l t n \<longrightarrow> mem u x = m x)"

definition fw_post :: "nat \<Rightarrow> uint64 \<Rightarrow> uint64 list \<Rightarrow> 'x kmem_scheme \<Rightarrow> 'x kmem_scheme \<Rightarrow> bool" where
  "fw_post l t fp s u \<longleftrightarrow> (\<exists>fq. kmem_inv fq u \<and> set fq = set fp \<union> pt_pages (mem s) l t) \<and> mem_only s u \<and>
     (\<forall>x. PGROUNDDOWN x \<notin> pt_pages (mem s) l t \<longrightarrow> mem u x = mem s x)"

lemma fw_step:
  assumes wf: "pt_wf (mem s) (Suc l) t" and em: "pt_empty (mem s) (Suc l) t" and n: "n < 512"
    and fp: "pt_pages (mem s) (Suc l) t \<inter> set fp = {}" and ram: "\<forall>p \<in> pt_pages (mem s) (Suc l) t. ram_page s p"
    and inv: "fw_inv (mem s) l t fp s n u"
    and rec: "\<And>c fq u. kmem_inv fq u \<Longrightarrow> pt_wf (mem u) l c \<Longrightarrow> pt_empty (mem u) l c \<Longrightarrow>
      pt_pages (mem u) l c \<inter> set fq = {} \<Longrightarrow> \<forall>p \<in> pt_pages (mem u) l c. ram_page u p \<Longrightarrow>
      \<exists>u'. free c u = Ok ((), u') \<and> fw_post l c fq u u'"
  shows "\<exists>u'. bnd (load64 (t + 8 * of_nat n)) (\<lambda>pte.
      if pte AND PTE_V \<noteq> 0 \<and> pte AND (PTE_R OR PTE_W OR PTE_X) = 0
      then sq (free (PTE2PA pte)) (store64 (t + 8 * of_nat n) 0)
      else if pte AND PTE_V \<noteq> 0 then panic ''freewalk: leaf'' else ret ()) u = Ok ((), u') \<and>
    fw_inv (mem s) l t fp s (Suc n) u'"
proof -
  let ?m = "mem s" and ?j = "of_nat n :: uint64"
  let ?e = "ent ?m t ?j"
  let ?c = "PTE2PA ?e"
  have un: "unat ?j = n" using n by (simp add: unat_of_nat take_bit_nat_eq_self)
  have j: "?j < 512" using un n by (simp add: word_less_nat_alt)
  obtain fq where fq: "kmem_inv fq u" "set fq = set fp \<union> children ?m l t n" and mo: "mem_only s u"
    and es: "\<And>j. j < 512 \<Longrightarrow> n \<le> unat j \<Longrightarrow> ent (mem u) t j = ent ?m t j"
    and fr: "\<And>x. PGROUNDDOWN x \<noteq> t \<Longrightarrow> PGROUNDDOWN x \<notin> children ?m l t n \<Longrightarrow> mem u x = ?m x"
    using inv by (auto simp: fw_inv_def)
  have e: "read64 (mem u) (t + 8 * ?j) = ?e" using es [OF j] un by (simp add: ent_def)
  show ?thesis
  proof (cases "valid ?e")
    case False
    then have "fw_inv ?m l t fp s (Suc n) u"
      using inv children_Suc [OF n, of ?m l t] by (auto simp: fw_inv_def)
    then show ?thesis using False e by (simp add: run_bnd load64_def and_PTE_V_valid)
  next
    case True
    have c: "pt_wf ?m l ?c" "t \<notin> pt_pages ?m l ?c" "?e AND (PTE_R OR PTE_W OR PTE_X) = 0" "pt_empty ?m l ?c"
      using wf em j True by simp_all
    have sub: "pt_pages ?m l ?c \<subseteq> pt_pages ?m (Suc l) t" using pages_child [OF j True] .
    have dj: "pt_pages ?m l ?c \<inter> children ?m l t n = {}" by (rule child_disjoint [OF wf n True])
    have same: "mem u x = ?m x" if "PGROUNDDOWN x \<in> pt_pages ?m l ?c" for x
      using fr [of x] that c(2) dj by blast
    note pf = pt_frame [OF c(1) same]
    have pg: "pt_pages (mem u) l ?c = pt_pages ?m l ?c" using pf by blast
    have "\<exists>u'. free ?c u = Ok ((), u') \<and> fw_post l ?c fq u u'"
    proof (rule rec [OF fq(1)])
      show "pt_wf (mem u) l ?c" using pf by blast
      show "pt_empty (mem u) l ?c" by (rule pt_empty_frame [OF c(1,4) same])
      show "pt_pages (mem u) l ?c \<inter> set fq = {}" unfolding pg fq(2) using sub fp dj by blast
      show "\<forall>p \<in> pt_pages (mem u) l ?c. ram_page u p"
        unfolding pg using sub ram mem_only_ram_page [OF mo] by auto
    qed
    then obtain u1 fq1 where run: "free ?c u = Ok ((), u1)" and fq1: "kmem_inv fq1 u1"
        "set fq1 = set fq \<union> pt_pages ?m l ?c" and mo1: "mem_only u u1"
      and out1: "\<And>x. PGROUNDDOWN x \<notin> pt_pages ?m l ?c \<Longrightarrow> mem u1 x = mem u x"
      unfolding fw_post_def pg by blast
    let ?u2 = "mem_update (write64 (t + 8 * ?j) 0) u1"
    have al: "page_aligned t" by (rule pt_wf_aligned [OF wf])
    have w: "write64 (t + 8 * ?j) 0 (mem u1) x = mem u1 x" if "PGROUNDDOWN x \<noteq> t" for x
      using that by (intro write64_page_other) (simp_all add: entry_aligned8 [OF al j] entry_in_page [OF al j])
    have tn: "t \<notin> set fq1"
      unfolding fq1(2) fq(2) using c(2) children_not_root [OF wf] fp root_in_pages [of t ?m "Suc l"] by blast
    have k2: "kmem_inv fq1 ?u2" by (rule kmem_inv_mem [OF fq1(1)]) (use w tn in metis)
    have "set fq1 = set fp \<union> children ?m l t (Suc n)"
      unfolding fq1(2) fq(2) children_Suc [OF n] using True by auto
    moreover have "mem_only s ?u2" using mem_only_trans [OF mo mem_only_trans [OF mo1]] by simp
    moreover have "ent (mem ?u2) t i = ent ?m t i" if i: "i < 512" "Suc n \<le> unat i" for i
    proof -
      have "t + 8 * ?j \<noteq> t + 8 * i" using entry_inj [OF al al j i(1)] un i(2) by auto
      then have "ent (mem ?u2) t i = ent (mem u1) t i"
        using entry_aligned8 [OF al i(1)] entry_aligned8 [OF al j] by (simp add: ent_def read64_write64_other)
      also have "\<dots> = ent (mem u) t i" by (rule ent_cong [OF al i(1)]) (use out1 c(2) in metis)
      also have "\<dots> = ent ?m t i" using es i by simp
      finally show ?thesis .
    qed
    moreover have "mem ?u2 x = ?m x" if "PGROUNDDOWN x \<noteq> t" "PGROUNDDOWN x \<notin> children ?m l t (Suc n)" for x
      using that w [of x] out1 [of x] fr [of x] True unfolding children_Suc [OF n] by simp
    ultimately have "fw_inv ?m l t fp s (Suc n) ?u2" using k2 unfolding fw_inv_def by blast
    then show ?thesis
      using True e c(3) run by (simp add: run_bnd run_sq load64_def store64_def and_PTE_V_valid)
  qed
qed

lemma freewalk_rec_ok:
  assumes "kmem_inv fp s" and "pt_wf (mem s) l t" and "pt_empty (mem s) l t"
    and "pt_pages (mem s) l t \<inter> set fp = {}" and "\<forall>p \<in> pt_pages (mem s) l t. ram_page s p" and "l < depth"
  shows "\<exists>s'. freewalk_rec depth t s = Ok ((), s') \<and> fw_post l t fp s s'"
  using assms
proof (induction l arbitrary: t fp s depth)
  case 0
  then obtain d where d: "depth = Suc d" by (cases depth) auto
  have loop: "\<exists>s'. for_each [0..<512] (\<lambda>i. bnd (load64 (t + 8 * of_nat i)) (\<lambda>pte.
             if pte AND PTE_V \<noteq> 0 \<and> pte AND (PTE_R OR PTE_W OR PTE_X) = 0 then
               sq (freewalk_rec d (PTE2PA pte)) (store64 (t + 8 * of_nat i) 0)
             else if pte AND PTE_V \<noteq> 0 then panic ''freewalk: leaf'' else ret ())) s = Ok ((), s') \<and> s' = s"
  proof (rule for_each_upt [where I = "\<lambda>i u. u = s"])
    fix i u assume i: "i < (512 :: nat)" and u: "u = s"
    have "(of_nat i :: uint64) < 512" using i by (simp add: word_less_nat_alt unat_of_nat take_bit_nat_eq_self)
    then have "\<not> valid (ent (mem s) t (of_nat i))" using 0(3) by simp
    then show "\<exists>t'. bnd (load64 (t + 8 * of_nat i)) (\<lambda>pte.
             if pte AND PTE_V \<noteq> 0 \<and> pte AND (PTE_R OR PTE_W OR PTE_X) = 0 then
               sq (freewalk_rec d (PTE2PA pte)) (store64 (t + 8 * of_nat i) 0)
             else if pte AND PTE_V \<noteq> 0 then panic ''freewalk: leaf'' else ret ()) u = Ok ((), t') \<and> t' = s"
      using u by (simp add: run_bnd load64_def and_PTE_V_valid ent_def)
  qed simp
  have "t \<notin> set fp" "ram_page s t" "page_aligned t" using 0 by simp_all
  note kf = kfree_push [OF 0(1) this(2,1)]
  have "fw_post 0 t fp s (s\<lparr>mem := write64 t (freelist s) (memset t 1 PGSIZE (mem s)), freelist := t\<rparr>)"
    unfolding fw_post_def using kf(2) \<open>page_aligned t\<close>
    by (auto simp: write64_at_page memset_page)
  then show ?case using d loop kf(1) by (auto simp: run_sq)
next
  case (Suc l)
  then obtain d where d: "depth = Suc d" "l < d" by (cases depth) auto
  let ?m = "mem s"
  let ?body = "\<lambda>i. bnd (load64 (t + 8 * of_nat i)) (\<lambda>pte.
      if pte AND PTE_V \<noteq> 0 \<and> pte AND (PTE_R OR PTE_W OR PTE_X) = 0
      then sq (freewalk_rec d (PTE2PA pte)) (store64 (t + 8 * of_nat i) 0)
      else if pte AND PTE_V \<noteq> 0 then panic ''freewalk: leaf'' else ret ())"
  have start: "fw_inv ?m l t fp s 0 s" using Suc.prems(1) by (auto simp: fw_inv_def children_def)
  have "\<exists>u. for_each [0..<512] ?body s = Ok ((), u) \<and> fw_inv ?m l t fp s 512 u"
  proof (rule for_each_upt [where I = "fw_inv ?m l t fp s", OF start])
    fix i u assume "i < (512 :: nat)" and "fw_inv ?m l t fp s i u"
    then show "\<exists>u'. ?body i u = Ok ((), u') \<and> fw_inv ?m l t fp s (Suc i) u'"
      by (intro fw_step [OF Suc.prems(2,3) _ Suc.prems(4,5)] Suc.IH d(2))
  qed
  then obtain u fq where u: "for_each [0..<512] ?body s = Ok ((), u)" and fq: "kmem_inv fq u"
      "set fq = set fp \<union> children ?m l t 512" "mem_only s u"
    and fr: "\<And>x. PGROUNDDOWN x \<noteq> t \<Longrightarrow> PGROUNDDOWN x \<notin> children ?m l t 512 \<Longrightarrow> mem u x = ?m x"
    unfolding fw_inv_def by blast
  have tn: "t \<notin> set fq" unfolding fq(2)
    using children_not_root [OF Suc.prems(2)] Suc.prems(4) root_in_pages [of t ?m "Suc l"] by blast
  have ram: "ram_page u t" using Suc.prems(5) root_in_pages mem_only_ram_page [OF fq(3)] by simp
  then have al: "page_aligned t" by (simp add: ram_page_def)
  note kf = kfree_push [OF fq(1) ram tn]
  let ?u' = "u\<lparr>mem := write64 t (freelist u) (memset t 1 PGSIZE (mem u)), freelist := t\<rparr>"
  have "set (t # fq) = set fp \<union> pt_pages ?m (Suc l) t" unfolding children_all using fq(2) by auto
  moreover have "mem ?u' x = ?m x" if "PGROUNDDOWN x \<notin> pt_pages ?m (Suc l) t" for x
  proof -
    have "PGROUNDDOWN x \<noteq> t" "PGROUNDDOWN x \<notin> children ?m l t 512" using that unfolding children_all by auto
    then show ?thesis using fr [of x] al by (simp add: write64_at_page memset_page)
  qed
  moreover have "mem_only s ?u'" using mem_only_trans [OF fq(3)] by simp
  ultimately have "fw_post (Suc l) t fp s ?u'" unfolding fw_post_def using kf(2) by blast
  then show ?case using d(1) u kf(1) by (auto simp: run_sq)
qed

text \<open>
  C9. \<open>freewalk\<close> of a page table from which all mappings have been removed returns, and afterwards
  the free list holds exactly the pages that were free before together with all pages of the
  table, each once; no other memory changes.
\<close>

theorem freewalk_frees_the_table:
  assumes "pt_inv fp s t" and "pt_empty (mem s) 2 t"
  shows "\<exists>s' fp'. freewalk t s = Ok ((), s') \<and> kmem_inv fp' s' \<and> distinct fp' \<and>
    set fp' = set fp \<union> pt_pages (mem s) 2 t \<and>
    (\<forall>x. PGROUNDDOWN x \<notin> pt_pages (mem s) 2 t \<longrightarrow> mem s' x = mem s x)"
proof -
  have "\<exists>s'. freewalk_rec (2 ^ 52) t s = Ok ((), s') \<and> fw_post 2 t fp s s'"
    using assms by (intro freewalk_rec_ok) (simp_all add: pt_inv_def)
  then obtain s' fp' where s': "freewalk_rec (2 ^ 52) t s = Ok ((), s')" "kmem_inv fp' s'"
      "set fp' = set fp \<union> pt_pages (mem s) 2 t"
      "\<forall>x. PGROUNDDOWN x \<notin> pt_pages (mem s) 2 t \<longrightarrow> mem s' x = mem s x"
    unfolding fw_post_def by blast
  have "distinct fp'" using s'(2) by (simp add: kmem_inv_def)
  then show ?thesis using s' unfolding freewalk_def by blast
qed

theorem freewalk_frees_the_table_witness:
  "\<exists>s' fp'. freewalk 0x80300000 demo_state = Ok ((), s') \<and> kmem_inv fp' s' \<and>
     set fp' = {0x80300000, 0x80301000, 0x80302000, 0x80303000}"
proof -
  have z: "pt_pages (mem demo_state) 2 0x80300000 = {0x80300000}"
    using zero_table [of "0x80300000" "mem demo_state" 2] by (simp add: page_aligned_def demo_state_zero)
  have "ent (mem demo_state) 0x80300000 i = 0" if "i < 512" for i
    unfolding ent_def
    by (rule read64_0) (use that in \<open>simp add: demo_state_zero aligned8_page entry_aligned8 entry_in_page page_aligned_def\<close>)
  then have "pt_empty (mem demo_state) 2 0x80300000" by (simp add: numeral_2_eq_2)
  moreover have "pt_inv demo_free demo_state 0x80300000" using demo_state_inv by (simp add: uvm_inv_def)
  ultimately have "\<exists>s' fp'. freewalk 0x80300000 demo_state = Ok ((), s') \<and> kmem_inv fp' s' \<and> distinct fp' \<and>
    set fp' = set demo_free \<union> pt_pages (mem demo_state) 2 0x80300000 \<and>
    (\<forall>x. PGROUNDDOWN x \<notin> pt_pages (mem demo_state) 2 0x80300000 \<longrightarrow> mem s' x = mem demo_state x)"
    by (intro freewalk_frees_the_table)
  then show ?thesis unfolding z by auto
qed

end
