(* ===== verification/Copyuser.thy ===== *)
theory Copyuser
  imports Walk
begin

unbundle bit_operations_syntax

text \<open>
  \<open>copyout\<close>, \<open>copyin\<close> and \<open>copyinstr\<close> of \<^verbatim>\<open>vm.c\<close>: user memory seen through a page table. \<open>phys m t va\<close> is
  the physical address of user address \<open>va\<close>, and \<open>uaccess m t va n\<close> says that the \<open>n\<close> bytes at \<open>va\<close>
  are mapped for the user to pages that are not shared with one another nor with the page table.
  Then \<open>copyout\<close> writes exactly these bytes, \<open>copyin\<close> reads them, and what was copied out is what is
  copied in.
\<close>

section \<open>User addresses\<close>

definition phys :: "memory \<Rightarrow> uint64 \<Rightarrow> uint64 \<Rightarrow> uint64" where
  "phys m t va = PTE2PA (pte_of m 2 t va) + (va - PGROUNDDOWN va)"

definition in_range :: "uint64 \<Rightarrow> nat \<Rightarrow> uint64 \<Rightarrow> bool" where
  "in_range va n v \<longleftrightarrow> unat va \<le> unat v \<and> unat v < unat va + n"

definition user_pte :: "uint64 \<Rightarrow> bool" where
  "user_pte e \<longleftrightarrow> valid e \<and> bit e 4 \<and> PTE2PA e \<noteq> 0"

definition uaccess :: "memory \<Rightarrow> uint64 \<Rightarrow> uint64 \<Rightarrow> nat \<Rightarrow> bool" where
  "uaccess m t va n \<longleftrightarrow> pt_wf m 2 t \<and> 0 \<notin> pt_pages m 2 t \<and> unat va + n \<le> unat MAXVA \<and>
     (\<forall>v. in_range va n v \<longrightarrow> user_pte (pte_of m 2 t v) \<and> PTE2PA (pte_of m 2 t v) \<notin> pt_pages m 2 t) \<and>
     (\<forall>v w. in_range va n v \<longrightarrow> in_range va n w \<longrightarrow> PTE2PA (pte_of m 2 t v) = PTE2PA (pte_of m 2 t w) \<longrightarrow>
        PGROUNDDOWN v = PGROUNDDOWN w)"

lemma page_offset_less: "unat (va - PGROUNDDOWN va) < PGSIZE"
  using PGROUNDDOWN_in_page [of "PGROUNDDOWN va" va] by simp

lemma phys_page: "PGROUNDDOWN (phys m t va) = PTE2PA (pte_of m 2 t va)"
  using PGROUNDDOWN_offset [OF page_aligned_PTE2PA page_offset_less [of va], of "pte_of m 2 t va"]
  by (simp add: phys_def)

lemma phys_inj:
  assumes "uaccess m t va n" and "in_range va n v" and "in_range va n w" and "phys m t v = phys m t w"
  shows "v = w"
proof -
  have pa: "PTE2PA (pte_of m 2 t v) = PTE2PA (pte_of m 2 t w)"
    using phys_page [of m t v] phys_page [of m t w] assms(4) by simp
  then have "PGROUNDDOWN v = PGROUNDDOWN w" using assms(1-3) unfolding uaccess_def by blast
  then show ?thesis using assms(4) pa by (simp add: phys_def)
qed

text \<open>The bytes of one iteration lie in one page.\<close>

lemma page_chunk_le: "page_chunk va len \<le> len"
  by (simp add: page_chunk_def)

lemma chunk_address:
  assumes "i < page_chunk va len"
  shows "PGROUNDDOWN (va + of_nat i) = PGROUNDDOWN va"
proof -
  let ?off = "unat (va - PGROUNDDOWN va)"
  have "?off + i < 4096" using assms unfolding page_chunk_def by linarith
  then have "PGROUNDDOWN (PGROUNDDOWN va + of_nat (?off + i)) = PGROUNDDOWN va"
    by (intro PGROUNDDOWN_offset) simp_all
  then show ?thesis by (simp add: algebra_simps)
qed

lemma same_page_pte: "PGROUNDDOWN va' = PGROUNDDOWN va \<Longrightarrow> pte_of m l t va' = pte_of m l t va"
  using pte_addr_same_page [of va' va m l t] by (simp add: pte_of_def)

lemma chunk_phys: "i < page_chunk va len \<Longrightarrow> phys m t (va + of_nat i) = phys m t va + of_nat i"
  using chunk_address [of i va len] same_page_pte [OF chunk_address, of i va len m 2 t]
  by (simp add: phys_def algebra_simps)

lemma chunk_next:
  assumes "page_chunk va len < len"
  shows "PGROUNDDOWN va + PGSIZE = va + of_nat (page_chunk va len)"
proof -
  have "page_chunk va len = 4096 - unat (va - PGROUNDDOWN va)"
    using assms by (auto simp: page_chunk_def min_def split: if_splits)
  then have "of_nat (page_chunk va len) = (PGSIZE :: uint64) - (va - PGROUNDDOWN va)"
    using page_offset_less [of va] by (simp add: of_nat_diff)
  then show ?thesis by simp
qed

lemma unat_in_range:
  assumes "unat va + n \<le> unat MAXVA" and "i < n"
  shows "unat (va + of_nat i) = unat va + i" and "in_range va n (va + of_nat i)"
proof -
  have "unat va + n \<le> 2 ^ 64" using assms(1) by (simp add: MAXVA_eq)
  then show "unat (va + of_nat i) = unat va + i" using assms(2) by (rule unat_region)
  then show "in_range va n (va + of_nat i)" using assms(2) by (simp add: in_range_def)
qed

lemma in_rangeE:
  assumes "in_range va n v"
  obtains i where "i < n" and "v = va + of_nat i"
proof -
  have le: "unat va \<le> unat v" using assms by (simp add: in_range_def)
  have "v = va + of_nat (unat v - unat va)" using le by (simp add: of_nat_diff)
  moreover have "unat v - unat va < n" using assms unfolding in_range_def by linarith
  ultimately show thesis by (rule that [rotated])
qed

section \<open>Access after a change of other memory\<close>

lemma uaccess_frame:
  assumes "uaccess m t va n" and "\<And>x. PGROUNDDOWN x \<in> pt_pages m 2 t \<Longrightarrow> m' x = m x"
  shows "uaccess m' t va n" and "pte_of m' 2 t = pte_of m 2 t" and "pt_pages m' 2 t = pt_pages m 2 t"
proof -
  have wf: "pt_wf m 2 t" using assms(1) by (simp add: uaccess_def)
  show p: "pte_of m' 2 t = pte_of m 2 t" by (rule pte_of_frame [OF wf assms(2)])
  show "pt_pages m' 2 t = pt_pages m 2 t" using pt_frame [OF wf assms(2)] by blast
  then show "uaccess m' t va n" 
    using assms(1) pt_frame [OF wf assms(2)] p unfolding uaccess_def by metis
qed

lemma uaccess_rest:
  assumes "uaccess m t va n" and "k \<le> n"
  shows "uaccess m t (va + of_nat k) (n - k)"
proof (cases "k = n")
  case True
  have "unat (va + of_nat n) = unat va + n"
    using assms(1) unat_region [of va "Suc n" n] by (simp add: uaccess_def MAXVA_eq)
  then show ?thesis using assms(1) True by (simp add: uaccess_def in_range_def)
next
  case False
  have "unat (va + of_nat k) = unat va + k"
    using unat_in_range(1) [of va n k] assms False by (simp add: uaccess_def)
  then have "in_range (va + of_nat k) (n - k) v \<Longrightarrow> in_range va n v" for v
    using assms(2) by (auto simp: in_range_def)
  moreover have "unat (va + of_nat k) + (n - k) \<le> unat MAXVA"
    using assms \<open>unat (va + of_nat k) = unat va + k\<close> by (simp add: uaccess_def)
  ultimately show ?thesis
    using assms(1) unfolding uaccess_def by blast
qed

lemma uaccess_walkaddr:
  assumes "uaccess (mem s) t va n" and "0 < n"
  shows "walkaddr t (PGROUNDDOWN va) s = Ok (PTE2PA (pte_of (mem s) 2 t va), s)"
    and "PTE2PA (pte_of (mem s) 2 t va) \<noteq> 0"
proof -
  have "in_range va n va" using assms(2) by (simp add: in_range_def)
  then have e: "user_pte (pte_of (mem s) 2 t va)" using assms(1) by (simp add: uaccess_def)
  have "PGROUNDDOWN va < MAXVA"
    using PGROUNDDOWN_le [of va] assms by (simp add: uaccess_def word_le_nat_alt word_less_nat_alt)
  moreover have "pte_of (mem s) 2 t (PGROUNDDOWN va) = pte_of (mem s) 2 t va"
    by (rule same_page_pte) (use page_aligned_PGROUNDDOWN [of va] in \<open>simp add: page_aligned_iff\<close>)
  ultimately show "walkaddr t (PGROUNDDOWN va) s = Ok (PTE2PA (pte_of (mem s) 2 t va), s)"
    using assms(1) e by (simp add: walkaddr_eq uaccess_def user_pte_def)
  show "PTE2PA (pte_of (mem s) 2 t va) \<noteq> 0" using e by (simp add: user_pte_def)
qed

section \<open>Copying in\<close>

lemma map_upt_split: "k \<le> n \<Longrightarrow> map f [0..<k] @ map (\<lambda>i. f (k + i)) [0..<n - k] = map f [0..<n]"
  by (rule nth_equalityI) (auto simp: nth_append)

lemma copyin_ok:
  "uaccess (mem s) t va n \<Longrightarrow>
    copyin t va n s = Ok ((0, map (\<lambda>i. mem s (phys (mem s) t (va + of_nat i))) [0..<n]), s)"
proof (induction n arbitrary: va rule: less_induct)
  case (less n)
  show ?case
  proof (cases "n = 0")
    case True
    then show ?thesis by (subst copyin.simps) simp
  next
    case False
    let ?k = "page_chunk va n" and ?m = "mem s"
    have k: "0 < ?k" "?k \<le> n" using False by (simp_all add: page_chunk_pos page_chunk_le)
    note wa = uaccess_walkaddr [OF less.prems]
    define f where "f i = ?m (phys ?m t (va + of_nat i))" for i
    have "mem_bytes ?m (phys ?m t va) ?k = map f [0..<?k]"
      by (simp add: mem_bytes_def f_def chunk_phys)
    then have here: "mem_bytes ?m (PTE2PA (pte_of ?m 2 t va) + (va - PGROUNDDOWN va)) ?k = map f [0..<?k]"
      by (simp add: phys_def [of ?m t va])
    have rest: "copyin t (PGROUNDDOWN va + PGSIZE) (n - ?k) s = Ok ((0, map (\<lambda>i. f (?k + i)) [0..<n - ?k]), s)"
    proof (cases "?k = n")
      case True
      then show ?thesis by (subst copyin.simps) simp
    next
      case False
      then have lt: "?k < n" using k by simp
      then have "copyin t (va + of_nat ?k) (n - ?k) s =
          Ok ((0, map (\<lambda>i. ?m (phys ?m t (va + of_nat ?k + of_nat i))) [0..<n - ?k]), s)"
        using k uaccess_rest [OF less.prems, of ?k] by (intro less.IH) simp_all
      then show ?thesis using chunk_next [OF lt] by (simp add: add.assoc f_def)
    qed
    have "copyin t va n s = Ok ((0, map f [0..<?k] @ map (\<lambda>i. f (?k + i)) [0..<n - ?k]), s)"
      using False wa here rest by (subst copyin.simps) (simp add: Let_def run_bnd)
    also have "map f [0..<?k] @ map (\<lambda>i. f (?k + i)) [0..<n - ?k] = map f [0..<n]"
      by (rule map_upt_split) (rule k)
    finally show ?thesis by (simp add: f_def)
  qed
qed

section \<open>Copying out\<close>

definition copied :: "memory \<Rightarrow> memory \<Rightarrow> uint64 \<Rightarrow> uint64 \<Rightarrow> uint8 list \<Rightarrow> bool" where
  "copied m m' t va src \<longleftrightarrow>
     (\<forall>i < length src. m' (phys m t (va + of_nat i)) = src ! i) \<and>
     (\<forall>x. (\<forall>i < length src. x \<noteq> phys m t (va + of_nat i)) \<longrightarrow> m' x = m x)"

lemma copied_pt:
  assumes "uaccess m t va (length src)" and "copied m m' t va src"
  shows "uaccess m' t va (length src)" and "pte_of m' 2 t = pte_of m 2 t" and "pt_pages m' 2 t = pt_pages m 2 t"
proof -
  have "m' x = m x" if "PGROUNDDOWN x \<in> pt_pages m 2 t" for x
  proof -
    have "x \<noteq> phys m t (va + of_nat i)" if i: "i < length src" for i
    proof
      assume "x = phys m t (va + of_nat i)"
      then have "PTE2PA (pte_of m 2 t (va + of_nat i)) \<in> pt_pages m 2 t"
        using \<open>PGROUNDDOWN x \<in> pt_pages m 2 t\<close> by (simp add: phys_page)
      moreover have "in_range va (length src) (va + of_nat i)"
        using unat_in_range(2) i assms(1) by (simp add: uaccess_def)
      ultimately show False using assms(1) unfolding uaccess_def by blast
    qed
    then show ?thesis using assms(2) by (simp add: copied_def)
  qed
  then show "uaccess m' t va (length src)" "pte_of m' 2 t = pte_of m 2 t" "pt_pages m' 2 t = pt_pages m 2 t"
    using uaccess_frame [OF assms(1)] by blast+
qed

lemma copied_chunk:
  assumes "k = page_chunk va (length src)"
  shows "copied m (mem_put m (phys m t va) (take k src)) t va (take k src)"
proof -
  have k: "k \<le> length src" "k \<le> 4096" using assms by (simp_all add: page_chunk_def)
  have ph: "phys m t (va + of_nat i) = phys m t va + of_nat i" if "i < k" for i
    using chunk_phys [of i va "length src" m t] that assms by simp
  have "mem_put m (phys m t va) (take k src) (phys m t va + of_nat i) = src ! i" if "i < k" for i
    using that k by (simp add: mem_put_def unat_of_nat take_bit_nat_eq_self)
  moreover have "mem_put m (phys m t va) (take k src) x = m x" if "\<forall>i < k. x \<noteq> phys m t va + of_nat i" for x
    using that region_offset [of k x "phys m t va"] k by (auto simp: mem_put_def min_def)
  ultimately show ?thesis using k(1) ph by (simp add: copied_def)
qed

lemma copied_append:
  assumes ua: "uaccess m t va (length (xs @ ys))" and one: "copied m m1 t va xs"
    and two: "copied m1 m2 t (va + of_nat (length xs)) ys"
  shows "copied m m2 t va (xs @ ys)"
proof -
  let ?k = "length xs" and ?n = "length (xs @ ys)"
  have ua1: "uaccess m t va ?k" using ua unfolding uaccess_def in_range_def by fastforce
  have pte: "phys m1 t = phys m t" using copied_pt(2) [OF ua1 one] by (simp add: phys_def fun_eq_iff)
  have ne: "phys m t (va + of_nat i) \<noteq> phys m t (va + of_nat j)" if "i < ?n" "j < ?n" "i \<noteq> j" for i j
  proof
    assume eq: "phys m t (va + of_nat i) = phys m t (va + of_nat j)"
    have b: "unat va + ?n \<le> unat MAXVA" using ua by (simp add: uaccess_def)
    have "va + of_nat i = va + of_nat j"
      by (rule phys_inj [OF ua unat_in_range(2) [OF b that(1)] unat_in_range(2) [OF b that(2)] eq])
    then have "unat (va + of_nat i) = unat (va + of_nat j)" by (rule arg_cong)
    then show False
      unfolding unat_in_range(1) [OF b that(1)] unat_in_range(1) [OF b that(2)] using that(3) by simp
  qed
  have later: "m2 x = m1 x" if "\<forall>j < length ys. x \<noteq> phys m t (va + of_nat (?k + j))" for x
    using two that pte by (simp add: copied_def add.assoc)
  show ?thesis
    unfolding copied_def
  proof (intro conjI allI impI)
    fix i assume i: "i < ?n"
    show "m2 (phys m t (va + of_nat i)) = (xs @ ys) ! i"
    proof (cases "i < ?k")
      case True
      then have "m2 (phys m t (va + of_nat i)) = m1 (phys m t (va + of_nat i))"
        using ne [OF i] by (intro later allI impI) (simp del: of_nat_add)
      then show ?thesis using one True by (simp add: copied_def nth_append)
    next
      case False
      then have "va + of_nat i = va + of_nat ?k + of_nat (i - ?k)" by (simp add: of_nat_diff)
      moreover have "m2 (phys m1 t (va + of_nat ?k + of_nat (i - ?k))) = ys ! (i - ?k)"
        using two i False by (simp add: copied_def del: of_nat_diff)
      ultimately show ?thesis using pte False by (simp add: nth_append)
    qed
  next
    fix x assume x: "\<forall>i < ?n. x \<noteq> phys m t (va + of_nat i)"
    then have "m2 x = m1 x" by (intro later) (simp del: of_nat_add)
    moreover have "m1 x = m x" using one x by (simp add: copied_def)
    ultimately show "m2 x = m x" by simp
  qed
qed

lemma mem_update_put: "mem_update (\<lambda>m. mem_put m a bs) s = s\<lparr>mem := mem_put (mem s) a bs\<rparr>"
  by (cases s) simp

lemma copyout_ok:
  "uaccess (mem s) t va (length src) \<Longrightarrow>
    \<exists>m'. copyout t va src s = Ok (0, s\<lparr>mem := m'\<rparr>) \<and> copied (mem s) m' t va src"
proof (induction "length src" arbitrary: va src s rule: less_induct)
  case less
  show ?case
  proof (cases "src = []")
    case True
    then show ?thesis by (subst copyout.simps) (auto simp: copied_def intro: exI [of _ "mem s"])
  next
    case False
    let ?n = "length src"
    let ?k = "page_chunk va ?n" and ?m = "mem s"
    let ?xs = "take ?k src" and ?ys = "drop ?k src"
    have k: "0 < ?k" "?k \<le> ?n" using False by (simp_all add: page_chunk_pos page_chunk_le)
    have wa: "walkaddr t (PGROUNDDOWN va) s = Ok (PTE2PA (pte_of ?m 2 t va), s)" "PTE2PA (pte_of ?m 2 t va) \<noteq> 0"
      using uaccess_walkaddr [OF less.prems] False by simp_all
    define m1 where "m1 = mem_put ?m (phys ?m t va) ?xs"
    have one: "copied ?m m1 t va ?xs" unfolding m1_def by (rule copied_chunk) simp
    have ua1: "uaccess ?m t va (length ?xs)" using less.prems k unfolding uaccess_def in_range_def by fastforce
    have run: "copyout t va src s = copyout t (PGROUNDDOWN va + PGSIZE) ?ys (s\<lparr>mem := m1\<rparr>)"
    proof -
      have "copyout t va src s = copyout t (PGROUNDDOWN va + PGSIZE) ?ys
          (mem_update (\<lambda>m. mem_put m (phys ?m t va) ?xs) s)"
        using False wa by (subst copyout.simps) (simp add: Let_def run_bnd run_sq mem_write_def phys_def)
      then show ?thesis unfolding mem_update_put m1_def .
    qed
    show ?thesis
    proof (cases "?k = ?n")
      case True
      then have "copyout t va src s = Ok (0, s\<lparr>mem := m1\<rparr>)"
        unfolding run by (subst copyout.simps) simp
      then show ?thesis using one True by auto
    next
      case False
      then have lt: "?k < ?n" using k by simp
      have pt: "pte_of m1 2 t = pte_of ?m 2 t" "pt_pages m1 2 t = pt_pages ?m 2 t" "pt_wf m1 2 t"
        using copied_pt [OF ua1 one] by (simp_all add: uaccess_def)
      have "uaccess m1 t (va + of_nat ?k) (?n - ?k)"
        using uaccess_rest [OF less.prems k(2)] pt unfolding uaccess_def by metis
      then have "\<exists>m'. copyout t (va + of_nat ?k) ?ys (s\<lparr>mem := m1\<rparr>) = Ok (0, s\<lparr>mem := m1\<rparr>\<lparr>mem := m'\<rparr>) \<and>
          copied (mem (s\<lparr>mem := m1\<rparr>)) m' t (va + of_nat ?k) ?ys"
        using k lt by (intro less.hyps) simp_all
      then obtain m' where "copyout t va src s = Ok (0, s\<lparr>mem := m'\<rparr>)" "copied m1 m' t (va + of_nat ?k) ?ys"
        using run chunk_next [OF lt] by auto
      moreover from this(2) have "copied ?m m' t va (?xs @ ?ys)"
        using less.prems k by (intro copied_append [OF _ one]) (simp_all add: min_absorb2)
      ultimately show ?thesis by auto
    qed
  qed
qed

section \<open>Properties\<close>

text \<open>
  C8. Copying bytes out to user memory succeeds when their addresses are mapped for the user, and
  copying the same range in afterwards returns exactly those bytes; memory that is not at one of
  these user addresses, and the page table itself, keep their contents.
\<close>

theorem copyout_copyin_roundtrip:
  assumes "uaccess (mem s) t va (length src)"
  shows "\<exists>s'. copyout t va src s = Ok (0, s') \<and> copyin t va (length src) s' = Ok ((0, src), s') \<and>
    pte_of (mem s') 2 t = pte_of (mem s) 2 t \<and>
    (\<forall>x. (\<forall>i < length src. x \<noteq> phys (mem s) t (va + of_nat i)) \<longrightarrow> mem s' x = mem s x)"
proof -
  obtain m' where m': "copyout t va src s = Ok (0, s\<lparr>mem := m'\<rparr>)" "copied (mem s) m' t va src"
    using copyout_ok [OF assms] by blast
  note pt = copied_pt [OF assms m'(2)]
  have "phys m' t = phys (mem s) t" using pt(2) by (simp add: phys_def fun_eq_iff)
  then have "map (\<lambda>i. m' (phys m' t (va + of_nat i))) [0..<length src] = src"
    using m'(2) by (intro nth_equalityI) (simp_all add: copied_def)
  then have "copyin t va (length src) (s\<lparr>mem := m'\<rparr>) = Ok ((0, src), s\<lparr>mem := m'\<rparr>)"
    using copyin_ok [of "s\<lparr>mem := m'\<rparr>" t va "length src"] pt(1) by simp
  then show ?thesis using m' pt(2) by (intro exI [of _ "s\<lparr>mem := m'\<rparr>"]) (simp add: copied_def)
qed


section \<open>An instance\<close>

text \<open>Three table pages and one user page, mapped at user address 0.\<close>

definition demo_pte :: uint64 where
  "demo_pte = PA2PTE 0x80303000 OR (PTE_W OR PTE_R OR PTE_U OR PTE_V)"

definition demo_mem :: memory where
  "demo_mem = write64 0x80302000 demo_pte
     (write64 0x80301000 (PA2PTE 0x80302000 OR PTE_V) (write64 0x80300000 (PA2PTE 0x80301000 OR PTE_V) (\<lambda>_. 0)))"

lemma ent_write64:
  assumes "page_aligned p" and "page_aligned t" and "i < 512"
  shows "ent (write64 p v m) t i = (if t = p \<and> i = 0 then v else ent m t i)"
proof (cases "t = p \<and> i = 0")
  case True
  then show ?thesis by (simp add: ent_def)
next
  case False
  then have "p \<noteq> t + 8 * i" using entry_inj [OF assms(1,2) _ assms(3), of 0] by auto
  then have "read64 (write64 p v m) (t + 8 * i) = read64 m (t + 8 * i)"
    using assms by (intro read64_write64_other) (simp_all add: page_aligned8 entry_aligned8)
  then show ?thesis using False by (auto simp: ent_def)
qed

lemma ent_zero [simp]: "ent (\<lambda>_. 0) t i = 0"
  by (simp add: ent_def read64_0)

lemma one_entry_table:
  assumes "page_aligned t" and "\<And>i. i < 512 \<Longrightarrow> ent m t i = (if i = 0 then e else 0)" and "valid e"
    and "pt_wf m l (PTE2PA e)" and "t \<notin> pt_pages m l (PTE2PA e)"
  shows "pt_wf m (Suc l) t" and "pt_pages m (Suc l) t = insert t (pt_pages m l (PTE2PA e))"
proof -
  have "valid (ent m t i) \<longleftrightarrow> i = 0" if "i < 512" for i using that assms(2,3) by simp
  then have "{i. i < 512 \<and> valid (ent m t i)} = {0}" by auto
  then show "pt_wf m (Suc l) t" "pt_pages m (Suc l) t = insert t (pt_pages m l (PTE2PA e))"
    using assms by (auto split: if_splits)
qed

lemma demo_entries:
  "i < 512 \<Longrightarrow> ent demo_mem 0x80300000 i = (if i = 0 then PA2PTE 0x80301000 OR PTE_V else 0)"
  "i < 512 \<Longrightarrow> ent demo_mem 0x80301000 i = (if i = 0 then PA2PTE 0x80302000 OR PTE_V else 0)"
  "ent demo_mem 0x80302000 0 = demo_pte"
  by (simp_all add: demo_mem_def ent_write64 page_aligned_def)

lemma demo_decode:
  "valid (PA2PTE p OR PTE_V)" "valid demo_pte" "bit demo_pte 4"
  "PTE2PA (PA2PTE 0x80301000 OR PTE_V) = 0x80301000" "PTE2PA (PA2PTE 0x80302000 OR PTE_V) = 0x80302000"
  "PTE2PA demo_pte = 0x80303000"
  unfolding demo_pte_def
  by (simp_all add: valid_def bit_or_iff PTE2PA_encode page_aligned_def)
    (simp_all add: PTE2PA_encode page_aligned_def PTE_V_def PTE_W_def PTE_R_def PTE_U_def)

lemma demo_tables:
  "pt_wf demo_mem 2 0x80300000" "pt_pages demo_mem 2 0x80300000 = {0x80300000, 0x80301000, 0x80302000}"
proof -
  have 0: "pt_wf demo_mem 0 0x80302000" "pt_pages demo_mem 0 0x80302000 = {0x80302000}"
    by (simp_all add: page_aligned_def)
  have 1: "pt_wf demo_mem (Suc 0) 0x80301000" "pt_pages demo_mem (Suc 0) 0x80301000 = {0x80301000, 0x80302000}"
    using one_entry_table [OF _ demo_entries(2), where l = 0] 0 by (simp_all add: demo_decode page_aligned_def)
  show "pt_wf demo_mem 2 0x80300000" "pt_pages demo_mem 2 0x80300000 = {0x80300000, 0x80301000, 0x80302000}"
    unfolding numeral_2_eq_2 using one_entry_table [OF _ demo_entries(1), where l = "Suc 0"] 1
    by (simp_all add: demo_decode page_aligned_def del: pt_wf.simps pt_pages.simps)
qed

lemma demo_pte_of:
  assumes "PGROUNDDOWN v = 0"
  shows "pte_of demo_mem 2 0x80300000 v = demo_pte"
proof -
  have z: "PX l 0 = 0" for l by (simp add: PX_def)
  have "pte_of demo_mem 2 0x80300000 0 = demo_pte"
  proof -
    have "ent demo_mem 0x80300000 0 = PA2PTE 0x80301000 OR PTE_V" "ent demo_mem 0x80301000 0 = PA2PTE 0x80302000 OR PTE_V"
      using demo_entries(1,2) [of 0] by simp_all
    then have "pte_addr demo_mem 2 0x80300000 0 = Some (0x80302000 + 8 * 0)"
      by (simp add: numeral_2_eq_2 z demo_decode)
    then show ?thesis using demo_entries(3) by (simp add: pte_of_def ent_def)
  qed
  moreover have "PGROUNDDOWN v = PGROUNDDOWN 0" using assms by (simp add: PGROUNDDOWN_def)
  ultimately show ?thesis using same_page_pte [of v 0 demo_mem 2 "0x80300000"] by simp
qed

lemma demo_uaccess: "n \<le> 100 \<Longrightarrow> uaccess demo_mem 0x80300000 16 n"
proof -
  assume n: "n \<le> 100"
  have pg: "PGROUNDDOWN v = 0" if "in_range 16 n v" for v
    using that n in_page_unat [of 0 v] by (simp add: in_range_def page_aligned_def)
  show ?thesis
    unfolding uaccess_def using n demo_tables
    by (auto simp: pg demo_pte_of user_pte_def demo_decode MAXVA_eq)
qed

theorem copyout_copyin_roundtrip_witness:
  "\<exists>s'. copyout 0x80300000 16 [1, 2, 3]
        \<lparr>mem = demo_mem, freelist = 0, ld_end = 0, ld_etext = 0, ld_trampoline = 0\<rparr> = Ok (0, s') \<and>
      copyin 0x80300000 16 3 s' = Ok ((0, [1, 2, 3]), s')"
  using copyout_copyin_roundtrip [of "\<lparr>mem = demo_mem, freelist = 0, ld_end = 0, ld_etext = 0, ld_trampoline = 0\<rparr>"
      "0x80300000" 16 "[1, 2, 3]"] demo_uaccess [of 3] by (auto simp: numeral_3_eq_3)


end
