(* ===== verification/Task.thy ===== *)
theory Task
  imports Vm
begin

text \<open>
  The data of \<^verbatim>\<open>include/kernel/proc.h\<close> and \<^verbatim>\<open>include/kernel/spinlock.h\<close>, and the part of the kernel's
  state that holds it: the process table, the per-CPU structures, the registers of each hart and
  the spin locks. A struct pointer is the index of the struct in its table (\<open>None\<close> for a null
  pointer); a spin lock is named by the object it is in. \<open>hart\<close> is the core the code runs on, the
  value of its \<^verbatim>\<open>tp\<close> register. The fields \<open>ld_\<close> are addresses the linker assigns.

  The trap frame of a process is the page at physical address \<open>trapframe\<close>, its fields the eight
  bytes at the offsets the struct's comments give.
\<close>

section \<open>Spin locks\<close>

text \<open>The sleep locks of the buffers and of the in-memory inodes; each contains a spin lock.\<close>

datatype sleep_id = SlBuf nat | SlInode nat

datatype lock_id =
    LkPid | LkWait | LkTicks | LkKmem | LkBcache | LkLog | LkItable | LkFtable | LkCons | LkUartTx | LkDisk | LkPr
  | LkProc nat | LkPipe uint64 | LkSleep sleep_id

record spinlock =
  locked :: bool
  lk_cpu :: "nat option"

section \<open>Processes and CPUs\<close>

record swtch_context =
  ctx_ra :: uint64
  ctx_sp :: uint64
  ctx_s :: "uint64 list"

record cpu =
  c_proc :: "nat option"
  c_context :: swtch_context
  noff :: int
  intena :: bool

datatype procstate = UNUSED | USED | SLEEPING | RUNNABLE | RUNNING | ZOMBIE

record proc =
  state :: procstate
  chan :: chan
  killed :: bool
  xstate :: int
  pid :: int
  parent :: "nat option"
  kstack :: uint64
  sz :: uint64
  pagetable :: uint64
  trapframe :: uint64
  p_context :: swtch_context
  ofile :: "nat \<Rightarrow> nat option"
  cwd :: "nat option"
  p_name :: "uint8 list"

text \<open>Offsets of the fields of a trap frame.\<close>

datatype tf_field =
    tf_kernel_satp | tf_kernel_sp | tf_kernel_trap | tf_epc | tf_kernel_hartid | tf_ra | tf_sp | tf_gp | tf_tp
  | tf_t0 | tf_t1 | tf_t2 | tf_s0 | tf_s1 | tf_a0 | tf_a1 | tf_a2 | tf_a3 | tf_a4 | tf_a5 | tf_a6 | tf_a7
  | tf_s2 | tf_s3 | tf_s4 | tf_s5 | tf_s6 | tf_s7 | tf_s8 | tf_s9 | tf_s10 | tf_s11 | tf_t3 | tf_t4 | tf_t5 | tf_t6

primrec tf_offset :: "tf_field \<Rightarrow> uint64" where
  "tf_offset tf_kernel_satp = 0" | "tf_offset tf_kernel_sp = 8" | "tf_offset tf_kernel_trap = 16"
| "tf_offset tf_epc = 24" | "tf_offset tf_kernel_hartid = 32" | "tf_offset tf_ra = 40" | "tf_offset tf_sp = 48"
| "tf_offset tf_gp = 56" | "tf_offset tf_tp = 64" | "tf_offset tf_t0 = 72" | "tf_offset tf_t1 = 80"
| "tf_offset tf_t2 = 88" | "tf_offset tf_s0 = 96" | "tf_offset tf_s1 = 104" | "tf_offset tf_a0 = 112"
| "tf_offset tf_a1 = 120" | "tf_offset tf_a2 = 128" | "tf_offset tf_a3 = 136" | "tf_offset tf_a4 = 144"
| "tf_offset tf_a5 = 152" | "tf_offset tf_a6 = 160" | "tf_offset tf_a7 = 168" | "tf_offset tf_s2 = 176"
| "tf_offset tf_s3 = 184" | "tf_offset tf_s4 = 192" | "tf_offset tf_s5 = 200" | "tf_offset tf_s6 = 208"
| "tf_offset tf_s7 = 216" | "tf_offset tf_s8 = 224" | "tf_offset tf_s9 = 232" | "tf_offset tf_s10 = 240"
| "tf_offset tf_s11 = 248" | "tf_offset tf_t3 = 256" | "tf_offset tf_t4 = 264" | "tf_offset tf_t5 = 272"
| "tf_offset tf_t6 = 280"

record tasks = vmem +
  procs :: "nat \<Rightarrow> proc"
  cpus :: "nat \<Rightarrow> cpu"
  harts :: "nat \<Rightarrow> csr"
  locks :: "lock_id \<Rightarrow> spinlock"
  hart :: nat
  nextpid :: int
  initproc :: nat
  ticks :: uint32
  ld_forkret :: uint64
  ld_usertrap :: uint64
  ld_kernelvec :: uint64
  ld_uservec :: uint64
  ld_userret :: uint64

definition upd_proc :: "nat \<Rightarrow> (proc \<Rightarrow> proc) \<Rightarrow> ('x tasks_scheme, unit) kmonad" where
  "upd_proc p f = modify (\<lambda>s. s\<lparr>procs := (procs s)(p := f (procs s p))\<rparr>)"

definition get_proc :: "nat \<Rightarrow> ('x tasks_scheme, proc) kmonad" where
  "get_proc p = gets (\<lambda>s. procs s p)"

definition tf_get :: "nat \<Rightarrow> tf_field \<Rightarrow> ('x tasks_scheme, uint64) kmonad" where
  "tf_get p f = bnd (get_proc p) (\<lambda>pr. load64 (trapframe pr + tf_offset f))"

definition tf_set :: "nat \<Rightarrow> tf_field \<Rightarrow> uint64 \<Rightarrow> ('x tasks_scheme, unit) kmonad" where
  "tf_set p f v = bnd (get_proc p) (\<lambda>pr. store64 (trapframe pr + tf_offset f) v)"

definition upd_hart :: "(csr \<Rightarrow> csr) \<Rightarrow> ('x tasks_scheme, unit) kmonad" where
  "upd_hart f = modify (\<lambda>s. s\<lparr>harts := (harts s)(hart s := f (harts s (hart s)))\<rparr>)"

definition get_hart :: "('x tasks_scheme, csr) kmonad" where
  "get_hart = gets (\<lambda>s. harts s (hart s))"

definition cpuid :: "('x tasks_scheme, nat) kmonad" where
  "cpuid = gets hart"

text \<open>\<open>mycpu\<close> is the CPU structure of this hart, read with \<open>mycpu\<close> and changed with \<open>upd_cpu\<close>.\<close>

definition mycpu :: "('x tasks_scheme, cpu) kmonad" where
  "mycpu = gets (\<lambda>s. cpus s (hart s))"

definition upd_cpu :: "(cpu \<Rightarrow> cpu) \<Rightarrow> ('x tasks_scheme, unit) kmonad" where
  "upd_cpu f = modify (\<lambda>s. s\<lparr>cpus := (cpus s)(hart s := f (cpus s (hart s)))\<rparr>)"

end
