(* ===== verification/Spinlock.thy ===== *)
theory Spinlock
  imports Task
begin

text \<open>
  \<^verbatim>\<open>src/kernel/spinlock.c\<close> and \<open>cpuid\<close>, \<open>mycpu\<close>, \<open>myproc\<close> of \<^verbatim>\<open>proc.c\<close>. \<open>acquire\<close> and \<open>release\<close> are
  composed of the steps between which another hart can run: before the atomic swap, the swap
  itself, and after it. In a sequential run, waiting for a lock that another hart holds is
  \<open>Diverge\<close>. The step relation \<open>lock_step\<close> interleaves the same steps of all harts; its invariant
  gives mutual exclusion.
\<close>

section \<open>Operations\<close>

definition push_off :: "('x tasks_scheme, unit) kmonad" where
  "push_off = bnd get_hart (\<lambda>h. let old = intr_get h in
     sq (upd_hart intr_off) (
     bnd mycpu (\<lambda>c.
     sq (if noff c = 0 then upd_cpu (\<lambda>c. c\<lparr>intena := old\<rparr>) else ret ()) (
     upd_cpu (\<lambda>c. c\<lparr>noff := noff c + 1\<rparr>)))))"

definition pop_off :: "('x tasks_scheme, unit) kmonad" where
  "pop_off = bnd get_hart (\<lambda>h.
     if intr_get h then panic ''pop_off - interruptible''
     else bnd mycpu (\<lambda>c.
       if noff c < 1 then panic ''pop_off''
       else sq (upd_cpu (\<lambda>c. c\<lparr>noff := noff c - 1\<rparr>)) (
         bnd mycpu (\<lambda>c. if noff c = 0 \<and> intena c then upd_hart intr_on else ret ()))))"

definition upd_lock :: "lock_id \<Rightarrow> (spinlock \<Rightarrow> spinlock) \<Rightarrow> ('x tasks_scheme, unit) kmonad" where
  "upd_lock lk f = modify (\<lambda>s. s\<lparr>locks := (locks s)(lk := f (locks s lk))\<rparr>)"

definition initlock :: "lock_id \<Rightarrow> ('x tasks_scheme, unit) kmonad" where
  "initlock lk = upd_lock lk (\<lambda>_. \<lparr>locked = False, lk_cpu = None\<rparr>)"

definition holding :: "lock_id \<Rightarrow> ('x tasks_scheme, bool) kmonad" where
  "holding lk = gets (\<lambda>s. locked (locks s lk) \<and> lk_cpu (locks s lk) = Some (hart s))"

text \<open>\<^verbatim>\<open>__sync_lock_test_and_set(&lk->locked, 1)\<close>: the old value of the flag.\<close>

definition test_and_set :: "lock_id \<Rightarrow> ('x tasks_scheme, bool) kmonad" where
  "test_and_set lk = bnd (gets (\<lambda>s. locked (locks s lk))) (\<lambda>old.
     sq (upd_lock lk (\<lambda>l. l\<lparr>locked := True\<rparr>)) (ret old))"

definition acquire_enter :: "lock_id \<Rightarrow> ('x tasks_scheme, unit) kmonad" where
  "acquire_enter lk = sq push_off (bnd (holding lk) (\<lambda>h. if h then panic ''acquire'' else ret ()))"

definition acquire_done :: "lock_id \<Rightarrow> ('x tasks_scheme, unit) kmonad" where
  "acquire_done lk = bnd cpuid (\<lambda>h. upd_lock lk (\<lambda>l. l\<lparr>lk_cpu := Some h\<rparr>))"

definition acquire :: "lock_id \<Rightarrow> ('x tasks_scheme, unit) kmonad" where
  "acquire lk = sq (acquire_enter lk) (
     bnd (test_and_set lk) (\<lambda>old. if old then diverge else acquire_done lk))"

definition release_enter :: "lock_id \<Rightarrow> ('x tasks_scheme, unit) kmonad" where
  "release_enter lk = bnd (holding lk) (\<lambda>h.
     if \<not> h then panic ''release'' else upd_lock lk (\<lambda>l. l\<lparr>lk_cpu := None\<rparr>))"

definition lock_release :: "lock_id \<Rightarrow> ('x tasks_scheme, unit) kmonad" where
  "lock_release lk = upd_lock lk (\<lambda>l. l\<lparr>locked := False\<rparr>)"

definition release :: "lock_id \<Rightarrow> ('x tasks_scheme, unit) kmonad" where
  "release lk = sq (release_enter lk) (sq (lock_release lk) pop_off)"

definition myproc :: "('x tasks_scheme, nat option) kmonad" where
  "myproc = sq push_off (bnd mycpu (\<lambda>c. sq pop_off (ret (c_proc c))))"

lemmas spin_defs = push_off_def pop_off_def upd_lock_def holding_def test_and_set_def acquire_enter_def
  acquire_done_def acquire_def release_enter_def lock_release_def release_def myproc_def
  get_hart_def upd_hart_def mycpu_def upd_cpu_def cpuid_def

section \<open>The state of this hart\<close>

definition this_hart :: "'x tasks_scheme \<Rightarrow> csr" where
  "this_hart s = harts s (hart s)"

definition this_cpu :: "'x tasks_scheme \<Rightarrow> cpu" where
  "this_cpu s = cpus s (hart s)"

definition set_cpu :: "cpu \<Rightarrow> 'x tasks_scheme \<Rightarrow> 'x tasks_scheme" where
  "set_cpu c s = s\<lparr>cpus := (cpus s)(hart s := c)\<rparr>"

definition set_hart :: "csr \<Rightarrow> 'x tasks_scheme \<Rightarrow> 'x tasks_scheme" where
  "set_hart h s = s\<lparr>harts := (harts s)(hart s := h)\<rparr>"

lemma this_simps [simp]:
  "this_hart (set_cpu c s) = this_hart s" "this_cpu (set_cpu c s) = c"
  "this_hart (set_hart h s) = h" "this_cpu (set_hart h s) = this_cpu s"
  "set_cpu c (set_cpu c' s) = set_cpu c s" "set_hart h (set_hart h' s) = set_hart h s"
  "set_hart h (set_cpu c s) = set_cpu c (set_hart h s)"
  "set_hart (this_hart s) s = s" "set_cpu (this_cpu s) s = s"
  by (simp_all add: this_hart_def this_cpu_def set_cpu_def set_hart_def)

text \<open>What \<open>push_off\<close> does to the CPU structure when interrupts were enabled iff \<open>e\<close>.\<close>

definition pushed :: "bool \<Rightarrow> cpu \<Rightarrow> cpu" where
  "pushed e c = c\<lparr>intena := (if noff c = 0 then e else intena c), noff := noff c + 1\<rparr>"

lemma run_push_off:
  "push_off s = Ok ((), set_cpu (pushed (intr_get (this_hart s)) (this_cpu s)) (set_hart (intr_off (this_hart s)) s))"
  by (simp add: push_off_def get_hart_def upd_hart_def mycpu_def upd_cpu_def run_bnd run_sq Let_def
      this_hart_def this_cpu_def set_cpu_def set_hart_def pushed_def)

lemma run_pop_off:
  assumes "\<not> intr_get (this_hart s)" and "1 \<le> noff (this_cpu s)"
  shows "pop_off s = Ok ((), set_cpu ((this_cpu s)\<lparr>noff := noff (this_cpu s) - 1\<rparr>)
     (if noff (this_cpu s) = 1 \<and> intena (this_cpu s) then set_hart (intr_on (this_hart s)) s else s))"
  using assms
  by (simp add: pop_off_def get_hart_def upd_hart_def mycpu_def upd_cpu_def run_bnd run_sq Let_def
      this_hart_def this_cpu_def set_cpu_def set_hart_def)

section \<open>Nesting of push_off and pop_off\<close>

text \<open>
  A sequence of \<open>push_off\<close> (\<open>True\<close>) and \<open>pop_off\<close> (\<open>False\<close>) calls, and that it is well bracketed
  from nesting depth \<open>d\<close>.
\<close>

primrec run_offs :: "bool list \<Rightarrow> ('x tasks_scheme, unit) kmonad" where
  "run_offs [] = ret ()"
| "run_offs (b # bs) = sq (if b then push_off else pop_off) (run_offs bs)"

primrec bracketed :: "nat \<Rightarrow> bool list \<Rightarrow> bool" where
  "bracketed d [] \<longleftrightarrow> d = 0"
| "bracketed d (b # bs) \<longleftrightarrow> (if b then bracketed (Suc d) bs else d \<noteq> 0 \<and> bracketed (d - 1) bs)"

text \<open>The state at depth \<open>d\<close> above the state \<open>s\<close> the sequence started in.\<close>

definition at_depth :: "'x tasks_scheme \<Rightarrow> nat \<Rightarrow> bool \<Rightarrow> 'x tasks_scheme" where
  "at_depth s d e = set_cpu ((this_cpu s)\<lparr>intena := e, noff := noff (this_cpu s) + int d\<rparr>)
     (if d = 0 then s else set_hart (intr_off (this_hart s)) s)"

text \<open>The value of \<open>intena\<close> that the outermost \<open>push_off\<close> of the kernel has recorded.\<close>

definition saved_intena :: "'x tasks_scheme \<Rightarrow> bool" where
  "saved_intena s = (if noff (this_cpu s) = 0 then intr_get (this_hart s) else intena (this_cpu s))"

definition off_inv :: "'x tasks_scheme \<Rightarrow> bool" where
  "off_inv s \<longleftrightarrow> 0 \<le> noff (this_cpu s) \<and> (0 < noff (this_cpu s) \<longrightarrow> \<not> intr_get (this_hart s))"

lemma push_off_depth:
  assumes "off_inv s" and "d \<noteq> 0 \<or> noff (this_cpu s) \<noteq> 0 \<longrightarrow> e = saved_intena s"
  shows "push_off (at_depth s d e) = Ok ((), at_depth s (Suc d) (saved_intena s))"
  using assms
  by (auto simp: run_push_off at_depth_def pushed_def saved_intena_def off_inv_def intr_off_id add.commute add.left_commute)

lemma pop_off_depth:
  assumes "off_inv s" and "e = saved_intena s"
  shows "pop_off (at_depth s (Suc d) e) = Ok ((), at_depth s d e)"
proof -
  let ?t = "at_depth s (Suc d) e"
  have "\<not> intr_get (this_hart ?t)" and "1 \<le> noff (this_cpu ?t)"
    using assms(1) by (simp_all add: at_depth_def off_inv_def)
  from run_pop_off [OF this] show ?thesis
    using assms by (auto simp: at_depth_def saved_intena_def off_inv_def intr_on_off intr_off_id)
qed

lemma run_offs_depth:
  assumes "off_inv s" and "bracketed d bs" and "d \<noteq> 0 \<or> noff (this_cpu s) \<noteq> 0 \<longrightarrow> e = saved_intena s"
  shows "\<exists>e'. run_offs bs (at_depth s d e) = Ok ((), at_depth s 0 e') \<and>
    (noff (this_cpu s) \<noteq> 0 \<longrightarrow> e' = saved_intena s)"
  using assms(2,3)
proof (induction bs arbitrary: d e)
  case Nil
  then show ?case by auto
next
  case (Cons b bs)
  show ?case
  proof (cases b)
    case True
    then show ?thesis
      using Cons.IH [of "Suc d" "saved_intena s"] Cons.prems push_off_depth [OF assms(1), of d e] by simp
  next
    case False
    then obtain d' where "d = Suc d'" using Cons.prems(1) by (cases d) auto
    then show ?thesis
      using False Cons.IH [of d' e] Cons.prems pop_off_depth [OF assms(1), of e d'] by simp
  qed
qed

text \<open>
  C34. Interrupt disabling nests: any well-bracketed sequence of \<open>push_off\<close> and \<open>pop_off\<close> calls
  returns without a panic and leaves the kernel's state, the interrupt-enable bit included, as it
  was before the first call. Only the saved copy \<open>intena\<close> may differ, and it does not when the
  sequence itself ran inside an outer \<open>push_off\<close>.
\<close>

theorem push_off_pop_off_nest:
  assumes "off_inv s" and "bracketed 0 bs"
  shows "\<exists>e. run_offs bs s = Ok ((), set_cpu ((this_cpu s)\<lparr>intena := e\<rparr>) s) \<and>
    (noff (this_cpu s) \<noteq> 0 \<longrightarrow> e = intena (this_cpu s))"
proof -
  have "at_depth s 0 (intena (this_cpu s)) = s"
    by (simp add: at_depth_def)
  then show ?thesis
    using run_offs_depth [OF assms, of "intena (this_cpu s)"]
    by (auto simp: saved_intena_def at_depth_def)
qed

text \<open>A machine with no process and free locks, for the examples; hart 0 has interrupts on.\<close>

definition idle_context :: swtch_context where
  "idle_context = \<lparr>ctx_ra = 0, ctx_sp = 0, ctx_s = []\<rparr>"

definition idle_proc :: proc where
  "idle_proc = \<lparr>state = UNUSED, chan = ChanNone, killed = False, xstate = 0, pid = 0, parent = None, kstack = 0,
     sz = 0, pagetable = 0, trapframe = 0, p_context = idle_context, ofile = \<lambda>_. None, cwd = None, p_name = []\<rparr>"

definition idle_csr :: csr where
  "idle_csr = \<lparr>sstatus = 2, sip = 0, sie = 0, sepc = 0, stvec = 0, satp = 0, scause = 0, stval = 0, tp = 0\<rparr>"

definition idle_tasks :: tasks where
  "idle_tasks = \<lparr>mem = \<lambda>_. 0, freelist = 0, ld_end = 0x80300000, ld_etext = 0x80208000, ld_trampoline = 0x80207000,
     kernel_pagetable = 0, procs = \<lambda>_. idle_proc,
     cpus = \<lambda>_. \<lparr>c_proc = None, c_context = idle_context, noff = 0, intena = False\<rparr>,
     harts = \<lambda>_. idle_csr, locks = \<lambda>_. \<lparr>locked = False, lk_cpu = None\<rparr>, hart = 0, nextpid = 1, initproc = 0, ticks = 0,
     ld_forkret = 0x80202000, ld_usertrap = 0x80203000, ld_kernelvec = 0x80204000, ld_uservec = 0x80207000, ld_userret = 0x80207090\<rparr>"

theorem push_off_pop_off_nest_witness:
  "off_inv idle_tasks \<and> bracketed 0 [True, True, False, True, False, False] \<and>
   (\<exists>e. run_offs [True, True, False, True, False, False] idle_tasks =
      Ok ((), set_cpu ((this_cpu idle_tasks)\<lparr>intena := e\<rparr>) idle_tasks))"
proof -
  have "off_inv idle_tasks" "bracketed 0 [True, True, False, True, False, False]"
    by (simp_all add: off_inv_def idle_tasks_def this_cpu_def)
  with push_off_pop_off_nest [OF this] show ?thesis by blast
qed

section \<open>Interleaved harts\<close>

text \<open>
  Where a hart is in its use of one lock. The rules of \<open>lock_step\<close> let any hart take its next
  atomic step at any time; a hart in \<open>Critical\<close> is between \<open>acquire\<close> and \<open>release\<close>.
\<close>

datatype pc = Outside | Spinning | Got | Critical | Rel1 | Rel2

inductive lock_step :: "lock_id \<Rightarrow> 'x tasks_scheme \<times> (nat \<Rightarrow> pc) \<Rightarrow> 'x tasks_scheme \<times> (nat \<Rightarrow> pc) \<Rightarrow> bool"
  for lk where
  Enter: "pc h = Outside \<Longrightarrow> acquire_enter lk (s\<lparr>hart := h\<rparr>) = Ok ((), s') \<Longrightarrow> lock_step lk (s, pc) (s', pc(h := Spinning))"
| Spin: "pc h = Spinning \<Longrightarrow> test_and_set lk (s\<lparr>hart := h\<rparr>) = Ok (True, s') \<Longrightarrow> lock_step lk (s, pc) (s', pc)"
| Take: "pc h = Spinning \<Longrightarrow> test_and_set lk (s\<lparr>hart := h\<rparr>) = Ok (False, s') \<Longrightarrow> lock_step lk (s, pc) (s', pc(h := Got))"
| Own: "pc h = Got \<Longrightarrow> acquire_done lk (s\<lparr>hart := h\<rparr>) = Ok ((), s') \<Longrightarrow> lock_step lk (s, pc) (s', pc(h := Critical))"
| Disown: "pc h = Critical \<Longrightarrow> release_enter lk (s\<lparr>hart := h\<rparr>) = Ok ((), s') \<Longrightarrow> lock_step lk (s, pc) (s', pc(h := Rel1))"
| Drop: "pc h = Rel1 \<Longrightarrow> lock_release lk (s\<lparr>hart := h\<rparr>) = Ok ((), s') \<Longrightarrow> lock_step lk (s, pc) (s', pc(h := Rel2))"
| Leave: "pc h = Rel2 \<Longrightarrow> pop_off (s\<lparr>hart := h\<rparr>) = Ok ((), s') \<Longrightarrow> lock_step lk (s, pc) (s', pc(h := Outside))"

primrec owns :: "pc \<Rightarrow> bool" where
  "owns Outside \<longleftrightarrow> False" | "owns Spinning \<longleftrightarrow> False" | "owns Got \<longleftrightarrow> True"
| "owns Critical \<longleftrightarrow> True" | "owns Rel1 \<longleftrightarrow> True" | "owns Rel2 \<longleftrightarrow> False"

lemma owns_upd: "owns p = owns (pc h) \<Longrightarrow> owns ((pc(h := p)) h') = owns (pc h')"
  by simp

text \<open>
  The invariant: the flag is set exactly while some hart owns the lock, no two harts own it, the
  recorded CPU is the one in its critical section, and every hart inside has interrupts off.
\<close>

definition lock_inv :: "lock_id \<Rightarrow> 'x tasks_scheme \<times> (nat \<Rightarrow> pc) \<Rightarrow> bool" where
  "lock_inv lk c \<longleftrightarrow> (case c of (s, pc) \<Rightarrow>
     (locked (locks s lk) \<longleftrightarrow> (\<exists>h. owns (pc h))) \<and>
     (\<forall>h h'. owns (pc h) \<longrightarrow> owns (pc h') \<longrightarrow> h = h') \<and>
     (\<forall>h. lk_cpu (locks s lk) = Some h \<longleftrightarrow> pc h = Critical) \<and>
     (\<forall>h. 0 \<le> noff (cpus s h)) \<and>
     (\<forall>h. pc h \<noteq> Outside \<longrightarrow> \<not> intr_get (harts s h) \<and> 1 \<le> noff (cpus s h)))"

lemma lock_step_inv:
  assumes "lock_step lk c c'" and "lock_inv lk c"
  shows "lock_inv lk c'"
  using assms
proof (induction rule: lock_step.induct)
  case (Leave pc h s s')
  then have "\<not> intr_get (this_hart (s\<lparr>hart := h\<rparr>))" "1 \<le> noff (this_cpu (s\<lparr>hart := h\<rparr>))"
    by (auto simp: lock_inv_def this_hart_def this_cpu_def)
  from run_pop_off [OF this] Leave
  have "locks s' = locks s" "cpus s' = (cpus s)(h := (cpus s h)\<lparr>noff := noff (cpus s h) - 1\<rparr>)"
    "\<forall>h'. h' \<noteq> h \<longrightarrow> harts s' h' = harts s h'"
    by (auto simp: this_hart_def this_cpu_def set_hart_def set_cpu_def split: if_splits)
  moreover have pos: "0 < noff (cpus s h)"
    using \<open>1 \<le> noff (this_cpu (s\<lparr>hart := h\<rparr>))\<close> by (simp add: this_cpu_def)
  ultimately show ?case
    using Leave by (simp add: lock_inv_def owns_upd del: fun_upd_apply) (use pos in auto)
next
  case (Enter pc h s s')
  then have "locks s' = locks s" "cpus s' = (cpus s)(h := pushed (intr_get (harts s h)) (cpus s h))"
    "harts s' = (harts s)(h := intr_off (harts s h))"
    by (auto simp: acquire_enter_def run_sq run_bnd run_push_off this_hart_def this_cpu_def
        set_hart_def set_cpu_def holding_def split: if_splits)
  then show ?case
    using Enter by (simp add: lock_inv_def owns_upd del: fun_upd_apply) (auto simp: pushed_def)
next
  case (Spin pc h s s')
  then have "s' = s\<lparr>hart := h, locks := (locks s)(lk := (locks s lk)\<lparr>locked := True\<rparr>)\<rparr>" "locked (locks s lk)"
    by (auto simp: test_and_set_def upd_lock_def run_bnd run_sq)
  then show ?case using Spin by (simp add: lock_inv_def)
next
  case (Take pc h s s')
  then have "s' = s\<lparr>hart := h, locks := (locks s)(lk := (locks s lk)\<lparr>locked := True\<rparr>)\<rparr>" "\<not> locked (locks s lk)"
    by (auto simp: test_and_set_def upd_lock_def run_bnd run_sq)
  then show ?case using Take by (auto simp: lock_inv_def)
next
  case (Own pc h s s')
  then have "s' = s\<lparr>hart := h, locks := (locks s)(lk := (locks s lk)\<lparr>lk_cpu := Some h\<rparr>)\<rparr>"
    by (auto simp: acquire_done_def cpuid_def upd_lock_def run_bnd run_sq)
  then show ?case using Own by (simp add: lock_inv_def owns_upd del: fun_upd_apply) (auto)
next
  case (Disown pc h s s')
  then have "s' = s\<lparr>hart := h, locks := (locks s)(lk := (locks s lk)\<lparr>lk_cpu := None\<rparr>)\<rparr>"
    by (auto simp: release_enter_def holding_def upd_lock_def run_bnd run_sq split: if_splits)
  then show ?case using Disown by (simp add: lock_inv_def owns_upd del: fun_upd_apply) (auto)
next
  case (Drop pc h s s')
  then have "s' = s\<lparr>hart := h, locks := (locks s)(lk := (locks s lk)\<lparr>locked := False\<rparr>)\<rparr>"
    by (auto simp: lock_release_def upd_lock_def run_bnd run_sq)
  then show ?case using Drop by (auto simp: lock_inv_def)
qed

text \<open>
  C5. Mutual exclusion: in every interleaving of any number of harts that take and release a spin
  lock, starting from a free lock with all harts outside, at most one hart is in its critical
  section; it has interrupts off, its \<open>release\<close> does not panic, and no other hart's \<open>acquire\<close> or
  \<open>pop_off\<close> panics.
\<close>

theorem spinlock_mutual_exclusion:
  assumes "(lock_step lk)\<^sup>*\<^sup>* (s, \<lambda>_. Outside) (s', pc)"
    and "\<not> locked (locks s lk)" and "lk_cpu (locks s lk) = None" and "\<forall>h. 0 \<le> noff (cpus s h)"
  shows "(\<forall>h h'. pc h = Critical \<longrightarrow> pc h' = Critical \<longrightarrow> h = h') \<and>
    (\<forall>h. pc h = Critical \<longrightarrow> \<not> intr_get (harts s' h) \<and> (\<exists>t. release lk (s'\<lparr>hart := h\<rparr>) = Ok ((), t))) \<and>
    (\<forall>h. pc h = Outside \<longrightarrow> (\<exists>t. acquire_enter lk (s'\<lparr>hart := h\<rparr>) = Ok ((), t))) \<and>
    (\<forall>h. pc h = Rel2 \<longrightarrow> (\<exists>t. pop_off (s'\<lparr>hart := h\<rparr>) = Ok ((), t)))"
proof -
  have "lock_inv lk (s, \<lambda>_. Outside)"
    using assms by (auto simp: lock_inv_def)
  with assms(1) have inv: "lock_inv lk (s', pc)"
    by (induction rule: rtranclp_induct) (auto intro: lock_step_inv)
  have pop: "\<exists>t. pop_off u = Ok ((), t)"
    if "pc (hart u) \<noteq> Outside" "harts u = harts s'" "cpus u = cpus s'" for u :: "'a tasks_scheme"
  proof -
    have "\<not> intr_get (this_hart u)" "1 \<le> noff (this_cpu u)"
      using inv that by (auto simp: lock_inv_def this_hart_def this_cpu_def)
    from run_pop_off [OF this] show ?thesis by blast
  qed
  have rel: "\<exists>t. release lk (s'\<lparr>hart := h\<rparr>) = Ok ((), t)" if "pc h = Critical" for h
  proof -
    let ?u = "s'\<lparr>hart := h, locks := (locks s')(lk := (locks s' lk)\<lparr>lk_cpu := None, locked := False\<rparr>)\<rparr>"
    have "locked (locks s' lk)" "lk_cpu (locks s' lk) = Some h"
      using inv that by (auto simp: lock_inv_def) (metis owns.simps(4))
    then have "release lk (s'\<lparr>hart := h\<rparr>) = pop_off ?u"
      by (simp add: release_def release_enter_def lock_release_def holding_def upd_lock_def run_sq run_bnd)
    then show ?thesis using pop [of ?u] that by simp
  qed
  have "\<exists>t. acquire_enter lk (s'\<lparr>hart := h\<rparr>) = Ok ((), t)" if "pc h = Outside" for h
    using inv that
    by (auto simp: lock_inv_def acquire_enter_def run_sq run_bnd run_push_off this_hart_def this_cpu_def
        set_hart_def set_cpu_def holding_def)
  moreover have "h = h'" if "pc h = Critical" "pc h' = Critical" for h h'
    using inv that by (auto simp: lock_inv_def)
  moreover have "\<not> intr_get (harts s' h)" if "pc h = Critical" for h
    using inv that by (auto simp: lock_inv_def)
  ultimately show ?thesis
    using rel pop [of "s'\<lparr>hart := h\<rparr>" for h] by simp
qed

text \<open>Hart 0 takes the lock while hart 1 spins on it.\<close>

theorem spinlock_mutual_exclusion_witness:
  "\<exists>s pc. (lock_step LkKmem)\<^sup>*\<^sup>* (idle_tasks, \<lambda>_. Outside) (s, pc) \<and> pc 0 = Critical \<and> pc 1 = Spinning \<and>
     (\<exists>t. release LkKmem (s\<lparr>hart := 0\<rparr>) = Ok ((), t))"
proof -
  have "\<exists>s pc. (lock_step LkKmem)\<^sup>*\<^sup>* (idle_tasks, \<lambda>_. Outside) (s, pc) \<and> pc 0 = Critical \<and> pc 1 = Spinning"
    apply (intro exI conjI)
      apply (rule converse_rtranclp_into_rtranclp, rule Enter [where h = 0])
        apply simp
       apply (simp add: acquire_enter_def run_sq run_bnd run_push_off holding_def set_cpu_def set_hart_def idle_tasks_def)
      apply (rule converse_rtranclp_into_rtranclp, rule Enter [where h = 1])
        apply simp
       apply (simp add: acquire_enter_def run_sq run_bnd run_push_off holding_def set_cpu_def set_hart_def)
      apply (rule converse_rtranclp_into_rtranclp, rule Take [where h = 0])
        apply simp
       apply (simp add: test_and_set_def upd_lock_def run_sq run_bnd)
      apply (rule converse_rtranclp_into_rtranclp, rule Spin [where h = 1])
        apply simp
       apply (simp add: test_and_set_def upd_lock_def run_sq run_bnd)
      apply (rule converse_rtranclp_into_rtranclp, rule Own [where h = 0])
        apply simp
       apply (simp add: acquire_done_def cpuid_def upd_lock_def run_sq run_bnd)
      apply (rule rtranclp.rtrancl_refl)
     apply simp_all
    done
  then obtain s pc where run: "(lock_step LkKmem)\<^sup>*\<^sup>* (idle_tasks, \<lambda>_. Outside) (s, pc)" "pc 0 = Critical" "pc 1 = Spinning"
    by blast
  moreover have "\<exists>t. release LkKmem (s\<lparr>hart := 0\<rparr>) = Ok ((), t)"
    using spinlock_mutual_exclusion [OF run(1)] run(2) by (simp add: idle_tasks_def)
  ultimately show ?thesis by blast
qed

end
