(* ===== verification/Sched.thy ===== *)
theory Sched
  imports Spinlock
begin

unbundle bit_operations_syntax

text \<open>
  \<^verbatim>\<open>src/kernel/proc.c\<close> up to the calls into the file system: the process table and its
  initialisation, allocation and release of processes with their page tables, the scheduler, sleep
  and wakeup, \<open>wait\<close>, \<open>kill\<close> and the copies to and from either address space.

  A kernel thread that calls \<open>swtch\<close> stops until the scheduler switches back to it. What the
  other threads do in between is the argument \<open>run\<close> of the routines that switch; the part of
  \<open>sched\<close> before the switch is \<open>sched_out\<close>. A load or store through a null pointer faults, and
  \<open>kerneltrap\<close> panics.
\<close>

section \<open>Operations\<close>

definition null_deref :: "('s, 'a) kmonad" where
  "null_deref = panic ''kerneltrap''"

definition this_proc :: "('x tasks_scheme, nat) kmonad" where
  "this_proc = bnd myproc (\<lambda>p. case p of None \<Rightarrow> null_deref | Some p \<Rightarrow> ret p)"

definition procinit :: "('x tasks_scheme, unit) kmonad" where
  "procinit = (sq (initlock LkPid) (
    sq (initlock LkWait) (
    for_each [0..<NPROC] (\<lambda>p. (sq (initlock (LkProc p)) (
      upd_proc p (\<lambda>r. r\<lparr>kstack := KSTACK p\<rparr>)))))))"

definition allocpid :: "('x tasks_scheme, int) kmonad" where
  "allocpid = (sq (acquire LkPid) (
    bnd (gets nextpid) (\<lambda>pid.
    sq (modify (\<lambda>s. s\<lparr>nextpid := nextpid s + 1\<rparr>)) (
    sq (release LkPid) (
    ret pid)))))"

definition proc_freepagetable :: "uint64 \<Rightarrow> uint64 \<Rightarrow> ('x kmem_scheme, unit) kmonad" where
  "proc_freepagetable pt psz = (sq (uvmunmap pt TRAMPOLINE 1 False) (
    sq (uvmunmap pt TRAPFRAME 1 False) (
    uvmfree pt psz)))"

definition proc_pagetable :: "nat \<Rightarrow> ('x tasks_scheme, uint64) kmonad" where
  "proc_pagetable p = (bnd uvmcreate (\<lambda>pt.
    if pt = 0 then ret 0
      else (bnd (gets ld_trampoline) (\<lambda>trampoline.
        bnd (mappages pt TRAMPOLINE PGSIZE trampoline (PTE_R OR PTE_X)) (\<lambda>r.
        if r < 0 then (sq (uvmfree pt 0) (
            ret 0))
          else (bnd (get_proc p) (\<lambda>pr.
            bnd (mappages pt TRAPFRAME PGSIZE (trapframe pr) (PTE_R OR PTE_W)) (\<lambda>r.
            if r < 0 then (sq (uvmunmap pt TRAMPOLINE 1 False) (
                sq (uvmfree pt 0) (
                ret 0)))
              else ret pt))))))))"

definition freeproc :: "nat \<Rightarrow> ('x tasks_scheme, unit) kmonad" where
  "freeproc p = (bnd (get_proc p) (\<lambda>pr.
    sq (if trapframe pr \<noteq> 0 then kfree (trapframe pr) else ret ()) (
    sq (upd_proc p (\<lambda>r. r\<lparr>trapframe := 0\<rparr>)) (
    sq (if pagetable pr \<noteq> 0 then proc_freepagetable (pagetable pr) (sz pr) else ret ()) (
    upd_proc p (\<lambda>r. r\<lparr>pagetable := 0, sz := 0, pid := 0, parent := None, p_name := (p_name r)[0 := 0],
      chan := ChanNone, killed := False, xstate := 0, state := UNUSED\<rparr>))))))"

text \<open>The first process that is \<open>UNUSED\<close>, with its lock held; the locks of the others are released.\<close>

primrec find_unused :: "nat list \<Rightarrow> ('x tasks_scheme, nat option) kmonad" where
  "find_unused [] = ret None"
| "find_unused (p # ps) = (sq (acquire (LkProc p)) (
  bnd (get_proc p) (\<lambda>pr.
  if state pr = UNUSED then ret (Some p)
    else (sq (release (LkProc p)) (
      find_unused ps)))))"

definition allocproc :: "('x tasks_scheme, nat option) kmonad" where
  "allocproc = (bnd (find_unused [0..<NPROC]) (\<lambda>found.
    case found of None \<Rightarrow> ret None
      | Some p \<Rightarrow> (bnd allocpid (\<lambda>n.
        sq (upd_proc p (\<lambda>r. r\<lparr>pid := n, state := USED\<rparr>)) (
        bnd kalloc (\<lambda>pa.
        sq (upd_proc p (\<lambda>r. r\<lparr>trapframe := pa\<rparr>)) (
        if pa = 0 then (sq (freeproc p) (
          sq (release (LkProc p)) (
          ret None)))
          else (bnd (proc_pagetable p) (\<lambda>pt.
            sq (upd_proc p (\<lambda>r. r\<lparr>pagetable := pt\<rparr>)) (
            if pt = 0 then (sq (freeproc p) (
                sq (release (LkProc p)) (
                ret None)))
              else (bnd (gets ld_forkret) (\<lambda>fr.
                sq (upd_proc p (\<lambda>r. r\<lparr>p_context := \<lparr>ctx_ra = fr, ctx_sp = kstack r + PGSIZE, ctx_s = replicate 12 0\<rparr>\<rparr>)) (
                ret (Some p))))))))))))))"

text \<open>\<^verbatim>\<open>uint sz\<close> keeps the low 32 bits of the process size and of \<open>uvmalloc\<close>'s result.\<close>

definition growproc :: "int \<Rightarrow> ('x tasks_scheme, int) kmonad" where
  "growproc n = (bnd this_proc (\<lambda>p.
    bnd (get_proc p) (\<lambda>pr.
    let sz32 = (ucast (sz pr) :: uint32) in
    if n > 0 then (bnd (uvmalloc (pagetable pr) (ucast sz32) (ucast (sz32 + word_of_int n))) (\<lambda>r.
       if (ucast r :: uint32) = 0 then ret (-1)
         else (sq (upd_proc p (\<lambda>q. q\<lparr>sz := ucast (ucast r :: uint32)\<rparr>)) (
           ret 0))))
      else if n < 0 then (bnd (uvmdealloc (pagetable pr) (ucast sz32) (ucast (sz32 + word_of_int n))) (\<lambda>r.
        sq (upd_proc p (\<lambda>q. q\<lparr>sz := ucast (ucast r :: uint32)\<rparr>)) (
        ret 0)))
      else (sq (upd_proc p (\<lambda>q. q\<lparr>sz := ucast sz32\<rparr>)) (
        ret 0)))))"

definition wakeup :: "chan \<Rightarrow> ('x tasks_scheme, unit) kmonad" where
  "wakeup ch = for_each [0..<NPROC] (\<lambda>p. (bnd myproc (\<lambda>me.
    if me \<noteq> Some p then (sq (acquire (LkProc p)) (
       bnd (get_proc p) (\<lambda>pr.
       sq (if state pr = SLEEPING \<and> chan pr = ch then upd_proc p (\<lambda>r. r\<lparr>state := RUNNABLE\<rparr>) else ret ()) (
       release (LkProc p)))))
      else ret ())))"

definition reparent :: "nat \<Rightarrow> ('x tasks_scheme, unit) kmonad" where
  "reparent p = for_each [0..<NPROC] (\<lambda>pp. (bnd (get_proc pp) (\<lambda>pr.
    if parent pr = Some p then (bnd (gets initproc) (\<lambda>ip.
       sq (upd_proc pp (\<lambda>r. r\<lparr>parent := Some ip\<rparr>)) (
       wakeup (ChanProc ip))))
      else ret ())))"

definition sched_out :: "('x tasks_scheme, bool) kmonad" where
  "sched_out = (bnd this_proc (\<lambda>p.
    bnd (holding (LkProc p)) (\<lambda>h.
    bnd mycpu (\<lambda>c.
    bnd (get_proc p) (\<lambda>pr.
    bnd get_hart (\<lambda>r.
    if \<not> h then panic ''sched p->lock''
      else if noff c \<noteq> 1 then panic ''sched locks''
      else if state pr = RUNNING then panic ''sched running''
      else if intr_get r then panic ''sched interruptible''
      else ret (intena c)))))))"

definition sched :: "('x tasks_scheme, unit) kmonad \<Rightarrow> ('x tasks_scheme, unit) kmonad" where
  "sched run = (bnd sched_out (\<lambda>ie.
    sq run (
    upd_cpu (\<lambda>c. c\<lparr>intena := ie\<rparr>))))"

definition yield :: "('x tasks_scheme, unit) kmonad \<Rightarrow> ('x tasks_scheme, unit) kmonad" where
  "yield run = (bnd this_proc (\<lambda>p.
    sq (acquire (LkProc p)) (
    sq (upd_proc p (\<lambda>r. r\<lparr>state := RUNNABLE\<rparr>)) (
    sq (sched run) (
    release (LkProc p))))))"

definition sleep :: "('x tasks_scheme, unit) kmonad \<Rightarrow> chan \<Rightarrow> lock_id \<Rightarrow> ('x tasks_scheme, unit) kmonad" where
  "sleep run ch lk = (bnd this_proc (\<lambda>p.
    sq (acquire (LkProc p)) (
    sq (release lk) (
    sq (upd_proc p (\<lambda>r. r\<lparr>chan := ch, state := SLEEPING\<rparr>)) (
    sq (sched run) (
    sq (upd_proc p (\<lambda>r. r\<lparr>chan := ChanNone\<rparr>)) (
    sq (release (LkProc p)) (
    acquire lk))))))))"

text \<open>
  \<open>wait\<close>: one scan of the table is \<open>wait_scan\<close>, with the result of the return statement it reaches,
  or whether there are children. Each element of \<open>runs\<close> is what happens during one sleep; when they
  are used up the process stays asleep.
\<close>

primrec wait_scan :: "nat \<Rightarrow> uint64 \<Rightarrow> bool \<Rightarrow> nat list \<Rightarrow> ('x tasks_scheme, int + bool) kmonad" where
  "wait_scan p addr havekids [] = ret (Inr havekids)"
| "wait_scan p addr havekids (np # nps) = (bnd (get_proc np) (\<lambda>npr.
  if parent npr = Some p then (sq (acquire (LkProc np)) (
    bnd (get_proc np) (\<lambda>npr.
    if state npr = ZOMBIE then (let pid0 = pid npr in
      bnd (get_proc p) (\<lambda>pr.
      bnd ((if addr \<noteq> 0 then copyout (pagetable pr) addr (le_encode 4 (unat (word_of_int (xstate npr) :: uint32)))
        else ret 0)) (\<lambda>r.
      if r < 0 then (sq (release (LkProc np)) (
        sq (release LkWait) (
        ret (Inl (-1)))))
         else (sq (freeproc np) (
           sq (release (LkProc np)) (
           sq (release LkWait) (
           ret (Inl pid0))))))))
       else (sq (release (LkProc np)) (
         wait_scan p addr True nps)))))
     else wait_scan p addr havekids nps))"

primrec wait_loop :: "('x tasks_scheme, unit) kmonad list \<Rightarrow> nat \<Rightarrow> uint64 \<Rightarrow> ('x tasks_scheme, int) kmonad" where
  "wait_loop [] p addr = (bnd (wait_scan p addr False [0..<NPROC]) (\<lambda>r.
    case r of Inl v \<Rightarrow> ret v
      | Inr havekids \<Rightarrow> (bnd (get_proc p) (\<lambda>pr.
        if \<not> havekids \<or> killed pr then (sq (release LkWait) (
          ret (-1)))
          else sleep_on (ChanProc p)))))"
| "wait_loop (run # runs) p addr = (bnd (wait_scan p addr False [0..<NPROC]) (\<lambda>r.
  case r of Inl v \<Rightarrow> ret v
    | Inr havekids \<Rightarrow> (bnd (get_proc p) (\<lambda>pr.
      if \<not> havekids \<or> killed pr then (sq (release LkWait) (
        ret (-1)))
        else (sq (sleep run (ChanProc p) LkWait) (
          wait_loop runs p addr))))))"

definition wait :: "('x tasks_scheme, unit) kmonad list \<Rightarrow> uint64 \<Rightarrow> ('x tasks_scheme, int) kmonad" where
  "wait runs addr = (bnd this_proc (\<lambda>p.
    sq (acquire LkWait) (
    wait_loop runs p addr)))"

text \<open>
  The scheduler of a CPU. \<open>scheduler_try\<close> is the body of its inner loop for process \<open>p\<close>, up to the
  switch to the process when there is one; \<open>scheduler_back\<close> is the rest of the body.
\<close>

definition scheduler_pick :: "nat \<Rightarrow> ('x tasks_scheme, bool) kmonad" where
  "scheduler_pick p = (sq (acquire (LkProc p)) (
    bnd (get_proc p) (\<lambda>pr.
    if state pr = RUNNABLE then (sq (upd_proc p (\<lambda>r. r\<lparr>state := RUNNING\<rparr>)) (
       sq (upd_cpu (\<lambda>c. c\<lparr>c_proc := Some p\<rparr>)) (
       ret True)))
      else ret False)))"

definition scheduler_back :: "nat \<Rightarrow> bool \<Rightarrow> ('x tasks_scheme, unit) kmonad" where
  "scheduler_back p switched = (sq (if switched then upd_cpu (\<lambda>c. c\<lparr>c_proc := None\<rparr>) else ret ()) (
    release (LkProc p)))"

definition scheduler_pass :: "('x tasks_scheme, unit) kmonad \<Rightarrow> ('x tasks_scheme, unit) kmonad" where
  "scheduler_pass run = (sq (upd_hart intr_on) (
    for_each [0..<NPROC] (\<lambda>p. (bnd (scheduler_pick p) (\<lambda>switched.
      sq (if switched then run else ret ()) (
      scheduler_back p switched))))))"

definition scheduler :: "('x tasks_scheme, unit) kmonad list \<Rightarrow> ('x tasks_scheme, unit) kmonad" where
  "scheduler runs = sq (upd_cpu (\<lambda>c. c\<lparr>c_proc := None\<rparr>)) (for_each runs scheduler_pass)"

primrec kill_scan :: "int \<Rightarrow> nat list \<Rightarrow> ('x tasks_scheme, int) kmonad" where
  "kill_scan n [] = ret (-1)"
| "kill_scan n (p # ps) = (sq (acquire (LkProc p)) (
  bnd (get_proc p) (\<lambda>pr.
  if pid pr = n then (sq (upd_proc p (\<lambda>r. r\<lparr>killed := True\<rparr>)) (
    sq (if state pr = SLEEPING then upd_proc p (\<lambda>r. r\<lparr>state := RUNNABLE\<rparr>) else ret ()) (
    sq (release (LkProc p)) (
    ret 0))))
     else (sq (release (LkProc p)) (
       kill_scan n ps)))))"

definition kill :: "int \<Rightarrow> ('x tasks_scheme, int) kmonad" where
  "kill n = kill_scan n [0..<NPROC]"

text \<open>
  The buffer at the kernel's or the user's end of a copy: a user virtual address, a kernel address,
  or a variable of the kernel, given by its bytes when it is read (as the destination of a copy it
  receives the bytes the routine returns).
\<close>

datatype place = UserVa uint64 | KernPa uint64 | KernVar "uint8 list"

primrec place_add :: "place \<Rightarrow> nat \<Rightarrow> place" where
  "place_add (UserVa a) n = UserVa (a + of_nat n)"
| "place_add (KernPa a) n = KernPa (a + of_nat n)"
| "place_add (KernVar bs) n = KernVar (drop n bs)"

definition either_copyout :: "place \<Rightarrow> uint8 list \<Rightarrow> ('x tasks_scheme, int) kmonad" where
  "either_copyout dst src = (bnd this_proc (\<lambda>p.
    bnd (get_proc p) (\<lambda>pr.
    case dst of
        UserVa a \<Rightarrow> copyout (pagetable pr) a src
      | KernPa a \<Rightarrow> (sq (mem_write a src) (
        ret 0))
      | KernVar bs \<Rightarrow> ret 0)))"

definition either_copyin :: "place \<Rightarrow> nat \<Rightarrow> ('x tasks_scheme, int \<times> uint8 list) kmonad" where
  "either_copyin src len = (bnd this_proc (\<lambda>p.
    bnd (get_proc p) (\<lambda>pr.
    case src of
        UserVa a \<Rightarrow> copyin (pagetable pr) a len
      | KernPa a \<Rightarrow> (bnd (gets (\<lambda>s. mem_bytes (mem s) a len)) (\<lambda>bs.
        ret (0, bs)))
      | KernVar bs \<Rightarrow> ret (0, take len bs))))"

end
