(* ===== verification/Sleeplock.thy ===== *)
theory Sleeplock
  imports Sched
begin

text \<open>
  \<^verbatim>\<open>src/kernel/sleeplock.c\<close>: the locks of buffers and inodes, which a process holds across
  disk transfers. A process that finds the lock taken goes to sleep: its routine has the outcome
  \<open>Sleep\<close> on the channel of the lock, before any change to the lock's state.
\<close>

section \<open>Operations\<close>

record sleeplock =
  sl_locked :: bool
  sl_pid :: int

record sleepers = tasks +
  sleeplocks :: "sleep_id \<Rightarrow> sleeplock"

primrec sl_chan :: "sleep_id \<Rightarrow> chan" where
  "sl_chan (SlBuf i) = ChanBufLock i"
| "sl_chan (SlInode i) = ChanInodeLock i"

definition upd_sleeplock :: "sleep_id \<Rightarrow> sleeplock \<Rightarrow> ('x sleepers_scheme, unit) kmonad" where
  "upd_sleeplock i l = modify (\<lambda>s. s\<lparr>sleeplocks := (sleeplocks s)(i := l)\<rparr>)"

definition initsleeplock :: "sleep_id \<Rightarrow> ('x sleepers_scheme, unit) kmonad" where
  "initsleeplock i = (
    sq (initlock (LkSleep i)) (
    upd_sleeplock i \<lparr>sl_locked = False, sl_pid = 0\<rparr>))"

definition acquiresleep :: "sleep_id \<Rightarrow> ('x sleepers_scheme, unit) kmonad" where
  "acquiresleep i = (
    sq (acquire (LkSleep i)) (
    bnd (gets (\<lambda>s. sl_locked (sleeplocks s i))) (\<lambda>l.
    if l then sleep_on (sl_chan i)
      else (
        bnd this_proc (\<lambda>p.
        bnd (get_proc p) (\<lambda>pr.
        sq (upd_sleeplock i \<lparr>sl_locked = True, sl_pid = pid pr\<rparr>) (
        release (LkSleep i))))))))"

definition releasesleep :: "sleep_id \<Rightarrow> ('x sleepers_scheme, unit) kmonad" where
  "releasesleep i = (
    sq (acquire (LkSleep i)) (
    sq (upd_sleeplock i \<lparr>sl_locked = False, sl_pid = 0\<rparr>) (
    sq (wakeup (sl_chan i)) (
    release (LkSleep i)))))"

definition holdingsleep :: "sleep_id \<Rightarrow> ('x sleepers_scheme, bool) kmonad" where
  "holdingsleep i = (
    sq (acquire (LkSleep i)) (
    bnd (gets (\<lambda>s. sleeplocks s i)) (\<lambda>l.
    bnd this_proc (\<lambda>p.
    bnd (get_proc p) (\<lambda>pr.
    let r = (sl_locked l \<and> sl_pid l = pid pr) in
    sq (release (LkSleep i)) (
    ret r))))))"

end
