(* ===== verification/Fsdata.thy ===== *)
theory Fsdata
  imports Bytes Param Kstring
begin

text \<open>
  The on-disk format of \<^verbatim>\<open>include/kernel/fs.h\<close> with \<^verbatim>\<open>stat.h\<close> and \<^verbatim>\<open>fcntl.h\<close>: the layout of the disk,
  of the super block, of an inode on disk and of a directory entry. A block is a list of \<open>BSIZE\<close>
  bytes; a struct in it is read and written field by field at the offsets C gives the fields.
\<close>

section \<open>Constants\<close>

definition ROOTINO :: uint32 where "ROOTINO = 1"
definition BSIZE :: nat where "BSIZE = 1024"
definition FSMAGIC :: uint32 where "FSMAGIC = 0x10203040"
definition NDIRECT :: nat where "NDIRECT = 12"
definition NINDIRECT :: nat where "NINDIRECT = BSIZE div 4"
definition MAXFILE :: nat where "MAXFILE = NDIRECT + NINDIRECT"
definition DIRSIZ :: nat where "DIRSIZ = 14"

definition T_DIR :: uint16 where "T_DIR = 1"
definition T_FILE :: uint16 where "T_FILE = 2"
definition T_DEVICE :: uint16 where "T_DEVICE = 3"

definition O_RDONLY :: uint32 where "O_RDONLY = 0x000"
definition O_WRONLY :: uint32 where "O_WRONLY = 0x001"
definition O_RDWR :: uint32 where "O_RDWR = 0x002"
definition O_CREATE :: uint32 where "O_CREATE = 0x200"
definition O_TRUNC :: uint32 where "O_TRUNC = 0x400"

section \<open>The super block\<close>

record superblock =
  magic :: uint32
  sb_size :: uint32
  nblocks :: uint32
  ninodes :: uint32
  nlog :: uint32
  logstart :: uint32
  inodestart :: uint32
  bmapstart :: uint32

definition get_superblock :: "uint8 list \<Rightarrow> superblock" where
  "get_superblock bs = \<lparr>magic = get32 bs 0, sb_size = get32 bs 4, nblocks = get32 bs 8, ninodes = get32 bs 12,
     nlog = get32 bs 16, logstart = get32 bs 20, inodestart = get32 bs 24, bmapstart = get32 bs 28\<rparr>"

definition put_superblock :: "superblock \<Rightarrow> uint8 list" where
  "put_superblock sb = concat (map (\<lambda>v. le_encode 4 (unat v))
     [magic sb, sb_size sb, nblocks sb, ninodes sb, nlog sb, logstart sb, inodestart sb, bmapstart sb])"

section \<open>Inodes on disk\<close>

record dinode =
  d_type :: uint16
  d_major :: uint16
  d_minor :: uint16
  d_nlink :: uint16
  d_size :: uint32
  d_addrs :: "uint32 list"

definition DINODE_SIZE :: nat where "DINODE_SIZE = 64"

definition IPB :: nat where "IPB = BSIZE div DINODE_SIZE"

definition IBLOCK :: "uint32 \<Rightarrow> superblock \<Rightarrow> uint32" where
  "IBLOCK i sb = i div of_nat IPB + inodestart sb"

definition BPB :: nat where "BPB = BSIZE * 8"

definition BBLOCK :: "uint32 \<Rightarrow> superblock \<Rightarrow> uint32" where
  "BBLOCK b sb = b div of_nat BPB + bmapstart sb"

definition get_dinode :: "uint8 list \<Rightarrow> nat \<Rightarrow> dinode" where
  "get_dinode bs o0 = \<lparr>d_type = get16 bs o0, d_major = get16 bs (o0 + 2), d_minor = get16 bs (o0 + 4),
     d_nlink = get16 bs (o0 + 6), d_size = get32 bs (o0 + 8),
     d_addrs = map (\<lambda>k. get32 bs (o0 + 12 + 4 * k)) [0..<NDIRECT + 1]\<rparr>"

definition dinode_bytes :: "dinode \<Rightarrow> uint8 list" where
  "dinode_bytes d = le_encode 2 (unat (d_type d)) @ le_encode 2 (unat (d_major d)) @ le_encode 2 (unat (d_minor d)) @
     le_encode 2 (unat (d_nlink d)) @ le_encode 4 (unat (d_size d)) @ concat (map (\<lambda>a. le_encode 4 (unat a)) (d_addrs d))"

definition put_dinode :: "uint8 list \<Rightarrow> nat \<Rightarrow> dinode \<Rightarrow> uint8 list" where
  "put_dinode bs o0 d = patch o0 (dinode_bytes d) bs"

section \<open>Directory entries\<close>

record dirent =
  de_inum :: uint16
  de_name :: "uint8 list"

definition DIRENT_SIZE :: nat where "DIRENT_SIZE = 16"

definition get_dirent :: "uint8 list \<Rightarrow> dirent" where
  "get_dirent bs = \<lparr>de_inum = get16 bs 0, de_name = slice 2 DIRSIZ bs\<rparr>"

definition dirent_bytes :: "dirent \<Rightarrow> uint8 list" where
  "dirent_bytes de = le_encode 2 (unat (de_inum de)) @ de_name de"

lemmas fs_consts = ROOTINO_def BSIZE_def FSMAGIC_def NDIRECT_def NINDIRECT_def MAXFILE_def DIRSIZ_def T_DIR_def
  T_FILE_def T_DEVICE_def DINODE_SIZE_def IPB_def BPB_def DIRENT_SIZE_def

text \<open>The bytes of a string constant, and a C string in an array of bytes.\<close>

definition bytes_of :: "string \<Rightarrow> uint8 list" where
  "bytes_of s = map (\<lambda>c. of_char c) s"

definition cptr_of :: "uint8 list \<Rightarrow> cptr" where
  "cptr_of bs = (\<lambda>i. if i < length bs then bs ! i else 0)"

section \<open>Round trips\<close>

lemma slice_append_left: "off + n \<le> length xs \<Longrightarrow> slice off n (xs @ ys) = slice off n xs"
  by (simp add: slice_def)

lemma slice_append_right: "length xs \<le> off \<Longrightarrow> slice off n (xs @ ys) = slice (off - length xs) n ys"
  by (simp add: slice_def)

lemma slice_all: "length xs = n \<Longrightarrow> slice 0 n xs = xs"
  by (simp add: slice_def)

lemma slice_prefix: "length xs = n \<Longrightarrow> slice 0 n (xs @ ys) = xs"
  by (simp add: slice_def)

lemma slice_slice: "a + n \<le> m \<Longrightarrow> slice a n (slice o0 m bs) = slice (o0 + a) n bs"
  by (simp add: slice_def drop_take min_def ac_simps)

lemma le_decode_encode32 [simp]: "(of_nat (le_decode (le_encode 4 (unat v))) :: uint32) = v"
proof -
  have "unat v < 256 ^ 4"
    using unat_less_exp [of v] by simp
  then show ?thesis by (simp add: le_decode_encode)
qed

lemma le_decode_encode16 [simp]: "(of_nat (le_decode (le_encode 2 (unat v))) :: uint16) = v"
proof -
  have "unat v < 256 ^ 2"
    using unat_less_exp [of v] by simp
  then show ?thesis by (simp add: le_decode_encode)
qed

lemma get16_append: "get16 (le_encode 2 (unat v) @ ys) 0 = v"
  by (simp add: get16_def slice_prefix)

lemma get32_append: "get32 (le_encode 4 (unat v) @ ys) 0 = v"
  by (simp add: get32_def slice_prefix)

lemma get16_skip: "length xs \<le> off \<Longrightarrow> get16 (xs @ ys) off = get16 ys (off - length xs)"
  by (simp add: get16_def slice_append_right)

lemma get32_skip: "length xs \<le> off \<Longrightarrow> get32 (xs @ ys) off = get32 ys (off - length xs)"
  by (simp add: get32_def slice_append_right)

lemma get32_concat:
  "k < length vs \<Longrightarrow> get32 (concat (map (\<lambda>a. le_encode 4 (unat a)) vs) @ ys) (4 * k) = vs ! k"
proof (induction vs arbitrary: k)
  case Nil
  then show ?case by simp
next
  case (Cons v vs)
  then show ?case
    by (cases k) (simp_all add: get32_append get32_skip)
qed

lemma get_put_superblock: "get_superblock (put_superblock sb @ ys) = sb"
proof -
  have "get32 (put_superblock sb @ ys) (4 * k) =
      [magic sb, sb_size sb, nblocks sb, ninodes sb, nlog sb, logstart sb, inodestart sb, bmapstart sb] ! k" if "k < 8" for k
    unfolding put_superblock_def by (rule get32_concat) (use that in simp)
  from this [of 0] this [of 1] this [of 2] this [of 3] this [of 4] this [of 5] this [of 6] this [of 7] show ?thesis
    by (simp add: get_superblock_def)
qed

lemma length_concat_le_encode [simp]: "length (concat (map (\<lambda>a. le_encode n (f a)) vs)) = n * length vs"
  by (induction vs) simp_all

lemma length_dinode_bytes: "length (d_addrs d) = NDIRECT + 1 \<Longrightarrow> length (dinode_bytes d) = DINODE_SIZE"
  by (simp add: dinode_bytes_def fs_consts)

lemma get_dinode_bytes:
  assumes "length (d_addrs d) = NDIRECT + 1"
  shows "get_dinode (dinode_bytes d @ ys) 0 = d"
proof -
  have "map (\<lambda>k. get32 (dinode_bytes d @ ys) (12 + 4 * k)) [0..<NDIRECT + 1] = d_addrs d"
  proof (rule nth_equalityI)
    fix k assume "k < length (map (\<lambda>k. get32 (dinode_bytes d @ ys) (12 + 4 * k)) [0..<NDIRECT + 1])"
    then have "k < length (d_addrs d)" using assms by simp
    from get32_concat [OF this, of ys] show "map (\<lambda>k. get32 (dinode_bytes d @ ys) (12 + 4 * k)) [0..<NDIRECT + 1] ! k = d_addrs d ! k"
      using \<open>k < length (d_addrs d)\<close> assms by (simp add: dinode_bytes_def get32_skip del: upt_Suc)
  qed (use assms in simp)
  then show ?thesis
    by (simp add: get_dinode_def) (simp add: dinode_bytes_def get16_append get32_append get16_skip get32_skip)
qed

text \<open>Reading back an inode from the block it was written to, and the other inodes of the block.\<close>

lemma get_dinode_slice:
  shows "get_dinode bs o0 = get_dinode (slice o0 DINODE_SIZE bs) 0"
  by (simp add: get_dinode_def get16_def get32_def slice_slice fs_consts ac_simps)

lemma get_put_dinode:
  assumes "o0 + DINODE_SIZE \<le> length bs" and "length (d_addrs d) = NDIRECT + 1"
  shows "get_dinode (put_dinode bs o0 d) o0 = d"
proof -
  have "slice o0 DINODE_SIZE (put_dinode bs o0 d) = dinode_bytes d"
    unfolding put_dinode_def by (rule slice_patch_same) (use assms in \<open>simp_all add: length_dinode_bytes\<close>)
  then show ?thesis
    using get_dinode_slice [of "put_dinode bs o0 d" o0] get_dinode_bytes [OF assms(2), of "[]"] assms
    by (simp add: put_dinode_def length_dinode_bytes)
qed

lemma get_put_dinode_other:
  assumes "o0 + DINODE_SIZE \<le> length bs" and "length (d_addrs d) = NDIRECT + 1"
    and "o1 + DINODE_SIZE \<le> length bs" and "o1 + DINODE_SIZE \<le> o0 \<or> o0 + DINODE_SIZE \<le> o1"
  shows "get_dinode (put_dinode bs o0 d) o1 = get_dinode bs o1"
proof -
  have "slice o1 DINODE_SIZE (put_dinode bs o0 d) = slice o1 DINODE_SIZE bs"
    unfolding put_dinode_def by (rule slice_patch_other) (use assms in \<open>simp_all add: length_dinode_bytes\<close>)
  then show ?thesis
    using get_dinode_slice [of "put_dinode bs o0 d" o1] get_dinode_slice [of bs o1] assms
    by (simp add: put_dinode_def length_dinode_bytes)
qed

lemma get_dirent_bytes: "length (de_name de) = DIRSIZ \<Longrightarrow> get_dirent (dirent_bytes de) = de"
  by (simp add: get_dirent_def dirent_bytes_def get16_append slice_append_right slice_all)

end
