(* ===== verification/Bio.thy ===== *)
theory Bio
  imports Sleeplock Fsdata
begin

text \<open>
  \<^verbatim>\<open>src/kernel/fs/bio.c\<close> and \<^verbatim>\<open>include/kernel/buf.h\<close>: the cache of disk blocks. A buffer pointer is an
  index into \<^verbatim>\<open>bcache.buf\<close>; index \<open>NBUF\<close> is \<^verbatim>\<open>bcache.head\<close>, the anchor of the doubly linked list in order
  of last use.

  \<open>disk_rw\<close> is what \<open>virtio_disk_rw\<close> does to the disk and the buffer when the device has completed
  the request; the driver itself is the theory \<open>Virtio\<close>. \<open>dtrace\<close> records every block written to the
  disk, in order: a crash leaves the disk with the effect of some prefix of these writes.
\<close>

section \<open>Operations\<close>

record buf =
  b_valid :: bool
  b_disk :: bool
  b_dev :: uint32
  b_blockno :: uint32
  b_refcnt :: int
  b_prev :: nat
  b_next :: nat
  b_data :: "uint8 list"

type_synonym disk = "uint32 \<Rightarrow> uint8 list"

record bio = sleepers +
  bcache :: "nat \<Rightarrow> buf"
  disk :: disk
  dtrace :: "(uint32 \<times> uint8 list) list"

abbreviation bhead :: nat where "bhead \<equiv> NBUF"

definition upd_buf :: "nat \<Rightarrow> (buf \<Rightarrow> buf) \<Rightarrow> ('x bio_scheme, unit) kmonad" where
  "upd_buf b f = modify (\<lambda>s. s\<lparr>bcache := (bcache s)(b := f (bcache s b))\<rparr>)"

definition get_buf :: "nat \<Rightarrow> ('x bio_scheme, buf) kmonad" where
  "get_buf b = gets (\<lambda>s. bcache s b)"

definition disk_rw :: "nat \<Rightarrow> bool \<Rightarrow> ('x bio_scheme, unit) kmonad" where
  "disk_rw b write = (
    bnd (get_buf b) (\<lambda>r.
    if write then modify (\<lambda>s. s\<lparr>disk := (disk s)(b_blockno r := b_data r), dtrace := dtrace s @ [(b_blockno r, b_data r)]\<rparr>)
      else (
        bnd (gets disk) (\<lambda>d.
        upd_buf b (\<lambda>r. r\<lparr>b_data := d (b_blockno r)\<rparr>)))))"

text \<open>The two assignments that put \<open>b\<close> behind the head of the list.\<close>

definition link_front :: "nat \<Rightarrow> ('x bio_scheme, unit) kmonad" where
  "link_front b = (
    bnd (get_buf bhead) (\<lambda>h.
    sq (upd_buf b (\<lambda>r. r\<lparr>b_next := b_next h, b_prev := bhead\<rparr>)) (
    sq (upd_buf (b_next h) (\<lambda>r. r\<lparr>b_prev := b\<rparr>)) (
    upd_buf bhead (\<lambda>r. r\<lparr>b_next := b\<rparr>)))))"

definition binit :: "('x bio_scheme, unit) kmonad" where
  "binit = (
    sq (initlock LkBcache) (
    sq (upd_buf bhead (\<lambda>r. r\<lparr>b_prev := bhead, b_next := bhead\<rparr>)) (
    for_each [0..<NBUF] (\<lambda>b. (sq (initsleeplock (SlBuf b)) (link_front b))))))"

primrec bget_cached :: "nat \<Rightarrow> nat \<Rightarrow> uint32 \<Rightarrow> uint32 \<Rightarrow> ('x bio_scheme, nat option) kmonad" where
  "bget_cached 0 b dev blockno = diverge"
| "bget_cached (Suc fuel) b dev blockno =
     (if b = bhead then ret None
      else (
        bnd (get_buf b) (\<lambda>r.
        if b_dev r = dev \<and> b_blockno r = blockno then ret (Some b)
          else bget_cached fuel (b_next r) dev blockno)))"

primrec bget_lru :: "nat \<Rightarrow> nat \<Rightarrow> ('x bio_scheme, nat option) kmonad" where
  "bget_lru 0 b = diverge"
| "bget_lru (Suc fuel) b =
     (if b = bhead then ret None
      else (
        bnd (get_buf b) (\<lambda>r.
        if b_refcnt r = 0 then ret (Some b)
          else bget_lru fuel (b_prev r))))"

definition bget :: "uint32 \<Rightarrow> uint32 \<Rightarrow> ('x bio_scheme, nat) kmonad" where
  "bget dev blockno = (
    sq (acquire LkBcache) (
    bnd (get_buf bhead) (\<lambda>h.
    bnd (bget_cached (Suc NBUF) (b_next h) dev blockno) (\<lambda>c.
    case c of
        Some b \<Rightarrow> (
          sq (upd_buf b (\<lambda>r. r\<lparr>b_refcnt := b_refcnt r + 1\<rparr>)) (
          sq (release LkBcache) (
          sq (acquiresleep (SlBuf b)) (
          ret b))))
      | None \<Rightarrow> (
        bnd (bget_lru (Suc NBUF) (b_prev h)) (\<lambda>u.
        case u of
            Some b \<Rightarrow> (
              sq (upd_buf b (\<lambda>r. r\<lparr>b_dev := dev, b_blockno := blockno, b_valid := False, b_refcnt := 1\<rparr>)) (
              sq (release LkBcache) (
              sq (acquiresleep (SlBuf b)) (
              ret b))))
          | None \<Rightarrow> panic ''bget: no buffers''))))))"

definition bread :: "uint32 \<Rightarrow> uint32 \<Rightarrow> ('x bio_scheme, nat) kmonad" where
  "bread dev blockno = (
    bnd (bget dev blockno) (\<lambda>b.
    bnd (get_buf b) (\<lambda>r.
    if \<not> b_valid r then (
       sq (disk_rw b False) (
       sq (upd_buf b (\<lambda>r. r\<lparr>b_valid := True\<rparr>)) (
       ret b)))
      else ret b)))"

definition bwrite :: "nat \<Rightarrow> ('x bio_scheme, unit) kmonad" where
  "bwrite b = (
    bnd (holdingsleep (SlBuf b)) (\<lambda>h.
    if \<not> h then panic ''bwrite'' else disk_rw b True))"

definition brelse :: "nat \<Rightarrow> ('x bio_scheme, unit) kmonad" where
  "brelse b = (
    bnd (holdingsleep (SlBuf b)) (\<lambda>h.
    if \<not> h then panic ''brelse''
      else (
        sq (releasesleep (SlBuf b)) (
        sq (acquire LkBcache) (
        sq (upd_buf b (\<lambda>r. r\<lparr>b_refcnt := b_refcnt r - 1\<rparr>)) (
        bnd (get_buf b) (\<lambda>r.
        sq (if b_refcnt r = 0 then (
            sq (upd_buf (b_next r) (\<lambda>n. n\<lparr>b_prev := b_prev r\<rparr>)) (
            bnd (get_buf b) (\<lambda>r.
            sq (upd_buf (b_prev r) (\<lambda>n. n\<lparr>b_next := b_next r\<rparr>)) (
            link_front b))))
          else ret ()) (
        release LkBcache))))))))"

definition bpin :: "nat \<Rightarrow> ('x bio_scheme, unit) kmonad" where
  "bpin b = (
    sq (acquire LkBcache) (
    sq (upd_buf b (\<lambda>r. r\<lparr>b_refcnt := b_refcnt r + 1\<rparr>)) (
    release LkBcache)))"

definition bunpin :: "nat \<Rightarrow> ('x bio_scheme, unit) kmonad" where
  "bunpin b = (
    sq (acquire LkBcache) (
    sq (upd_buf b (\<lambda>r. r\<lparr>b_refcnt := b_refcnt r - 1\<rparr>)) (
    release LkBcache)))"

end
