(* ===== verification/Log.thy ===== *)
theory Log
  imports Bio
begin

text \<open>
  \<^verbatim>\<open>src/kernel/fs/log.c\<close>: the write-ahead log that makes the disk updates of a system call atomic. A
  process that has to wait for log space or for a commit goes to sleep on the log.
\<close>

section \<open>Operations\<close>

record logheader =
  lh_n :: int
  lh_block :: "uint32 list"

record logst =
  log_start :: uint32
  log_size :: int
  outstanding :: int
  committing :: bool
  log_dev :: uint32
  lh :: logheader

record logged = bio +
  klog :: logst

definition upd_log :: "(logst \<Rightarrow> logst) \<Rightarrow> ('x logged_scheme, unit) kmonad" where
  "upd_log f = modify (\<lambda>s. s\<lparr>klog := f (klog s)\<rparr>)"

definition get_log :: "('x logged_scheme, logst) kmonad" where
  "get_log = gets klog"

text \<open>The log block of entry \<open>tail\<close>.\<close>

definition log_block :: "logst \<Rightarrow> nat \<Rightarrow> uint32" where
  "log_block l tail = log_start l + of_nat tail + 1"

definition install_trans :: "bool \<Rightarrow> ('x logged_scheme, unit) kmonad" where
  "install_trans recovering = (
    bnd get_log (\<lambda>l.
    for_each [0..<nat (lh_n (lh l))] (\<lambda>tail. (
      bnd (bread (log_dev l) (log_block l tail)) (\<lambda>lbuf.
      bnd (bread (log_dev l) (lh_block (lh l) ! tail)) (\<lambda>dbuf.
      bnd (get_buf lbuf) (\<lambda>r.
      sq (upd_buf dbuf (\<lambda>d. d\<lparr>b_data := b_data r\<rparr>)) (
      sq (bwrite dbuf) (
      sq (if \<not> recovering then bunpin dbuf else ret ()) (
      sq (brelse lbuf) (
      brelse dbuf)))))))))))"

text \<open>
  The header block: the count, then the block numbers. A count larger than the array makes the
  loop of \<open>read_head\<close> store outside it.
\<close>

definition read_head :: "('x logged_scheme, unit) kmonad" where
  "read_head = (
    bnd get_log (\<lambda>l.
    bnd (bread (log_dev l) (log_start l)) (\<lambda>buf.
    bnd (get_buf buf) (\<lambda>r.
    let n = sint (get32 (b_data r) 0) in
    if n > int LOGSIZE then ub
      else (
        sq (upd_log (\<lambda>l. l\<lparr>lh := \<lparr>lh_n = n, lh_block =
          map (\<lambda>i. get32 (b_data r) (4 + 4 * i)) [0..<nat n] @ drop (nat n) (lh_block (lh l))\<rparr>\<rparr>)) (
        brelse buf))))))"

definition header_bytes :: "logheader \<Rightarrow> uint8 list \<Rightarrow> uint8 list" where
  "header_bytes h bs = fold (\<lambda>i bs. put32 bs (4 + 4 * i) (lh_block h ! i)) [0..<nat (lh_n h)]
     (put32 bs 0 (word_of_int (lh_n h)))"

definition write_head :: "('x logged_scheme, unit) kmonad" where
  "write_head = (
    bnd get_log (\<lambda>l.
    bnd (bread (log_dev l) (log_start l)) (\<lambda>buf.
    sq (upd_buf buf (\<lambda>r. r\<lparr>b_data := header_bytes (lh l) (b_data r)\<rparr>)) (
    sq (bwrite buf) (
    brelse buf)))))"

definition set_lh_n :: "int \<Rightarrow> ('x logged_scheme, unit) kmonad" where
  "set_lh_n n = upd_log (\<lambda>l. l\<lparr>lh := (lh l)\<lparr>lh_n := n\<rparr>\<rparr>)"

definition recover_from_log :: "('x logged_scheme, unit) kmonad" where
  "recover_from_log = (sq read_head (sq (install_trans True) (sq (set_lh_n 0) (write_head))))"

definition initlog :: "uint32 \<Rightarrow> superblock \<Rightarrow> ('x logged_scheme, unit) kmonad" where
  "initlog dev sb =
     (if 4 + 4 * LOGSIZE \<ge> BSIZE then panic ''initlog: too big logheader''
      else (
        sq (initlock LkLog) (
        sq (upd_log (\<lambda>l. l\<lparr>log_start := logstart sb, log_size := sint (nlog sb), log_dev := dev\<rparr>)) (
        recover_from_log))))"

definition begin_op :: "('x logged_scheme, unit) kmonad" where
  "begin_op = (
    sq (acquire LkLog) (
    bnd get_log (\<lambda>l.
    if committing l then sleep_on ChanLog
      else if lh_n (lh l) + (outstanding l + 1) * int MAXOPBLOCKS > int LOGSIZE then sleep_on ChanLog
      else (
        sq (upd_log (\<lambda>l. l\<lparr>outstanding := outstanding l + 1\<rparr>)) (
        release LkLog)))))"

definition write_log :: "('x logged_scheme, unit) kmonad" where
  "write_log = (
    bnd get_log (\<lambda>l.
    for_each [0..<nat (lh_n (lh l))] (\<lambda>tail. (
      bnd (bread (log_dev l) (log_block l tail)) (\<lambda>to.
      bnd (bread (log_dev l) (lh_block (lh l) ! tail)) (\<lambda>from.
      bnd (get_buf from) (\<lambda>r.
      sq (upd_buf to (\<lambda>d. d\<lparr>b_data := b_data r\<rparr>)) (
      sq (bwrite to) (
      sq (brelse from) (
      brelse to))))))))))"

definition commit :: "('x logged_scheme, unit) kmonad" where
  "commit = (
    bnd get_log (\<lambda>l.
    if lh_n (lh l) > 0 then (sq write_log (sq write_head (sq (install_trans False) (sq (set_lh_n 0) (write_head)))))
      else ret ()))"

definition end_op :: "('x logged_scheme, unit) kmonad" where
  "end_op = (
    sq (acquire LkLog) (
    sq (upd_log (\<lambda>l. l\<lparr>outstanding := outstanding l - 1\<rparr>)) (
    bnd get_log (\<lambda>l.
    if committing l then panic ''log.committing''
      else (
        let do_commit = (outstanding l = 0) in
        sq (if do_commit then upd_log (\<lambda>l. l\<lparr>committing := True\<rparr>) else wakeup ChanLog) (
        sq (release LkLog) (
        if do_commit then (
            sq commit (
            sq (acquire LkLog) (
            sq (upd_log (\<lambda>l. l\<lparr>committing := False\<rparr>)) (
            sq (wakeup ChanLog) (
            release LkLog)))))
          else ret ())))))))"

text \<open>The index at which \<open>log_write\<close> stores the block number: that of an equal entry, or the end.\<close>

definition log_slot :: "logheader \<Rightarrow> uint32 \<Rightarrow> nat" where
  "log_slot h blockno = (case find (\<lambda>i. lh_block h ! i = blockno) [0..<nat (lh_n h)] of Some i \<Rightarrow> i | None \<Rightarrow> nat (lh_n h))"

definition log_write :: "nat \<Rightarrow> ('x logged_scheme, unit) kmonad" where
  "log_write b = (
    sq (acquire LkLog) (
    bnd get_log (\<lambda>l.
    if lh_n (lh l) \<ge> int LOGSIZE \<or> lh_n (lh l) \<ge> log_size l - 1 then panic ''too big a transaction''
      else if outstanding l < 1 then panic ''log_write outside of trans''
      else (
        bnd (get_buf b) (\<lambda>r.
        let i = log_slot (lh l) (b_blockno r) in
        sq (upd_log (\<lambda>l. l\<lparr>lh := (lh l)\<lparr>lh_block := (lh_block (lh l))[i := b_blockno r]\<rparr>\<rparr>)) (
        sq (if int i = lh_n (lh l) then (sq (bpin b) (set_lh_n (lh_n (lh l) + 1)))
          else ret ()) (
        release LkLog)))))))"

end
