(* ===== verification/Fs.thy ===== *)
theory Fs
  imports Log
begin

unbundle bit_operations_syntax

text \<open>
  \<^verbatim>\<open>src/kernel/fs/fs.c\<close> with \<^verbatim>\<open>struct inode\<close> of \<^verbatim>\<open>include/kernel/file.h\<close>: blocks, inodes, directories and
  path names. An inode pointer is an index into \<^verbatim>\<open>itable.inode\<close>. A C string is the list of its bytes
  before the terminator, or an array of bytes where the code has one (the name of a directory entry).

  \<open>readi\<close> returns the result of the C function and the bytes it has copied out, \<open>writei\<close> copies
  from a \<open>place\<close>.
\<close>

section \<open>State\<close>

record inode =
  i_dev :: uint32
  i_inum :: uint32
  i_ref :: int
  i_valid :: bool
  i_type :: uint16
  i_major :: uint16
  i_minor :: uint16
  i_nlink :: uint16
  i_size :: uint32
  i_addrs :: "uint32 list"

record fsys = logged +
  sb :: superblock
  itable :: "nat \<Rightarrow> inode"

definition upd_inode :: "nat \<Rightarrow> (inode \<Rightarrow> inode) \<Rightarrow> ('x fsys_scheme, unit) kmonad" where
  "upd_inode ip f = modify (\<lambda>s. s\<lparr>itable := (itable s)(ip := f (itable s ip))\<rparr>)"

definition get_inode :: "nat \<Rightarrow> ('x fsys_scheme, inode) kmonad" where
  "get_inode ip = gets (\<lambda>s. itable s ip)"

section \<open>Blocks\<close>

definition readsb :: "uint32 \<Rightarrow> ('x fsys_scheme, unit) kmonad" where
  "readsb dev = (
    bnd (bread dev 1) (\<lambda>bp.
    bnd (get_buf bp) (\<lambda>r.
    sq (modify (\<lambda>s. s\<lparr>sb := get_superblock (b_data r)\<rparr>)) (
    brelse bp))))"

definition fsinit :: "uint32 \<Rightarrow> ('x fsys_scheme, unit) kmonad" where
  "fsinit dev = (
    sq (readsb dev) (
    bnd (gets sb) (\<lambda>sb.
    if magic sb \<noteq> FSMAGIC then panic ''invalid file system''
      else initlog dev sb)))"

definition bzero :: "uint32 \<Rightarrow> uint32 \<Rightarrow> ('x fsys_scheme, unit) kmonad" where
  "bzero dev bno = (
    bnd (bread dev bno) (\<lambda>bp.
    sq (upd_buf bp (\<lambda>r. r\<lparr>b_data := replicate BSIZE 0\<rparr>)) (
    sq (log_write bp) (
    brelse bp))))"

text \<open>Bit \<open>bi\<close> of a bitmap block: the test, and the byte with the bit set or cleared.\<close>

definition bit_mask :: "nat \<Rightarrow> uint8" where
  "bit_mask bi = push_bit (bi mod 8) 1"

definition bit_free :: "uint8 list \<Rightarrow> nat \<Rightarrow> bool" where
  "bit_free data bi \<longleftrightarrow> data ! (bi div 8) AND bit_mask bi = 0"

definition set_bit_used :: "uint8 list \<Rightarrow> nat \<Rightarrow> uint8 list" where
  "set_bit_used data bi = data[bi div 8 := data ! (bi div 8) OR bit_mask bi]"

definition set_bit_free :: "uint8 list \<Rightarrow> nat \<Rightarrow> uint8 list" where
  "set_bit_free data bi = data[bi div 8 := data ! (bi div 8) AND NOT (bit_mask bi)]"

text \<open>
  The loops of \<open>balloc\<close>: \<open>k\<close> counts the bitmap blocks, so the loop variable \<^verbatim>\<open>b\<close> is \<open>k * BPB\<close>; the
  inner loop finds the first free bit.
\<close>

primrec balloc_loop :: "uint32 \<Rightarrow> nat list \<Rightarrow> ('x fsys_scheme, uint32) kmonad" where
  "balloc_loop dev [] = panic ''balloc: out of blocks''"
| "balloc_loop dev (k # ks) = (
  bnd (gets sb) (\<lambda>sb.
  let b = k * BPB in
  bnd (bread dev (BBLOCK (of_nat b) sb)) (\<lambda>bp.
  bnd (get_buf bp) (\<lambda>r.
  case find (bit_free (b_data r)) [0..<min BPB (unat (sb_size sb) - b)] of
      Some bi \<Rightarrow> (
        sq (upd_buf bp (\<lambda>r. r\<lparr>b_data := set_bit_used (b_data r) bi\<rparr>)) (
        sq (log_write bp) (
        sq (brelse bp) (
        sq (bzero dev (of_nat (b + bi))) (
        ret (of_nat (b + bi)))))))
    | None \<Rightarrow> (sq (brelse bp) (balloc_loop dev ks))))))"

definition balloc :: "uint32 \<Rightarrow> ('x fsys_scheme, uint32) kmonad" where
  "balloc dev = (bnd (gets sb) (\<lambda>sb. balloc_loop dev [0..<(unat (sb_size sb) + BPB - 1) div BPB]))"

definition bfree :: "uint32 \<Rightarrow> uint32 \<Rightarrow> ('x fsys_scheme, unit) kmonad" where
  "bfree dev b = (
    bnd (gets sb) (\<lambda>sb.
    bnd (bread dev (BBLOCK b sb)) (\<lambda>bp.
    let bi = unat b mod BPB in
    bnd (get_buf bp) (\<lambda>r.
    if bit_free (b_data r) bi then panic ''freeing free block''
      else (
        sq (upd_buf bp (\<lambda>r. r\<lparr>b_data := set_bit_free (b_data r) bi\<rparr>)) (
        sq (log_write bp) (
        brelse bp)))))))"

section \<open>Inodes\<close>

definition iinit :: "('x fsys_scheme, unit) kmonad" where
  "iinit = (sq (initlock LkItable) (for_each [0..<NINODE] (\<lambda>i. initsleeplock (SlInode i))))"

text \<open>
  The table entry \<open>iget\<close> uses: the one that holds the inode already, or the first with no
  references.
\<close>

definition iget :: "uint32 \<Rightarrow> uint32 \<Rightarrow> ('x fsys_scheme, nat) kmonad" where
  "iget dev inum = (
    sq (acquire LkItable) (
    bnd (gets itable) (\<lambda>t.
    case find (\<lambda>ip. i_ref (t ip) > 0 \<and> i_dev (t ip) = dev \<and> i_inum (t ip) = inum) [0..<NINODE] of
        Some ip \<Rightarrow> (
          sq (upd_inode ip (\<lambda>r. r\<lparr>i_ref := i_ref r + 1\<rparr>)) (
          sq (release LkItable) (
          ret ip)))
      | None \<Rightarrow> (case find (\<lambda>ip. i_ref (t ip) = 0) [0..<NINODE] of
          None \<Rightarrow> panic ''iget: no inodes''
        | Some ip \<Rightarrow> (
          sq (upd_inode ip (\<lambda>r. r\<lparr>i_dev := dev, i_inum := inum, i_ref := 1, i_valid := False\<rparr>)) (
          sq (release LkItable) (
          ret ip)))))))"

text \<open>Byte offset in its block of inode \<open>inum\<close>.\<close>

definition dinode_off :: "uint32 \<Rightarrow> nat" where
  "dinode_off inum = DINODE_SIZE * (unat inum mod IPB)"

primrec ialloc_loop :: "uint32 \<Rightarrow> uint16 \<Rightarrow> nat list \<Rightarrow> ('x fsys_scheme, nat) kmonad" where
  "ialloc_loop dev type [] = panic ''ialloc: no inodes''"
| "ialloc_loop dev type (inum # inums) = (
  bnd (gets sb) (\<lambda>sb.
  bnd (bread dev (IBLOCK (of_nat inum) sb)) (\<lambda>bp.
  bnd (get_buf bp) (\<lambda>r.
  if d_type (get_dinode (b_data r) (dinode_off (of_nat inum))) = 0 then (
    sq (upd_buf bp (\<lambda>r. r\<lparr>b_data := put_dinode (b_data r) (dinode_off (of_nat inum))
      \<lparr>d_type = type, d_major = 0, d_minor = 0, d_nlink = 0, d_size = 0, d_addrs = replicate (NDIRECT + 1) 0\<rparr>\<rparr>)) (
    sq (log_write bp) (
    sq (brelse bp) (
    iget dev (of_nat inum)))))
     else (sq (brelse bp) (ialloc_loop dev type inums))))))"

definition ialloc :: "uint32 \<Rightarrow> uint16 \<Rightarrow> ('x fsys_scheme, nat) kmonad" where
  "ialloc dev type = (bnd (gets sb) (\<lambda>sb. ialloc_loop dev type [1..<unat (ninodes sb)]))"

definition iupdate :: "nat \<Rightarrow> ('x fsys_scheme, unit) kmonad" where
  "iupdate ip = (
    bnd (gets sb) (\<lambda>sb.
    bnd (get_inode ip) (\<lambda>i.
    bnd (bread (i_dev i) (IBLOCK (i_inum i) sb)) (\<lambda>bp.
    sq (upd_buf bp (\<lambda>r. r\<lparr>b_data := put_dinode (b_data r) (dinode_off (i_inum i))
      \<lparr>d_type = i_type i, d_major = i_major i, d_minor = i_minor i, d_nlink = i_nlink i, d_size = i_size i,
       d_addrs = i_addrs i\<rparr>\<rparr>)) (
    sq (log_write bp) (
    brelse bp))))))"

definition idup :: "nat \<Rightarrow> ('x fsys_scheme, nat) kmonad" where
  "idup ip = (
    sq (acquire LkItable) (
    sq (upd_inode ip (\<lambda>r. r\<lparr>i_ref := i_ref r + 1\<rparr>)) (
    sq (release LkItable) (
    ret ip))))"

definition ilock :: "nat option \<Rightarrow> ('x fsys_scheme, unit) kmonad" where
  "ilock p = (case p of None \<Rightarrow> panic ''ilock''
   | Some ip \<Rightarrow> (
     bnd (get_inode ip) (\<lambda>i.
     if i_ref i < 1 then panic ''ilock''
       else (
         sq (acquiresleep (SlInode ip)) (
         bnd (get_inode ip) (\<lambda>i.
         if \<not> i_valid i then (
             bnd (gets sb) (\<lambda>sb.
             bnd (bread (i_dev i) (IBLOCK (i_inum i) sb)) (\<lambda>bp.
             bnd (get_buf bp) (\<lambda>r.
             let d = get_dinode (b_data r) (dinode_off (i_inum i)) in
             sq (upd_inode ip (\<lambda>i. i\<lparr>i_type := d_type d, i_major := d_major d, i_minor := d_minor d, i_nlink := d_nlink d,
               i_size := d_size d, i_addrs := d_addrs d\<rparr>)) (
             sq (brelse bp) (
             sq (upd_inode ip (\<lambda>i. i\<lparr>i_valid := True\<rparr>)) (
             if d_type d = 0 then panic ''ilock: no type'' else ret ())))))))
           else ret ()))))))"

definition iunlock :: "nat option \<Rightarrow> ('x fsys_scheme, unit) kmonad" where
  "iunlock p = (case p of None \<Rightarrow> panic ''iunlock''
   | Some ip \<Rightarrow> (
     bnd (holdingsleep (SlInode ip)) (\<lambda>h.
     bnd (get_inode ip) (\<lambda>i.
     if \<not> h \<or> i_ref i < 1 then panic ''iunlock''
       else releasesleep (SlInode ip)))))"

text \<open>The second loop of \<open>itrunc\<close>, over the entries of the indirect block.\<close>

definition itrunc_indirect :: "uint32 \<Rightarrow> nat \<Rightarrow> ('x fsys_scheme, unit) kmonad" where
  "itrunc_indirect dev bp = for_each [0..<NINDIRECT] (\<lambda>j. (
    bnd (get_buf bp) (\<lambda>r.
    let a = get32 (b_data r) (4 * j) in
    if a \<noteq> 0 then bfree dev a else ret ())))"

definition itrunc :: "nat \<Rightarrow> ('x fsys_scheme, unit) kmonad" where
  "itrunc ip = (
    sq (for_each [0..<NDIRECT] (\<lambda>k. (
      bnd (get_inode ip) (\<lambda>i.
      if i_addrs i ! k \<noteq> 0 then (
         sq (bfree (i_dev i) (i_addrs i ! k)) (
         upd_inode ip (\<lambda>i. i\<lparr>i_addrs := (i_addrs i)[k := 0]\<rparr>)))
        else ret ())))) (
    bnd (get_inode ip) (\<lambda>i.
    sq (if i_addrs i ! NDIRECT \<noteq> 0 then (
       bnd (bread (i_dev i) (i_addrs i ! NDIRECT)) (\<lambda>bp.
       sq (itrunc_indirect (i_dev i) bp) (
       sq (brelse bp) (
       sq (bfree (i_dev i) (i_addrs i ! NDIRECT)) (
       upd_inode ip (\<lambda>i. i\<lparr>i_addrs := (i_addrs i)[NDIRECT := 0]\<rparr>))))))
      else ret ()) (
    sq (upd_inode ip (\<lambda>i. i\<lparr>i_size := 0\<rparr>)) (
    iupdate ip)))))"

definition iput :: "nat \<Rightarrow> ('x fsys_scheme, unit) kmonad" where
  "iput ip = (
    sq (acquire LkItable) (
    bnd (get_inode ip) (\<lambda>i.
    sq (if i_ref i = 1 \<and> i_valid i \<and> i_nlink i = 0 then (
       sq (acquiresleep (SlInode ip)) (
       sq (release LkItable) (
       sq (itrunc ip) (
       sq (upd_inode ip (\<lambda>i. i\<lparr>i_type := 0\<rparr>)) (
       sq (iupdate ip) (
       sq (upd_inode ip (\<lambda>i. i\<lparr>i_valid := False\<rparr>)) (
       sq (releasesleep (SlInode ip)) (
       acquire LkItable))))))))
      else ret ()) (
    sq (upd_inode ip (\<lambda>i. i\<lparr>i_ref := i_ref i - 1\<rparr>)) (
    release LkItable)))))"

definition iunlockput :: "nat \<Rightarrow> ('x fsys_scheme, unit) kmonad" where
  "iunlockput ip = (sq (iunlock (Some ip)) (iput ip))"

section \<open>Inode content\<close>

definition bmap :: "nat \<Rightarrow> nat \<Rightarrow> ('x fsys_scheme, uint32) kmonad" where
  "bmap ip bn = (
    bnd (get_inode ip) (\<lambda>i.
    if bn < NDIRECT then
        (if i_addrs i ! bn = 0 then (
          bnd (balloc (i_dev i)) (\<lambda>addr.
          sq (upd_inode ip (\<lambda>i. i\<lparr>i_addrs := (i_addrs i)[bn := addr]\<rparr>)) (
          ret addr)))
         else ret (i_addrs i ! bn))
      else if bn - NDIRECT < NINDIRECT then (
        let bn = bn - NDIRECT in
        bnd ((if i_addrs i ! NDIRECT = 0 then (
          bnd (balloc (i_dev i)) (\<lambda>addr.
          sq (upd_inode ip (\<lambda>i. i\<lparr>i_addrs := (i_addrs i)[NDIRECT := addr]\<rparr>)) (
          ret addr)))
                else ret (i_addrs i ! NDIRECT))) (\<lambda>ind.
        bnd (bread (i_dev i) ind) (\<lambda>bp.
        bnd (get_buf bp) (\<lambda>r.
        let addr = get32 (b_data r) (4 * bn) in
        if addr = 0 then (
            bnd (balloc (i_dev i)) (\<lambda>addr.
            sq (upd_buf bp (\<lambda>r. r\<lparr>b_data := put32 (b_data r) (4 * bn) addr\<rparr>)) (
            sq (log_write bp) (
            sq (brelse bp) (
            ret addr)))))
          else (sq (brelse bp) (ret addr))))))
      else panic ''bmap: out of range''))"

text \<open>\<^verbatim>\<open>struct stat\<close>, 24 bytes; C leaves the four padding bytes open, they are zero here.\<close>

definition stati :: "nat \<Rightarrow> ('x fsys_scheme, uint8 list) kmonad" where
  "stati ip = (
    bnd (get_inode ip) (\<lambda>i.
    ret (le_encode 4 (unat (i_dev i)) @ le_encode 4 (unat (i_inum i)) @ le_encode 2 (unat (i_type i)) @
      le_encode 2 (unat (i_nlink i)) @ replicate 4 0 @ le_encode 8 (unat (i_size i)))))"

text \<open>
  \<open>readi\<close>: the loop has copied \<open>acc\<close> so far, \<open>off\<close> is the position in the file and \<open>n\<close> the number of
  bytes left. A failed copy makes the result \<open>-1\<close>.
\<close>

function readi_loop :: "nat \<Rightarrow> place \<Rightarrow> nat \<Rightarrow> nat \<Rightarrow> uint8 list \<Rightarrow> ('x fsys_scheme, int \<times> uint8 list) kmonad" where
  "readi_loop ip dst off n acc =
     (if n = 0 then ret (int (length acc), acc)
      else (
        bnd (get_inode ip) (\<lambda>i.
        bnd (bmap ip (off div BSIZE)) (\<lambda>blk.
        bnd (bread (i_dev i) blk) (\<lambda>bp.
        let m = min n (BSIZE - off mod BSIZE) in
        bnd (get_buf bp) (\<lambda>r.
        let src = slice (off mod BSIZE) m (b_data r) in
        bnd (either_copyout dst src) (\<lambda>c.
        if c = -1 then (sq (brelse bp) (ret (-1, acc)))
          else (sq (brelse bp) (readi_loop ip (place_add dst m) (off + m) (n - m) (acc @ src))))))))))"
  by pat_completeness auto
termination
  by (relation "measure (\<lambda>(ip, dst, off, n, acc). n)") (auto simp: BSIZE_def)

definition readi :: "nat \<Rightarrow> place \<Rightarrow> uint32 \<Rightarrow> uint32 \<Rightarrow> ('x fsys_scheme, int \<times> uint8 list) kmonad" where
  "readi ip dst off n = (
    bnd (get_inode ip) (\<lambda>i.
    if off > i_size i \<or> off + n < off then ret (0, [])
      else (
        let n = (if off + n > i_size i then i_size i - off else n) in
        readi_loop ip dst (unat off) (unat n) [])))"

text \<open>
  \<open>writei\<close>: the loop returns the position it has reached and the number of bytes written. What a
  failed \<open>copyin\<close> has copied before it failed is in the buffer.
\<close>

function writei_loop :: "nat \<Rightarrow> place \<Rightarrow> nat \<Rightarrow> nat \<Rightarrow> nat \<Rightarrow> ('x fsys_scheme, nat \<times> nat) kmonad" where
  "writei_loop ip src off n tot =
     (if n = 0 then ret (off, tot)
      else (
        bnd (get_inode ip) (\<lambda>i.
        bnd (bmap ip (off div BSIZE)) (\<lambda>blk.
        bnd (bread (i_dev i) blk) (\<lambda>bp.
        let m = min n (BSIZE - off mod BSIZE) in
        bnd (either_copyin src m) (\<lambda>(c, bs).
        sq (upd_buf bp (\<lambda>r. r\<lparr>b_data := patch (off mod BSIZE) bs (b_data r)\<rparr>)) (
        if c = -1 then (sq (brelse bp) (ret (off, tot)))
          else (
            sq (log_write bp) (
            sq (brelse bp) (
            writei_loop ip (place_add src m) (off + m) (n - m) (tot + m)))))))))))"
  by pat_completeness auto
termination
  by (relation "measure (\<lambda>(ip, src, off, n, tot). n)") (auto simp: BSIZE_def)

definition writei :: "nat \<Rightarrow> place \<Rightarrow> uint32 \<Rightarrow> uint32 \<Rightarrow> ('x fsys_scheme, int) kmonad" where
  "writei ip src off n = (
    bnd (get_inode ip) (\<lambda>i.
    if off > i_size i \<or> off + n < off then ret (-1)
      else if unat (off + n) > MAXFILE * BSIZE then ret (-1)
      else (
        bnd (writei_loop ip src (unat off) (unat n) 0) (\<lambda>(off, tot).
        bnd (get_inode ip) (\<lambda>i.
        sq (if off > unat (i_size i) then upd_inode ip (\<lambda>i. i\<lparr>i_size := of_nat off\<rparr>) else ret ()) (
        sq (iupdate ip) (
        ret (int tot))))))))"

declare readi_loop.simps [simp del] writei_loop.simps [simp del]

section \<open>Directories\<close>

definition namecmp :: "uint8 list \<Rightarrow> uint8 list \<Rightarrow> int" where
  "namecmp s t = strncmp (cptr_of s) (cptr_of t) DIRSIZ"

text \<open>Reading entry \<open>k\<close> of a directory, and the offsets at which there are entries.\<close>

definition read_dirent :: "nat \<Rightarrow> nat \<Rightarrow> string \<Rightarrow> ('x fsys_scheme, dirent) kmonad" where
  "read_dirent dp k msg = (
    bnd (readi dp (KernVar []) (of_nat (k * DIRENT_SIZE)) (of_nat DIRENT_SIZE)) (\<lambda>(c, bs).
    if c \<noteq> int DIRENT_SIZE then panic msg else ret (get_dirent bs)))"

definition dir_entries :: "uint32 \<Rightarrow> nat" where
  "dir_entries bytes = (unat bytes + DIRENT_SIZE - 1) div DIRENT_SIZE"

primrec dirlookup_loop :: "nat \<Rightarrow> uint8 list \<Rightarrow> nat list \<Rightarrow> ('x fsys_scheme, (nat \<times> nat) option) kmonad" where
  "dirlookup_loop dp name [] = ret None"
| "dirlookup_loop dp name (k # ks) = (
  bnd (read_dirent dp k ''dirlookup read'') (\<lambda>de.
  if de_inum de = 0 then dirlookup_loop dp name ks
    else if namecmp name (de_name de) = 0 then (
      bnd (get_inode dp) (\<lambda>i.
      bnd (iget (i_dev i) (ucast (de_inum de))) (\<lambda>ip.
      ret (Some (ip, k * DIRENT_SIZE)))))
    else dirlookup_loop dp name ks))"

definition dirlookup :: "nat \<Rightarrow> uint8 list \<Rightarrow> ('x fsys_scheme, (nat \<times> nat) option) kmonad" where
  "dirlookup dp name = (
    bnd (get_inode dp) (\<lambda>i.
    if i_type i \<noteq> T_DIR then panic ''dirlookup not DIR''
      else dirlookup_loop dp name [0..<dir_entries (i_size i)]))"

text \<open>The first free entry, or the end of the directory.\<close>

primrec free_dirent :: "nat \<Rightarrow> nat list \<Rightarrow> nat \<Rightarrow> ('x fsys_scheme, nat) kmonad" where
  "free_dirent dp [] end_k = ret end_k"
| "free_dirent dp (k # ks) end_k = (
  bnd (read_dirent dp k ''dirlink read'') (\<lambda>de.
  if de_inum de = 0 then ret k else free_dirent dp ks end_k))"

definition dirlink :: "nat \<Rightarrow> uint8 list \<Rightarrow> uint32 \<Rightarrow> ('x fsys_scheme, int) kmonad" where
  "dirlink dp name inum = (
    bnd (dirlookup dp name) (\<lambda>found.
    case found of
        Some (ip, off) \<Rightarrow> (sq (iput ip) (ret (-1)))
      | None \<Rightarrow> (
        bnd (get_inode dp) (\<lambda>i.
        bnd (free_dirent dp [0..<dir_entries (i_size i)] (dir_entries (i_size i))) (\<lambda>k.
        let de = \<lparr>de_inum = ucast inum, de_name = strncpy (cptr_of name) DIRSIZ\<rparr> in
        bnd (writei dp (KernVar (dirent_bytes de)) (of_nat (k * DIRENT_SIZE)) (of_nat DIRENT_SIZE)) (\<lambda>c.
        if c \<noteq> int DIRENT_SIZE then panic ''dirlink'' else ret 0))))))"

section \<open>Paths\<close>

text \<open>
  \<open>skipelem\<close>: the path after the element and the contents of the array \<open>name\<close>; \<open>None\<close> when there is
  no element.
\<close>

definition slash :: uint8 where "slash = 47"

definition skipelem :: "uint8 list \<Rightarrow> uint8 list \<Rightarrow> (uint8 list \<times> uint8 list) option" where
  "skipelem path name =
     (let s = dropWhile (\<lambda>c. c = slash) path in
      if s = [] then None
      else let e = takeWhile (\<lambda>c. c \<noteq> slash) s;
               rest = dropWhile (\<lambda>c. c = slash) (dropWhile (\<lambda>c. c \<noteq> slash) s) in
        Some (rest, if length e \<ge> DIRSIZ then take DIRSIZ e else patch 0 (e @ [0]) name))"

lemma skipelem_shorter: "skipelem path name = Some (rest, name') \<Longrightarrow> length rest < length path"
proof -
  assume *: "skipelem path name = Some (rest, name')"
  let ?s = "dropWhile (\<lambda>c. c = slash) path"
  from * have ne: "?s \<noteq> []" and r: "rest = dropWhile (\<lambda>c. c = slash) (dropWhile (\<lambda>c. c \<noteq> slash) ?s)"
    by (auto simp: skipelem_def Let_def split: if_splits)
  obtain c cs where s: "?s = c # cs" using ne by (cases ?s) auto
  with hd_dropWhile [of "\<lambda>c. c = slash" path] have "c \<noteq> slash" by auto
  with s r have "length rest \<le> length cs"
    by (metis (no_types, lifting) dropWhile.simps(2) length_dropWhile_le le_trans)
  moreover have "length ?s \<le> length path" by (rule length_dropWhile_le)
  ultimately show ?thesis using s by simp
qed

text \<open>
  \<open>namex\<close> returns the inode, if there is one, and the contents of \<open>name\<close>.
\<close>

function namex_loop :: "nat \<Rightarrow> uint8 list \<Rightarrow> bool \<Rightarrow> uint8 list \<Rightarrow> ('x fsys_scheme, nat option \<times> uint8 list) kmonad" where
  "namex_loop ip path nameiparent name =
     (case skipelem path name of
        None \<Rightarrow> (if nameiparent then (sq (iput ip) (ret (None, name))) else ret (Some ip, name))
      | Some (path', name') \<Rightarrow> (
        sq (ilock (Some ip)) (
        bnd (get_inode ip) (\<lambda>i.
        if i_type i \<noteq> T_DIR then (sq (iunlockput ip) (ret (None, name')))
          else if nameiparent \<and> path' = [] then (sq (iunlock (Some ip)) (ret (Some ip, name')))
          else (
            bnd (dirlookup ip name') (\<lambda>found.
            case found of
                None \<Rightarrow> (sq (iunlockput ip) (ret (None, name')))
              | Some (next, off) \<Rightarrow> (sq (iunlockput ip) (namex_loop next path' nameiparent name'))))))))"
  by pat_completeness auto
termination
  by (relation "measure (\<lambda>(ip, path, np, name). length path)") (auto simp: skipelem_shorter)

declare namex_loop.simps [simp del]

definition namex :: "uint8 list \<Rightarrow> bool \<Rightarrow> uint8 list \<Rightarrow> ('x fsys_scheme, nat option \<times> uint8 list) kmonad" where
  "namex path nameiparent name = (
    bnd ((if path \<noteq> [] \<and> hd path = slash then iget ROOTDEV ROOTINO
      else (
        bnd this_proc (\<lambda>p.
        bnd (get_proc p) (\<lambda>pr.
        case cwd pr of None \<Rightarrow> null_deref | Some ip \<Rightarrow> idup ip))))) (\<lambda>ip.
    namex_loop ip path nameiparent name))"

definition namei :: "uint8 list \<Rightarrow> ('x fsys_scheme, nat option) kmonad" where
  "namei path = (bnd (namex path False (replicate DIRSIZ 0)) (\<lambda>(ip, name). ret ip))"

definition nameiparent :: "uint8 list \<Rightarrow> uint8 list \<Rightarrow> ('x fsys_scheme, nat option \<times> uint8 list) kmonad" where
  "nameiparent path name = namex path True name"

end
