(* ===== verification/Device.thy ===== *)
theory Device
  imports Fs
begin

unbundle bit_operations_syntax

text \<open>
  The state of the device drivers and the registers of the devices.

  The devices themselves are not part of the program. A memory-mapped register is read with
  \<open>mmio_read\<close> and written with \<open>mmio_write\<close>: \<open>mmio_in a n\<close> is the value the \<open>n\<close>th read of the register
  at \<open>a\<close> gives, a parameter of the model kept in the state, and \<open>mmio_log\<close> is the sequence of writes.
  A loop that polls a register gives up with \<open>Diverge\<close> after \<open>poll_limit\<close> reads; the lemmas about it
  say when it returns. \<open>sbi_timer\<close> records, per hart, the deadline last passed to the firmware by
  \<open>sbi_legacy_set_timer\<close>.
\<close>

section \<open>State\<close>

record console =
  cons_buf :: "uint8 list"
  cons_r :: uint32
  cons_w :: uint32
  cons_e :: uint32

record uart =
  tx_buf :: "uint8 list"
  tx_w :: uint64
  tx_r :: uint64

record virtq_desc =
  d_addr :: uint64
  d_len :: uint32
  d_flags :: uint16
  d_next :: uint16

record virtq_avail =
  av_idx :: uint16
  av_ring :: "uint16 list"

record virtq_used =
  us_idx :: uint16
  us_ring :: "uint32 list"

record virtio_blk_req =
  req_type :: uint32
  req_reserved :: uint32
  req_sector :: uint64

record vinfo =
  vi_b :: "nat option"
  vi_status :: uint8

record vdisk =
  v_desc :: "nat \<Rightarrow> virtq_desc"
  v_avail :: virtq_avail
  v_used :: virtq_used
  v_free :: "nat \<Rightarrow> bool"
  v_used_idx :: uint16
  v_info :: "nat \<Rightarrow> vinfo"
  v_ops :: "nat \<Rightarrow> virtio_blk_req"

record devs = fsys +
  mmio_in :: "uint64 \<Rightarrow> nat \<Rightarrow> uint32"
  mmio_n :: "uint64 \<Rightarrow> nat"
  mmio_log :: "(uint64 \<times> uint32) list"
  poll_limit :: nat
  sbi_timer :: "nat \<Rightarrow> uint64 option"
  cons :: console
  uart0 :: uart
  pr_locking :: bool
  panicked :: bool
  vd :: vdisk
  vd_pages :: uint64
  vd_ops_addr :: uint64
  vd_info_addr :: uint64
  vd_buf_addr :: "nat \<Rightarrow> uint64"

definition mmio_read :: "uint64 \<Rightarrow> ('x devs_scheme, uint32) kmonad" where
  "mmio_read a = (
    bnd (gets (\<lambda>s. mmio_in s a (mmio_n s a))) (\<lambda>v.
    sq (modify (\<lambda>s. s\<lparr>mmio_n := (mmio_n s)(a := mmio_n s a + 1)\<rparr>)) (
    ret v)))"

definition mmio_write :: "uint64 \<Rightarrow> uint32 \<Rightarrow> ('x devs_scheme, unit) kmonad" where
  "mmio_write a v = modify (\<lambda>s. s\<lparr>mmio_log := mmio_log s @ [(a, v)]\<rparr>)"

definition sbi_legacy_set_timer :: "uint64 \<Rightarrow> ('x devs_scheme, unit) kmonad" where
  "sbi_legacy_set_timer t = modify (\<lambda>s. s\<lparr>sbi_timer := (sbi_timer s)(hart s := Some t)\<rparr>)"

section \<open>The PLIC\<close>

definition PLIC_SENABLE :: "nat \<Rightarrow> uint64" where "PLIC_SENABLE h = PLIC + 0x2080 + of_nat h * 0x100"
definition PLIC_SPRIORITY :: "nat \<Rightarrow> uint64" where "PLIC_SPRIORITY h = PLIC + 0x201000 + of_nat h * 0x2000"
definition PLIC_SCLAIM :: "nat \<Rightarrow> uint64" where "PLIC_SCLAIM h = PLIC + 0x201004 + of_nat h * 0x2000"

definition plicinit :: "('x devs_scheme, unit) kmonad" where
  "plicinit = (
    sq (mmio_write (PLIC + of_nat (UART0_IRQ * 4)) 1) (
    mmio_write (PLIC + of_nat (VIRTIO0_IRQ * 4)) 1))"

definition plicinithart :: "('x devs_scheme, unit) kmonad" where
  "plicinithart = (
    bnd cpuid (\<lambda>h.
    sq (mmio_write (PLIC_SENABLE h) (push_bit UART0_IRQ 1 OR push_bit VIRTIO0_IRQ 1)) (
    mmio_write (PLIC_SPRIORITY h) 0)))"

definition plic_claim :: "('x devs_scheme, uint32) kmonad" where
  "plic_claim = (bnd cpuid (\<lambda>h. mmio_read (PLIC_SCLAIM h)))"

definition plic_complete :: "uint32 \<Rightarrow> ('x devs_scheme, unit) kmonad" where
  "plic_complete irq = (bnd cpuid (\<lambda>h. mmio_write (PLIC_SCLAIM h) irq))"

end
