(* ===== verification/Ring.thy ===== *)
theory Ring
  imports Prelude
begin

text \<open>
  The kernel's ring buffers. The pipe, the console and the serial port each keep an array and two free-running
  unsigned indices, which wrap around at their width; the slot of an index is the index modulo the size of
  the array. The contract is the locale \<open>fifo\<close>, a bounded queue; the locale \<open>ring\<close> has the representation and
  gives the contract, because the size divides the range of the indices.
\<close>

section \<open>Bounded queues\<close>

locale fifo =
  fixes wf :: "'b \<Rightarrow> bool" and contents :: "'b \<Rightarrow> 'a list" and cap :: nat
    and is_empty :: "'b \<Rightarrow> bool" and is_full :: "'b \<Rightarrow> bool"
    and put :: "'a \<Rightarrow> 'b \<Rightarrow> 'b" and front :: "'b \<Rightarrow> 'a" and pop :: "'b \<Rightarrow> 'b"
  assumes room: "wf b \<Longrightarrow> length (contents b) \<le> cap"
    and empty_iff: "wf b \<Longrightarrow> is_empty b \<longleftrightarrow> contents b = []"
    and full_iff: "wf b \<Longrightarrow> is_full b \<longleftrightarrow> length (contents b) = cap"
    and put_law: "wf b \<Longrightarrow> \<not> is_full b \<Longrightarrow> wf (put a b) \<and> contents (put a b) = contents b @ [a]"
    and pop_law: "wf b \<Longrightarrow> \<not> is_empty b \<Longrightarrow> wf (pop b) \<and> contents b = front b # contents (pop b)"
begin

lemma not_full: "wf b \<Longrightarrow> \<not> is_full b \<longleftrightarrow> length (contents b) < cap"
  using full_iff room by force

lemma put_all:
  "wf b \<Longrightarrow> length (contents b) + length xs \<le> cap \<Longrightarrow> wf (fold put xs b) \<and> contents (fold put xs b) = contents b @ xs"
proof (induction xs arbitrary: b)
  case (Cons x xs)
  then have "\<not> is_full b" using not_full by simp
  with Cons.prems put_law have "wf (put x b)" "contents (put x b) = contents b @ [x]" by blast+
  with Cons.IH [of "put x b"] Cons.prems(2) show ?case by simp
qed simp

lemma pop_many:
  "wf b \<Longrightarrow> n \<le> length (contents b) \<Longrightarrow> wf ((pop ^^ n) b) \<and> contents ((pop ^^ n) b) = drop n (contents b)"
proof (induction n)
  case (Suc n)
  then have b: "wf ((pop ^^ n) b)" "contents ((pop ^^ n) b) = drop n (contents b)" by auto
  with Suc.prems empty_iff have "\<not> is_empty ((pop ^^ n) b)" by simp
  from pop_law [OF b(1) this] b(2) have "wf (pop ((pop ^^ n) b))" "contents (pop ((pop ^^ n) b)) = tl (drop n (contents b))"
    by (metis, metis list.sel(3))
  then show ?case by (simp add: drop_Suc tl_drop)
qed simp

lemma front_nth:
  assumes "wf b" and "n < length (contents b)"
  shows "front ((pop ^^ n) b) = contents b ! n"
proof -
  have b: "wf ((pop ^^ n) b)" "contents ((pop ^^ n) b) = drop n (contents b)" using pop_many [of b n] assms by auto
  then have "\<not> is_empty ((pop ^^ n) b)" using assms empty_iff by simp
  from pop_law [OF b(1) this] b(2) show ?thesis by (metis hd_drop_conv_nth assms(2) list.sel(1))
qed

end

section \<open>Rings\<close>

definition ring_wf :: "nat \<Rightarrow> 'a list \<Rightarrow> 'i::len word \<Rightarrow> 'i word \<Rightarrow> bool" where
  "ring_wf cap buf r w \<longleftrightarrow> length buf = cap \<and> unat (w - r) \<le> cap"

definition ring_contents :: "nat \<Rightarrow> 'a list \<Rightarrow> 'i::len word \<Rightarrow> 'i word \<Rightarrow> 'a list" where
  "ring_contents cap buf r w = map (\<lambda>k. buf ! ((unat r + k) mod cap)) [0..<unat (w - r)]"

lemma length_ring_contents [simp]: "length (ring_contents cap buf r w) = unat (w - r)"
  by (simp add: ring_contents_def)

lemma unat_add_mod:
  fixes r :: "'i::len word"
  assumes "cap dvd 2 ^ LENGTH('i)"
  shows "unat (r + of_nat k) mod cap = (unat r + k) mod cap"
  using assms by (simp add: unat_word_ariths unat_of_nat mod_mod_cancel mod_add_right_eq)

lemma ring_index: "unat (w - r) = k \<Longrightarrow> w = r + of_nat k"
  for w r :: "'i::len word"
  by (drule sym) simp

lemma unat_next:
  fixes r w :: "'i::len word"
  assumes "unat (w - r) < cap" and "cap < 2 ^ LENGTH('i)"
  shows "unat (w + 1 - r) = Suc (unat (w - r))"
proof -
  have "unat (x + 1) = Suc (unat x)" if "unat x < cap" for x :: "'i word"
    by (subst unat_word_ariths(1)) (use that assms(2) in simp)
  from this [OF assms(1)] show ?thesis by (simp add: algebra_simps)
qed

lemma unat_back:
  fixes r w :: "'i::len word"
  assumes "w \<noteq> r"
  shows "unat (w - (r + 1)) = unat (w - r) - 1"
proof -
  have "w - (r + 1) = (w - r) - 1" by simp
  moreover have "w - r \<noteq> 0" using assms by simp
  ultimately show ?thesis by (metis unat_minus_one)
qed

text \<open>A third index between the other two splits the contents; moving the last index back drops the last element.\<close>

lemma ring_contents_split:
  fixes r w e :: "'i::len word"
  assumes d: "cap dvd 2 ^ LENGTH('i)" and le: "unat (w - r) \<le> unat (e - r)"
  shows "ring_contents cap buf r e = ring_contents cap buf r w @ ring_contents cap buf w e"
    and "unat (e - w) = unat (e - r) - unat (w - r)"
proof -
  have "e - w = (e - r) - (w - r)" by simp
  moreover have "unat ((e - r) - (w - r)) = unat (e - r) - unat (w - r)" using le by (intro unat_sub) (simp add: word_le_nat_alt)
  ultimately show n: "unat (e - w) = unat (e - r) - unat (w - r)" by metis
  have "w = r + of_nat (unat (w - r))" by (rule ring_index) simp
  then have m: "unat w mod cap = (unat r + unat (w - r)) mod cap" using unat_add_mod [OF d] by metis
  have i: "(unat w + k) mod cap = (unat r + (unat (w - r) + k)) mod cap" for k
  proof -
    have "(unat w + k) mod cap = (unat w mod cap + k) mod cap" by (simp only: mod_add_left_eq)
    also have "\<dots> = (unat r + unat (w - r) + k) mod cap" unfolding m by (simp only: mod_add_left_eq)
    finally show ?thesis by (simp only: add.assoc)
  qed
  show "ring_contents cap buf r e = ring_contents cap buf r w @ ring_contents cap buf w e"
  proof (rule nth_equalityI)
    fix k assume "k < length (ring_contents cap buf r e)"
    then show "ring_contents cap buf r e ! k = (ring_contents cap buf r w @ ring_contents cap buf w e) ! k"
      using le n by (auto simp: ring_contents_def nth_append i)
  qed (use le n in simp)
qed

lemma ring_contents_back:
  fixes r w :: "'i::len word"
  assumes "w \<noteq> r"
  shows "ring_contents cap buf r (w - 1) = butlast (ring_contents cap buf r w)" and "unat (w - 1 - r) = unat (w - r) - 1"
proof -
  have "w - 1 - r = (w - r) - 1" by simp
  moreover have "w - r \<noteq> 0" using assms by simp
  ultimately show n: "unat (w - 1 - r) = unat (w - r) - 1" by (metis unat_minus_one)
  show "ring_contents cap buf r (w - 1) = butlast (ring_contents cap buf r w)"
    unfolding ring_contents_def n by (cases "unat (w - r)") simp_all
qed

locale ring =
  fixes cap :: nat and slots :: "'b \<Rightarrow> 'a list" and ridx widx :: "'b \<Rightarrow> 'i::len word"
    and put :: "'a \<Rightarrow> 'b \<Rightarrow> 'b" and pop :: "'b \<Rightarrow> 'b"
  assumes cap_pos: "0 < cap" and cap_dvd: "cap dvd 2 ^ LENGTH('i)" and cap_less: "cap < 2 ^ LENGTH('i)"
    and put_fields: "slots (put a b) = (slots b)[unat (widx b) mod cap := a]" "widx (put a b) = widx b + 1" "ridx (put a b) = ridx b"
    and pop_fields: "slots (pop b) = slots b" "widx (pop b) = widx b" "ridx (pop b) = ridx b + 1"
begin

lemma full_test: "ring_wf cap (slots b) (ridx b) (widx b) \<Longrightarrow> widx b = ridx b + of_nat cap \<longleftrightarrow> unat (widx b - ridx b) = cap"
  using cap_less by (auto simp: unat_of_nat dest: ring_index)

lemma contents_put:
  assumes "ring_wf cap (slots b) (ridx b) (widx b)" and "unat (widx b - ridx b) < cap"
  shows "ring_contents cap (slots (put a b)) (ridx (put a b)) (widx (put a b)) = ring_contents cap (slots b) (ridx b) (widx b) @ [a]"
proof -
  let ?n = "unat (widx b - ridx b)" and ?r = "unat (ridx b)"
  have l: "length (slots b) = cap" using assms by (simp add: ring_wf_def)
  have "widx b = ridx b + of_nat ?n" by (rule ring_index) simp
  then have w: "unat (widx b) mod cap = (?r + ?n) mod cap" using unat_add_mod [OF cap_dvd] by metis
  have other: "(?r + ?n) mod cap \<noteq> (?r + k) mod cap" if "k < ?n" for k
  proof
    assume "(?r + ?n) mod cap = (?r + k) mod cap"
    then have "cap dvd (?r + ?n) - (?r + k)" using mod_eq_dvd_iff_nat [of "?r + k" "?r + ?n" cap] that by auto
    then show False using that assms(2) by (auto dest: dvd_imp_le)
  qed
  show ?thesis
    unfolding ring_contents_def put_fields unat_next [OF assms(2) cap_less] w
    using l other cap_pos by (auto intro!: map_cong)
qed

lemma contents_pop:
  assumes "widx b \<noteq> ridx b"
  shows "ring_contents cap (slots b) (ridx b) (widx b) =
    slots b ! (unat (ridx b) mod cap) # ring_contents cap (slots (pop b)) (ridx (pop b)) (widx (pop b))"
proof -
  have "unat (widx b - ridx b) \<noteq> 0" using assms by (simp add: unat_eq_zero)
  then have n: "unat (widx b - ridx b) = Suc (unat (widx b - (ridx b + 1)))" using unat_back [OF assms] by linarith
  have m: "unat (ridx b + 1) mod cap = (unat (ridx b) + 1) mod cap" using unat_add_mod [OF cap_dvd, of "ridx b" 1] by simp
  have "(unat (ridx b + 1) + k) mod cap = (unat (ridx b) + Suc k) mod cap" for k
  proof -
    have "(unat (ridx b + 1) + k) mod cap = (unat (ridx b + 1) mod cap + k) mod cap" by (simp only: mod_add_left_eq)
    also have "\<dots> = (unat (ridx b) + 1 + k) mod cap" unfolding m by (simp only: mod_add_left_eq)
    finally show ?thesis by simp
  qed
  then show ?thesis
    unfolding ring_contents_def pop_fields n by (simp add: map_upt_Suc del: upt_Suc)
qed

end

sublocale ring \<subseteq> fifo "\<lambda>b. ring_wf cap (slots b) (ridx b) (widx b)" "\<lambda>b. ring_contents cap (slots b) (ridx b) (widx b)" cap
  "\<lambda>b. ridx b = widx b" "\<lambda>b. widx b = ridx b + of_nat cap" put "\<lambda>b. slots b ! (unat (ridx b) mod cap)" pop
proof (unfold_locales, goal_cases)
  case (1 b)
  then show ?case by (simp add: ring_wf_def)
next
  case (2 b)
  have "ring_contents cap (slots b) (ridx b) (widx b) = [] \<longleftrightarrow> unat (widx b - ridx b) = 0"
    by (metis length_0_conv length_ring_contents)
  then show ?case by (metis right_minus_eq unat_eq_zero)
next
  case (3 b)
  then show ?case using full_test by simp
next
  case (4 b a)
  then have "unat (widx b - ridx b) < cap" using full_test [OF 4(1)] by (simp add: ring_wf_def)
  then show ?case
    using 4 contents_put [OF 4(1)] unat_next [OF _ cap_less] by (simp add: ring_wf_def put_fields)
next
  case (5 b)
  then show ?case using contents_pop [of b] unat_back [of "widx b" "ridx b"] by (auto simp: ring_wf_def pop_fields)
qed

end
