(* ===== verification/Uart.thy ===== *)
theory Uart
  imports Device Ring
begin

unbundle bit_operations_syntax

text \<open>
  \<^verbatim>\<open>src/kernel/platform/qemu/driver/uart.c\<close>: the driver of the serial port, with its transmit buffer.
  \<open>uartintr\<close>, which calls the console, is in the theory \<open>Console\<close>.
\<close>

section \<open>Operations\<close>

definition RHR :: uint64 where "RHR = 0"
definition THR :: uint64 where "THR = 0"
definition IER :: uint64 where "IER = 1"
definition IER_RX_ENABLE :: uint32 where "IER_RX_ENABLE = push_bit 0 1"
definition IER_TX_ENABLE :: uint32 where "IER_TX_ENABLE = push_bit 1 1"
definition FCR :: uint64 where "FCR = 2"
definition FCR_FIFO_ENABLE :: uint32 where "FCR_FIFO_ENABLE = push_bit 0 1"
definition FCR_FIFO_CLEAR :: uint32 where "FCR_FIFO_CLEAR = push_bit 1 3"
definition LCR :: uint64 where "LCR = 3"
definition LCR_EIGHT_BITS :: uint32 where "LCR_EIGHT_BITS = push_bit 0 3"
definition LCR_BAUD_LATCH :: uint32 where "LCR_BAUD_LATCH = push_bit 7 1"
definition LSR :: uint64 where "LSR = 5"
definition LSR_RX_READY :: uint32 where "LSR_RX_READY = push_bit 0 1"
definition LSR_TX_IDLE :: uint32 where "LSR_TX_IDLE = push_bit 5 1"
definition UART_TX_BUF_SIZE :: nat where "UART_TX_BUF_SIZE = 32"

definition ReadReg :: "uint64 \<Rightarrow> ('x devs_scheme, uint32) kmonad" where
  "ReadReg reg = mmio_read (UART0 + reg)"

definition WriteReg :: "uint64 \<Rightarrow> uint32 \<Rightarrow> ('x devs_scheme, unit) kmonad" where
  "WriteReg reg v = mmio_write (UART0 + reg) v"

definition upd_uart :: "(uart \<Rightarrow> uart) \<Rightarrow> ('x devs_scheme, unit) kmonad" where
  "upd_uart f = modify (\<lambda>s. s\<lparr>uart0 := f (uart0 s)\<rparr>)"

definition uartinit :: "('x devs_scheme, unit) kmonad" where
  "uartinit = (
    sq (WriteReg IER 0) (
    sq (WriteReg LCR LCR_BAUD_LATCH) (
    sq (WriteReg 0 3) (
    sq (WriteReg 1 0) (
    sq (WriteReg LCR LCR_EIGHT_BITS) (
    sq (WriteReg FCR (FCR_FIFO_ENABLE OR FCR_FIFO_CLEAR)) (
    sq (WriteReg IER (IER_TX_ENABLE OR IER_RX_ENABLE)) (
    initlock LkUartTx))))))))"

text \<open>
  The loop of \<open>uartstart\<close> sends one byte per iteration, so the number of bytes in the buffer bounds
  it.
\<close>

primrec uartstart_loop :: "nat \<Rightarrow> ('x devs_scheme, unit) kmonad" where
  "uartstart_loop 0 = diverge"
| "uartstart_loop (Suc fuel) = (
  bnd (gets uart0) (\<lambda>u.
  if tx_w u = tx_r u then ret ()
    else (
      bnd (ReadReg LSR) (\<lambda>lsr.
      if lsr AND LSR_TX_IDLE = 0 then ret ()
        else (
          let c = tx_buf u ! (unat (tx_r u) mod UART_TX_BUF_SIZE) in
          sq (upd_uart (\<lambda>u. u\<lparr>tx_r := tx_r u + 1\<rparr>)) (
          sq (wakeup ChanUart) (
          sq (WriteReg THR (ucast c)) (
          uartstart_loop fuel))))))))"

definition uartstart :: "('x devs_scheme, unit) kmonad" where
  "uartstart = (bnd (gets uart0) (\<lambda>u. uartstart_loop (Suc (unat (tx_w u - tx_r u)))))"

text \<open>
  \<open>uartputc\<close>: each element of \<open>runs\<close> is what happens while the process sleeps for space in the
  buffer; the ones it has not used are returned. With \<open>panicked\<close> set, the routine loops forever.
\<close>

primrec uartputc_loop :: "('x devs_scheme, unit) kmonad list \<Rightarrow> uint8 \<Rightarrow> ('x devs_scheme, ('x devs_scheme, unit) kmonad list) kmonad" where
  "uartputc_loop [] c = (
    bnd (gets uart0) (\<lambda>u.
    if tx_w u = tx_r u + of_nat UART_TX_BUF_SIZE then sleep_on ChanUart
      else (
        sq (upd_uart (\<lambda>u. u\<lparr>tx_buf := (tx_buf u)[unat (tx_w u) mod UART_TX_BUF_SIZE := c], tx_w := tx_w u + 1\<rparr>)) (
        sq uartstart (
        sq (release LkUartTx) (
        ret []))))))"
| "uartputc_loop (run # runs) c = (
  bnd (gets uart0) (\<lambda>u.
  if tx_w u = tx_r u + of_nat UART_TX_BUF_SIZE then (sq (sleep run ChanUart LkUartTx) (uartputc_loop runs c))
    else (
      sq (upd_uart (\<lambda>u. u\<lparr>tx_buf := (tx_buf u)[unat (tx_w u) mod UART_TX_BUF_SIZE := c], tx_w := tx_w u + 1\<rparr>)) (
      sq uartstart (
      sq (release LkUartTx) (
      ret (run # runs)))))))"

definition uartputc :: "('x devs_scheme, unit) kmonad list \<Rightarrow> uint8 \<Rightarrow> ('x devs_scheme, ('x devs_scheme, unit) kmonad list) kmonad" where
  "uartputc runs c = (
    sq (acquire LkUartTx) (
    bnd (gets panicked) (\<lambda>p.
    if p then diverge else uartputc_loop runs c)))"

primrec wait_tx_idle :: "nat \<Rightarrow> ('x devs_scheme, unit) kmonad" where
  "wait_tx_idle 0 = diverge"
| "wait_tx_idle (Suc fuel) = (
  bnd (ReadReg LSR) (\<lambda>lsr.
  if lsr AND LSR_TX_IDLE = 0 then wait_tx_idle fuel else ret ()))"

definition uartputc_sync :: "uint8 \<Rightarrow> ('x devs_scheme, unit) kmonad" where
  "uartputc_sync c = (
    sq push_off (
    bnd (gets panicked) (\<lambda>p.
    if p then diverge
      else (
        bnd (gets poll_limit) (\<lambda>k.
        sq (wait_tx_idle k) (
        sq (WriteReg THR (ucast c)) (
        pop_off)))))))"

definition uartgetc :: "('x devs_scheme, uint8 option) kmonad" where
  "uartgetc = (
    bnd (ReadReg LSR) (\<lambda>lsr.
    if lsr AND LSR_RX_READY \<noteq> 0 then (bnd (ReadReg RHR) (\<lambda>v. ret (Some (ucast v))))
      else ret None))"

section \<open>The transmit buffer\<close>

interpretation txq: ring UART_TX_BUF_SIZE tx_buf tx_r tx_w
  "\<lambda>c u. u\<lparr>tx_buf := (tx_buf u)[unat (tx_w u) mod UART_TX_BUF_SIZE := c], tx_w := tx_w u + 1\<rparr>" "\<lambda>u. u\<lparr>tx_r := tx_r u + 1\<rparr>"
  by unfold_locales (simp_all add: UART_TX_BUF_SIZE_def)

end
