(* ===== verification/Console.thy ===== *)
theory Console
  imports Uart
begin

unbundle bit_operations_syntax

text \<open>
  \<^verbatim>\<open>src/kernel/console.c\<close>, \<^verbatim>\<open>src/kernel/lib/printf.c\<close> and the two routines that depend on them, \<open>procdump\<close> of
  \<^verbatim>\<open>proc.c\<close> and \<open>uartintr\<close> of \<^verbatim>\<open>uart.c\<close>: formatted output, line editing of the console input, and the
  console's read and write routines. \<open>panic\<close> is an outcome of the monad: it prints its argument and
  loops forever.
\<close>

section \<open>Characters\<close>

definition consputc :: "uint8 option \<Rightarrow> ('x devs_scheme, unit) kmonad" where
  "consputc c = (case c of
     None \<Rightarrow> (sq (uartputc_sync 8) (sq (uartputc_sync 32) (uartputc_sync 8)))
   | Some c \<Rightarrow> uartputc_sync c)"

abbreviation BACKSPACE :: "uint8 option" where "BACKSPACE \<equiv> None"

text \<open>Control-x.\<close>

definition ctrl :: "char \<Rightarrow> uint8" where
  "ctrl x = of_char x - of_char (CHR ''@'')"

definition INPUT_BUF :: nat where "INPUT_BUF = 128"

section \<open>printf\<close>

definition digits :: "uint8 list" where
  "digits = bytes_of ''0123456789abcdef''"

text \<open>The digits of \<open>x\<close>, least significant first: the loop that fills \<^verbatim>\<open>buf\<close>.\<close>

function digit_list :: "uint32 \<Rightarrow> uint32 \<Rightarrow> uint8 list" where
  "digit_list base x =
     (if base \<le> 1 then []
      else digits ! unat (x mod base) # (if x div base = 0 then [] else digit_list base (x div base)))"
  by pat_completeness auto
termination
proof (relation "measure (\<lambda>(base, x). unat x)", goal_cases)
  case 1
  then show ?case by simp
next
  case (2 base x)
  then have "1 < unat base" and "unat (x div base) \<noteq> 0"
    by (simp_all add: word_le_nat_alt word_unat_eq_iff)
  then show ?case
    by (auto simp: unat_div) (metis One_nat_def div_less_dividend div_0 neq0_conv)
qed

declare digit_list.simps [simp del]

definition int_bytes :: "uint32 \<Rightarrow> uint32 \<Rightarrow> bool \<Rightarrow> uint8 list" where
  "int_bytes xx base sign =
     (let neg = sign \<and> sint xx < 0;
          x = (if neg then - xx else xx);
          buf = digit_list base x @ (if neg then [of_char (CHR ''-'')] else []) in
      rev buf)"

definition printint :: "uint32 \<Rightarrow> uint32 \<Rightarrow> bool \<Rightarrow> ('x devs_scheme, unit) kmonad" where
  "printint xx base sign = for_each (int_bytes xx base sign) (\<lambda>c. consputc (Some c))"

text \<open>The sixteen hexadecimal digits of a pointer, most significant first.\<close>

primrec ptr_digits :: "nat \<Rightarrow> uint64 \<Rightarrow> uint8 list" where
  "ptr_digits 0 x = []"
| "ptr_digits (Suc n) x = digits ! unat (drop_bit 60 x) # ptr_digits n (push_bit 4 x)"

definition printptr :: "uint64 \<Rightarrow> ('x devs_scheme, unit) kmonad" where
  "printptr x = for_each (bytes_of ''0x'' @ ptr_digits 16 x) (\<lambda>c. consputc (Some c))"

datatype fmt_arg = IntArg uint32 | PtrArg uint64 | StrArg "uint8 list option"

text \<open>Fetching an argument of another type than was passed, or one too many, is undefined.\<close>

fun printf_loop :: "uint8 list \<Rightarrow> fmt_arg list \<Rightarrow> ('x devs_scheme, unit) kmonad" where
  "printf_loop [] ap = ret ()"
| "printf_loop (c # cs) ap =
     (if c \<noteq> of_char (CHR ''%'') then (sq (consputc (Some c)) (printf_loop cs ap))
      else case cs of
        [] \<Rightarrow> ret ()
      | d # ds \<Rightarrow>
          if d = of_char (CHR ''d'') then
            (case ap of IntArg x # ap \<Rightarrow> (sq (printint x 10 True) (printf_loop ds ap)) | _ \<Rightarrow> ub)
          else if d = of_char (CHR ''x'') then
            (case ap of IntArg x # ap \<Rightarrow> (sq (printint x 16 True) (printf_loop ds ap)) | _ \<Rightarrow> ub)
          else if d = of_char (CHR ''p'') then
            (case ap of PtrArg x # ap \<Rightarrow> (sq (printptr x) (printf_loop ds ap)) | _ \<Rightarrow> ub)
          else if d = of_char (CHR ''s'') then
            (case ap of StrArg s # ap \<Rightarrow> (
              sq (for_each (case s of None \<Rightarrow> bytes_of ''(null)'' | Some s \<Rightarrow> s) (\<lambda>c. consputc (Some c))) (
              printf_loop ds ap))
             | _ \<Rightarrow> ub)
          else if d = of_char (CHR ''%'') then (sq (consputc (Some d)) (printf_loop ds ap))
          else (sq (consputc (Some c)) (sq (consputc (Some d)) (printf_loop ds ap))))"

definition printf :: "uint8 list option \<Rightarrow> fmt_arg list \<Rightarrow> ('x devs_scheme, unit) kmonad" where
  "printf fmt ap = (
    bnd (gets pr_locking) (\<lambda>locking.
    sq (if locking then acquire LkPr else ret ()) (
    case fmt of
        None \<Rightarrow> panic ''null fmt''
      | Some fmt \<Rightarrow> (sq (printf_loop fmt ap) (if locking then release LkPr else ret ())))))"

definition printfinit :: "('x devs_scheme, unit) kmonad" where
  "printfinit = (sq (initlock LkPr) (modify (\<lambda>s. s\<lparr>pr_locking := True\<rparr>)))"

text \<open>\<open>procdump\<close>: the array of state names has no entry for \<open>USED\<close>.\<close>

primrec state_name :: "procstate \<Rightarrow> string" where
  "state_name UNUSED = ''unused''"
| "state_name USED = ''???''"
| "state_name SLEEPING = ''sleep ''"
| "state_name RUNNABLE = ''runble''"
| "state_name RUNNING = ''run   ''"
| "state_name ZOMBIE = ''zombie''"

definition newline :: uint8 where "newline = 10"

definition procdump :: "('x devs_scheme, unit) kmonad" where
  "procdump = (
    sq (printf (Some [newline]) []) (
    for_each [0..<NPROC] (\<lambda>p. (
      bnd (get_proc p) (\<lambda>pr.
      if state pr = UNUSED then ret ()
        else (
          sq (printf (Some (bytes_of ''%d %s %s''))
            [IntArg (word_of_int (pid pr)), StrArg (Some (bytes_of (state_name (state pr)))),
             StrArg (Some (takeWhile (\<lambda>c. c \<noteq> 0) (p_name pr)))]) (
          printf (Some [newline]) [])))))))"

section \<open>The console device\<close>

definition upd_cons :: "(console \<Rightarrow> console) \<Rightarrow> ('x devs_scheme, unit) kmonad" where
  "upd_cons f = modify (\<lambda>s. s\<lparr>cons := f (cons s)\<rparr>)"

primrec consolewrite_loop :: "('x devs_scheme, unit) kmonad list \<Rightarrow> place \<Rightarrow> nat \<Rightarrow> int \<Rightarrow> ('x devs_scheme, int) kmonad" where
  "consolewrite_loop runs src 0 i = ret i"
| "consolewrite_loop runs src (Suc n) i = (
  bnd (either_copyin src 1) (\<lambda>(r, bs).
  if r = -1 then ret i
    else (
      bnd (uartputc runs (hd bs)) (\<lambda>runs'.
      consolewrite_loop runs' (place_add src 1) n (i + 1)))))"

definition consolewrite :: "('x devs_scheme, unit) kmonad list \<Rightarrow> place \<Rightarrow> int \<Rightarrow> ('x devs_scheme, int) kmonad" where
  "consolewrite runs src n = consolewrite_loop runs src (nat n) 0"

text \<open>
  Waiting for input: the inner loop of \<open>consoleread\<close>, with what happens during each sleep. It
  returns the unused elements, or \<open>None\<close> when the process has been killed.
\<close>

primrec console_wait :: "('x devs_scheme, unit) kmonad list \<Rightarrow> ('x devs_scheme, ('x devs_scheme, unit) kmonad list option) kmonad" where
  "console_wait [] = (
    bnd (gets cons) (\<lambda>c.
    if cons_r c = cons_w c then (
       bnd this_proc (\<lambda>p.
       bnd (get_proc p) (\<lambda>pr.
       if killed pr then ret None else sleep_on ChanConsole)))
      else ret (Some [])))"
| "console_wait (run # runs) = (
  bnd (gets cons) (\<lambda>c.
  if cons_r c = cons_w c then (
    bnd this_proc (\<lambda>p.
    bnd (get_proc p) (\<lambda>pr.
    if killed pr then ret None
      else (sq (sleep run ChanConsole LkCons) (console_wait runs)))))
     else ret (Some (run # runs))))"

text \<open>\<open>target\<close> is the number of bytes asked for and \<open>n\<close> the number still to come.\<close>

primrec consoleread_loop :: "('x devs_scheme, unit) kmonad list \<Rightarrow> place \<Rightarrow> nat \<Rightarrow> nat \<Rightarrow> ('x devs_scheme, int) kmonad" where
  "consoleread_loop runs dst target 0 = (sq (release LkCons) (ret (int target)))"
| "consoleread_loop runs dst target (Suc n) = (
  bnd (console_wait runs) (\<lambda>w.
  case w of
      None \<Rightarrow> (sq (release LkCons) (ret (-1)))
    | Some runs' \<Rightarrow> (
      bnd (gets cons) (\<lambda>cn.
      let c = cons_buf cn ! (unat (cons_r cn) mod INPUT_BUF) in
      sq (upd_cons (\<lambda>k. k\<lparr>cons_r := cons_r k + 1\<rparr>)) (
      if c = ctrl CHR ''D'' then (
        sq (if Suc n < target then upd_cons (\<lambda>k. k\<lparr>cons_r := cons_r k - 1\<rparr>) else ret ()) (
        sq (release LkCons) (
        ret (int target - int (Suc n)))))
        else (
          bnd (either_copyout dst [c]) (\<lambda>r.
          if r = -1 then (sq (release LkCons) (ret (int target - int (Suc n))))
            else if c = newline then (sq (release LkCons) (ret (int target - int n)))
            else consoleread_loop runs' (place_add dst 1) target n)))))))"

text \<open>A negative \<open>n\<close> does not enter the loop, and the result is zero.\<close>

definition consoleread :: "('x devs_scheme, unit) kmonad list \<Rightarrow> place \<Rightarrow> int \<Rightarrow> ('x devs_scheme, int) kmonad" where
  "consoleread runs dst n = (sq (acquire LkCons) (consoleread_loop runs dst (nat n) (nat n)))"

text \<open>The loop of \<^verbatim>\<open>C('U')\<close>, which moves the edit index back to the start of the line.\<close>

primrec kill_line :: "nat \<Rightarrow> ('x devs_scheme, unit) kmonad" where
  "kill_line 0 = ret ()"
| "kill_line (Suc fuel) = (
  bnd (gets cons) (\<lambda>c.
  if cons_e c \<noteq> cons_w c \<and> cons_buf c ! (unat (cons_e c - 1) mod INPUT_BUF) \<noteq> newline then (
    sq (upd_cons (\<lambda>c. c\<lparr>cons_e := cons_e c - 1\<rparr>)) (
    sq (consputc BACKSPACE) (
    kill_line fuel)))
     else ret ()))"

definition consoleintr :: "uint8 \<Rightarrow> ('x devs_scheme, unit) kmonad" where
  "consoleintr c = (
    sq (acquire LkCons) (
    sq (if c = ctrl CHR ''P'' then procdump
      else if c = ctrl CHR ''U'' then (bnd (gets cons) (\<lambda>k. kill_line (unat (cons_e k - cons_w k))))
      else if c = ctrl CHR ''H'' \<or> c = 0x7f then (
        bnd (gets cons) (\<lambda>k.
        if cons_e k \<noteq> cons_w k then (sq (upd_cons (\<lambda>k. k\<lparr>cons_e := cons_e k - 1\<rparr>)) (consputc BACKSPACE))
          else ret ()))
      else (
        bnd (gets cons) (\<lambda>k.
        if c \<noteq> 0 \<and> cons_e k - cons_r k < of_nat INPUT_BUF then (
            let c = (if c = 13 then newline else c) in
            sq (consputc (Some c)) (
            sq (upd_cons (\<lambda>k. k\<lparr>cons_buf := (cons_buf k)[unat (cons_e k) mod INPUT_BUF := c], cons_e := cons_e k + 1\<rparr>)) (
            bnd (gets cons) (\<lambda>k.
            if c = newline \<or> c = ctrl CHR ''D'' \<or> cons_e k = cons_r k + of_nat INPUT_BUF then (sq (upd_cons (\<lambda>k. k\<lparr>cons_w := cons_e k\<rparr>)) (wakeup ChanConsole))
              else ret ()))))
          else ret ()))) (
    release LkCons)))"

text \<open>\<open>uartintr\<close> handles the characters that are waiting, then sends buffered output.\<close>

primrec uartintr_loop :: "nat \<Rightarrow> ('x devs_scheme, unit) kmonad" where
  "uartintr_loop 0 = diverge"
| "uartintr_loop (Suc fuel) = (
  bnd uartgetc (\<lambda>c.
  case c of None \<Rightarrow> ret ()
    | Some c \<Rightarrow> (sq (consoleintr c) (uartintr_loop fuel))))"

definition uartintr :: "('x devs_scheme, unit) kmonad" where
  "uartintr = (
    bnd (gets poll_limit) (\<lambda>k.
    sq (uartintr_loop k) (
    sq (acquire LkUartTx) (
    sq uartstart (
    release LkUartTx)))))"

section \<open>The input buffer\<close>

interpretation inq: ring INPUT_BUF cons_buf cons_r cons_e
  "\<lambda>c k. k\<lparr>cons_buf := (cons_buf k)[unat (cons_e k) mod INPUT_BUF := c], cons_e := cons_e k + 1\<rparr>" "\<lambda>k. k\<lparr>cons_r := cons_r k + 1\<rparr>"
  by unfold_locales (simp_all add: INPUT_BUF_def)

end
