(* ===== verification/Pipe.thy ===== *)
theory Pipe
  imports Console
begin

text \<open>
  \<^verbatim>\<open>src/kernel/fs/pipe.c\<close> without \<open>pipealloc\<close>, which is in the theory \<open>File\<close> because it allocates file
  structures. A pipe is named by the address of the page that holds it. \<open>pipewrite\<close> and \<open>piperead\<close> take
  what happens during each of their sleeps as the list \<open>runs\<close>.
\<close>

section \<open>Operations\<close>

definition PIPESIZE :: nat where "PIPESIZE = 512"

record pipe =
  p_data :: "uint8 list"
  nread :: uint32
  nwrite :: uint32
  readopen :: bool
  writeopen :: bool

record piped = devs +
  pipes :: "uint64 \<Rightarrow> pipe"

definition upd_pipe :: "uint64 \<Rightarrow> (pipe \<Rightarrow> pipe) \<Rightarrow> ('x piped_scheme, unit) kmonad" where
  "upd_pipe pi f = modify (\<lambda>s. s\<lparr>pipes := (pipes s)(pi := f (pipes s pi))\<rparr>)"

definition get_pipe :: "uint64 \<Rightarrow> ('x piped_scheme, pipe) kmonad" where
  "get_pipe pi = gets (\<lambda>s. pipes s pi)"

definition pipeclose :: "uint64 \<Rightarrow> bool \<Rightarrow> ('x piped_scheme, unit) kmonad" where
  "pipeclose pi writable = (
    sq (acquire (LkPipe pi)) (
    sq (if writable then (
       sq (upd_pipe pi (\<lambda>p. p\<lparr>writeopen := False\<rparr>)) (
       wakeup (ChanPipeRead pi)))
      else (
        sq (upd_pipe pi (\<lambda>p. p\<lparr>readopen := False\<rparr>)) (
        wakeup (ChanPipeWrite pi)))) (
    bnd (get_pipe pi) (\<lambda>p.
    if \<not> readopen p \<and> \<not> writeopen p then (sq (release (LkPipe pi)) (kfree pi))
      else release (LkPipe pi)))))"

definition pipe_full :: "pipe \<Rightarrow> bool" where
  "pipe_full p \<longleftrightarrow> nwrite p = nread p + of_nat PIPESIZE"

definition pipe_put :: "uint8 \<Rightarrow> pipe \<Rightarrow> pipe" where
  "pipe_put c p = p\<lparr>p_data := (p_data p)[unat (nwrite p) mod PIPESIZE := c], nwrite := nwrite p + 1\<rparr>"

definition pipe_get :: "pipe \<Rightarrow> uint8 \<times> pipe" where
  "pipe_get p = (p_data p ! (unat (nread p) mod PIPESIZE), p\<lparr>nread := nread p + 1\<rparr>)"

text \<open>The loop of \<open>pipewrite\<close> with \<open>i\<close> bytes written; \<open>None\<close> is the early return of \<open>-1\<close>.\<close>

function pipewrite_loop :: "('x piped_scheme, unit) kmonad list \<Rightarrow> uint64 \<Rightarrow> nat \<Rightarrow> uint64 \<Rightarrow> nat \<Rightarrow> nat \<Rightarrow> ('x piped_scheme, nat option) kmonad" where
  "pipewrite_loop runs pi pr addr n i =
     (if i \<ge> n then ret (Some i)
      else (
        bnd (get_pipe pi) (\<lambda>p.
        bnd (get_proc pr) (\<lambda>r.
        if \<not> readopen p \<or> killed r then (sq (release (LkPipe pi)) (ret None))
          else if pipe_full p then (
            sq (wakeup (ChanPipeRead pi)) (
            case runs of
                [] \<Rightarrow> sleep_on (ChanPipeWrite pi)
              | run # runs' \<Rightarrow> (sq (sleep run (ChanPipeWrite pi) (LkPipe pi)) (pipewrite_loop runs' pi pr addr n i))))
          else (
            bnd (copyin (pagetable r) (addr + of_nat i) 1) (\<lambda>(c, bs).
            if c = -1 then ret (Some i)
              else (sq (upd_pipe pi (pipe_put (hd bs))) (pipewrite_loop runs pi pr addr n (Suc i)))))))))"
  by pat_completeness auto
termination
  by (relation "measure (\<lambda>(runs, pi, pr, addr, n, i). (n - i) + length runs)") auto

declare pipewrite_loop.simps [simp del]

definition pipewrite :: "('x piped_scheme, unit) kmonad list \<Rightarrow> uint64 \<Rightarrow> uint64 \<Rightarrow> int \<Rightarrow> ('x piped_scheme, int) kmonad" where
  "pipewrite runs pi addr n = (
    bnd this_proc (\<lambda>pr.
    sq (acquire (LkPipe pi)) (
    bnd (pipewrite_loop runs pi pr addr (nat n) 0) (\<lambda>r.
    case r of None \<Rightarrow> ret (-1)
      | Some i \<Rightarrow> (sq (wakeup (ChanPipeRead pi)) (sq (release (LkPipe pi)) (ret (int i))))))))"

text \<open>Waiting for data or for the write end to close; \<open>False\<close> is the return of \<open>-1\<close> by a killed reader.\<close>

primrec piperead_wait :: "('x piped_scheme, unit) kmonad list \<Rightarrow> uint64 \<Rightarrow> nat \<Rightarrow> ('x piped_scheme, bool) kmonad" where
  "piperead_wait [] pi pr = (
    bnd (get_pipe pi) (\<lambda>p.
    bnd (get_proc pr) (\<lambda>r.
    if nread p = nwrite p \<and> writeopen p then
        (if killed r then (sq (release (LkPipe pi)) (ret False)) else sleep_on (ChanPipeRead pi))
      else ret True)))"
| "piperead_wait (run # runs) pi pr = (
  bnd (get_pipe pi) (\<lambda>p.
  bnd (get_proc pr) (\<lambda>r.
  if nread p = nwrite p \<and> writeopen p then
      (if killed r then (sq (release (LkPipe pi)) (ret False))
       else (sq (sleep run (ChanPipeRead pi) (LkPipe pi)) (piperead_wait runs pi pr)))
    else ret True)))"

primrec piperead_loop :: "nat \<Rightarrow> uint64 \<Rightarrow> nat \<Rightarrow> uint64 \<Rightarrow> nat \<Rightarrow> ('x piped_scheme, nat) kmonad" where
  "piperead_loop 0 pi pr addr i = ret i"
| "piperead_loop (Suc n) pi pr addr i = (
  bnd (get_pipe pi) (\<lambda>p.
  if nread p = nwrite p then ret i
    else (
      let ch = fst (pipe_get p) in
      sq (upd_pipe pi (\<lambda>p. snd (pipe_get p))) (
      bnd (get_proc pr) (\<lambda>r.
      bnd (copyout (pagetable r) (addr + of_nat i) [ch]) (\<lambda>c.
      if c = -1 then ret i
        else piperead_loop n pi pr addr (Suc i)))))))"

definition piperead :: "('x piped_scheme, unit) kmonad list \<Rightarrow> uint64 \<Rightarrow> uint64 \<Rightarrow> int \<Rightarrow> ('x piped_scheme, int) kmonad" where
  "piperead runs pi addr n = (
    bnd this_proc (\<lambda>pr.
    sq (acquire (LkPipe pi)) (
    bnd (piperead_wait runs pi pr) (\<lambda>ok.
    if \<not> ok then ret (-1)
      else (
        bnd (piperead_loop (nat n) pi pr addr 0) (\<lambda>i.
        sq (wakeup (ChanPipeWrite pi)) (
        sq (release (LkPipe pi)) (
        ret (int i)))))))))"

section \<open>The buffer of a pipe\<close>

interpretation pq: ring PIPESIZE p_data nread nwrite pipe_put "\<lambda>p. snd (pipe_get p)"
  by unfold_locales (simp_all add: PIPESIZE_def pipe_put_def pipe_get_def)

end
