(* ===== verification/File.thy ===== *)
theory File
  imports Pipe
begin

unbundle bit_operations_syntax

text \<open>
  \<^verbatim>\<open>src/kernel/fs/file.c\<close> with \<^verbatim>\<open>struct file\<close> of \<^verbatim>\<open>include/kernel/file.h\<close>, \<open>pipealloc\<close> of \<^verbatim>\<open>pipe.c\<close> and \<open>consoleinit\<close> of
  \<^verbatim>\<open>console.c\<close>: the table of open files and reading and writing through it. A file pointer is an index
  into \<^verbatim>\<open>ftable.file\<close>. The device switch holds, per major number, which device's routines are installed.
\<close>

section \<open>State\<close>

datatype ftype = FD_NONE | FD_PIPE | FD_INODE | FD_DEVICE

record kfile =
  f_type :: ftype
  f_ref :: int
  f_readable :: bool
  f_writable :: bool
  f_pipe :: uint64
  f_ip :: "nat option"
  f_off :: uint32
  f_major :: uint16

datatype device = ConsoleDev

record devsw_entry =
  dev_read :: "device option"
  dev_write :: "device option"

record files = piped +
  ftable :: "nat \<Rightarrow> kfile"
  devsw :: "nat \<Rightarrow> devsw_entry"

definition CONSOLE :: nat where "CONSOLE = 1"

definition upd_file :: "nat \<Rightarrow> (kfile \<Rightarrow> kfile) \<Rightarrow> ('x files_scheme, unit) kmonad" where
  "upd_file f g = modify (\<lambda>s. s\<lparr>ftable := (ftable s)(f := g (ftable s f))\<rparr>)"

definition get_file :: "nat \<Rightarrow> ('x files_scheme, kfile) kmonad" where
  "get_file f = gets (\<lambda>s. ftable s f)"

section \<open>The table of open files\<close>

definition consoleinit :: "('x files_scheme, unit) kmonad" where
  "consoleinit = (
    sq (initlock LkCons) (
    sq uartinit (
    modify (\<lambda>s. s\<lparr>devsw := (devsw s)(CONSOLE := \<lparr>dev_read = Some ConsoleDev, dev_write = Some ConsoleDev\<rparr>)\<rparr>))))"

definition fileinit :: "('x files_scheme, unit) kmonad" where
  "fileinit = initlock LkFtable"

definition filealloc :: "('x files_scheme, nat option) kmonad" where
  "filealloc = (
    sq (acquire LkFtable) (
    bnd (gets ftable) (\<lambda>t.
    case find (\<lambda>f. f_ref (t f) = 0) [0..<NFILE] of
        Some f \<Rightarrow> (
          sq (upd_file f (\<lambda>r. r\<lparr>f_ref := 1\<rparr>)) (
          sq (release LkFtable) (
          ret (Some f))))
      | None \<Rightarrow> (sq (release LkFtable) (ret None)))))"

definition filedup :: "nat \<Rightarrow> ('x files_scheme, nat) kmonad" where
  "filedup f = (
    sq (acquire LkFtable) (
    bnd (get_file f) (\<lambda>r.
    if f_ref r < 1 then panic ''filedup''
      else (
        sq (upd_file f (\<lambda>r. r\<lparr>f_ref := f_ref r + 1\<rparr>)) (
        sq (release LkFtable) (
        ret f))))))"

text \<open>An inode pointer is dereferenced by \<open>iput\<close>.\<close>

definition iput_ptr :: "nat option \<Rightarrow> ('x fsys_scheme, unit) kmonad" where
  "iput_ptr p = (case p of None \<Rightarrow> null_deref | Some ip \<Rightarrow> iput ip)"

definition fileclose :: "nat \<Rightarrow> ('x files_scheme, unit) kmonad" where
  "fileclose f = (
    sq (acquire LkFtable) (
    bnd (get_file f) (\<lambda>r.
    if f_ref r < 1 then panic ''fileclose''
      else (
        sq (upd_file f (\<lambda>r. r\<lparr>f_ref := f_ref r - 1\<rparr>)) (
        bnd (get_file f) (\<lambda>ff.
        if f_ref ff > 0 then release LkFtable
          else (
            sq (upd_file f (\<lambda>r. r\<lparr>f_ref := 0, f_type := FD_NONE\<rparr>)) (
            sq (release LkFtable) (
            if f_type ff = FD_PIPE then pipeclose (f_pipe ff) (f_writable ff)
              else if f_type ff = FD_INODE \<or> f_type ff = FD_DEVICE then (sq begin_op (sq (iput_ptr (f_ip ff)) (end_op)))
              else ret ())))))))))"

definition filestat :: "nat \<Rightarrow> uint64 \<Rightarrow> ('x files_scheme, int) kmonad" where
  "filestat f addr = (
    bnd this_proc (\<lambda>p.
    bnd (get_file f) (\<lambda>r.
    if f_type r = FD_INODE \<or> f_type r = FD_DEVICE then (
       sq (ilock (f_ip r)) (
       bnd (stati (the (f_ip r))) (\<lambda>st.
       sq (iunlock (f_ip r)) (
       bnd (get_proc p) (\<lambda>pr.
       bnd (copyout (pagetable pr) addr st) (\<lambda>c.
       if c < 0 then ret (-1) else ret 0))))))
      else ret (-1))))"

section \<open>Reading and writing\<close>

text \<open>The routines a device switch entry stands for.\<close>

primrec device_read :: "device \<Rightarrow> ('x devs_scheme, unit) kmonad list \<Rightarrow> place \<Rightarrow> int \<Rightarrow> ('x devs_scheme, int) kmonad" where
  "device_read ConsoleDev runs dst n = consoleread runs dst n"

primrec device_write :: "device \<Rightarrow> ('x devs_scheme, unit) kmonad list \<Rightarrow> place \<Rightarrow> int \<Rightarrow> ('x devs_scheme, int) kmonad" where
  "device_write ConsoleDev runs src n = consolewrite runs src n"

definition fileread :: "('x files_scheme, unit) kmonad list \<Rightarrow> nat \<Rightarrow> uint64 \<Rightarrow> int \<Rightarrow> ('x files_scheme, int) kmonad" where
  "fileread runs f addr n = (
    bnd (get_file f) (\<lambda>r.
    if \<not> f_readable r then ret (-1)
      else case f_type r of
        FD_PIPE \<Rightarrow> piperead runs (f_pipe r) addr n
      | FD_DEVICE \<Rightarrow> (
        bnd (gets devsw) (\<lambda>d.
        if sint (f_major r) < 0 \<or> sint (f_major r) \<ge> int NDEV then ret (-1)
          else case dev_read (d (unat (f_major r))) of
            None \<Rightarrow> ret (-1)
          | Some dev \<Rightarrow> device_read dev runs (UserVa addr) n))
      | FD_INODE \<Rightarrow> (
        sq (ilock (f_ip r)) (
        bnd (readi (the (f_ip r)) (UserVa addr) (f_off r) (word_of_int n)) (\<lambda>(c, bs).
        sq (if c > 0 then upd_file f (\<lambda>r. r\<lparr>f_off := f_off r + word_of_int c\<rparr>) else ret ()) (
        sq (iunlock (f_ip r)) (
        ret c)))))
      | FD_NONE \<Rightarrow> panic ''fileread''))"

definition MAXWRITE :: int where
  "MAXWRITE = int ((MAXOPBLOCKS - 1 - 1 - 2) div 2 * BSIZE)"

text \<open>The loop of \<open>filewrite\<close>: \<open>i\<close> bytes have been written; a short write ends it.\<close>

function filewrite_loop :: "nat \<Rightarrow> uint64 \<Rightarrow> int \<Rightarrow> int \<Rightarrow> ('x files_scheme, int) kmonad" where
  "filewrite_loop f addr n i =
     (if i < n then (
       let n1 = min (n - i) MAXWRITE in
       sq begin_op (
       bnd (get_file f) (\<lambda>r.
       sq (ilock (f_ip r)) (
       bnd (writei (the (f_ip r)) (UserVa (addr + word_of_int i)) (f_off r) (word_of_int n1)) (\<lambda>c.
       sq (if c > 0 then upd_file f (\<lambda>r. r\<lparr>f_off := f_off r + word_of_int c\<rparr>) else ret ()) (
       sq (iunlock (f_ip r)) (
       sq end_op (
       if c \<noteq> n1 then ret i else filewrite_loop f addr n (i + n1)))))))))
      else ret i)"
  by pat_completeness auto
termination
  by (relation "measure (\<lambda>(f, addr, n, i). nat (n - i))") (auto simp: MAXWRITE_def MAXOPBLOCKS_def BSIZE_def)

declare filewrite_loop.simps [simp del]

definition filewrite :: "('x files_scheme, unit) kmonad list \<Rightarrow> nat \<Rightarrow> uint64 \<Rightarrow> int \<Rightarrow> ('x files_scheme, int) kmonad" where
  "filewrite runs f addr n = (
    bnd (get_file f) (\<lambda>r.
    if \<not> f_writable r then ret (-1)
      else case f_type r of
        FD_PIPE \<Rightarrow> pipewrite runs (f_pipe r) addr n
      | FD_DEVICE \<Rightarrow> (
        bnd (gets devsw) (\<lambda>d.
        if sint (f_major r) < 0 \<or> sint (f_major r) \<ge> int NDEV then ret (-1)
          else case dev_write (d (unat (f_major r))) of
            None \<Rightarrow> ret (-1)
          | Some dev \<Rightarrow> device_write dev runs (UserVa addr) n))
      | FD_INODE \<Rightarrow> (bnd (filewrite_loop f addr n 0) (\<lambda>i. ret (if i = n then n else -1)))
      | FD_NONE \<Rightarrow> panic ''filewrite''))"

section \<open>pipealloc\<close>

definition pipealloc :: "('x files_scheme, (nat \<times> nat) option) kmonad" where
  "pipealloc = (
    bnd filealloc (\<lambda>f0.
    case f0 of None \<Rightarrow> ret None
      | Some f0 \<Rightarrow> (
        bnd filealloc (\<lambda>f1.
        case f1 of None \<Rightarrow> (sq (fileclose f0) (ret None))
          | Some f1 \<Rightarrow> (
            bnd kalloc (\<lambda>pi.
            if pi = 0 then (sq (fileclose f0) (sq (fileclose f1) (ret None)))
              else (
                sq (upd_pipe pi (\<lambda>p. p\<lparr>readopen := True, writeopen := True, nwrite := 0, nread := 0\<rparr>)) (
                sq (initlock (LkPipe pi)) (
                sq (upd_file f0 (\<lambda>r. r\<lparr>f_type := FD_PIPE, f_readable := True, f_writable := False, f_pipe := pi\<rparr>)) (
                sq (upd_file f1 (\<lambda>r. r\<lparr>f_type := FD_PIPE, f_readable := False, f_writable := True, f_pipe := pi\<rparr>)) (
                ret (Some (f0, f1)))))))))))))"

end
