(* ===== verification/Process.thy ===== *)
theory Process
  imports File
begin

text \<open>
  The routines of \<^verbatim>\<open>src/kernel/proc.c\<close> that use the file system: \<open>userinit\<close>, \<open>fork\<close> and \<open>exit\<close>. A process
  that exits switches to the scheduler for good: the remaining runs of \<open>exit\<close> only matter if it were
  switched to again, which is a panic.
\<close>

section \<open>Operations\<close>

definition initcode :: "uint8 list" where
  "initcode = [
     0x17, 0x05, 0x00, 0x00, 0x13, 0x05, 0x45, 0x02,
     0x97, 0x05, 0x00, 0x00, 0x93, 0x85, 0x35, 0x02,
     0x93, 0x08, 0x70, 0x00, 0x73, 0x00, 0x00, 0x00,
     0x93, 0x08, 0x20, 0x00, 0x73, 0x00, 0x00, 0x00,
     0xef, 0xf0, 0x9f, 0xff, 0x2f, 0x69, 0x6e, 0x69,
     0x74, 0x00, 0x00, 0x24, 0x00, 0x00, 0x00, 0x00,
     0x00, 0x00, 0x00, 0x00]"

definition userinit :: "('x fsys_scheme, unit) kmonad" where
  "userinit = (
    bnd allocproc (\<lambda>q.
    case q of None \<Rightarrow> null_deref
      | Some p \<Rightarrow> (
        sq (modify (\<lambda>s. s\<lparr>initproc := p\<rparr>)) (
        bnd (get_proc p) (\<lambda>pr.
        sq (uvminit (pagetable pr) initcode) (
        sq (upd_proc p (\<lambda>r. r\<lparr>sz := PGSIZE\<rparr>)) (
        sq (tf_set p tf_epc 0) (
        sq (tf_set p tf_sp PGSIZE) (
        sq (upd_proc p (\<lambda>r. r\<lparr>p_name := safestrcpy (p_name r) (cptr_of (bytes_of ''initcode'')) 16\<rparr>)) (
        bnd (namei (bytes_of ''/'')) (\<lambda>ip.
        sq (upd_proc p (\<lambda>r. r\<lparr>cwd := ip, state := RUNNABLE\<rparr>)) (
        release (LkProc p)))))))))))))"

definition TRAPFRAME_SIZE :: nat where "TRAPFRAME_SIZE = 288"

definition fork :: "('x files_scheme, int) kmonad" where
  "fork = (
    bnd this_proc (\<lambda>p.
    bnd allocproc (\<lambda>q.
    case q of None \<Rightarrow> ret (-1)
      | Some np \<Rightarrow> (
        bnd (get_proc p) (\<lambda>pr.
        bnd (get_proc np) (\<lambda>npr.
        bnd (uvmcopy (pagetable pr) (pagetable npr) (sz pr)) (\<lambda>c.
        if c < 0 then (sq (freeproc np) (sq (release (LkProc np)) (ret (-1))))
          else (
            sq (upd_proc np (\<lambda>r. r\<lparr>sz := sz pr\<rparr>)) (
            sq (mem_move (trapframe npr) (trapframe pr) TRAPFRAME_SIZE) (
            sq (tf_set np tf_a0 0) (
            sq (for_each [0..<NOFILE] (\<lambda>i. case ofile pr i of None \<Rightarrow> ret ()
              | Some f \<Rightarrow> (
                bnd (filedup f) (\<lambda>f.
                upd_proc np (\<lambda>r. r\<lparr>ofile := (ofile r)(i := Some f)\<rparr>))))) (
            sq ((case cwd pr of None \<Rightarrow> null_deref
              | Some ip \<Rightarrow> (bnd (idup ip) (\<lambda>ip. upd_proc np (\<lambda>r. r\<lparr>cwd := Some ip\<rparr>))))) (
            sq (upd_proc np (\<lambda>r. r\<lparr>p_name := safestrcpy (p_name r) (cptr_of (p_name pr)) 16\<rparr>)) (
            bnd (get_proc np) (\<lambda>npr.
            let pid0 = pid npr in
            sq (release (LkProc np)) (
            sq (acquire LkWait) (
            sq (upd_proc np (\<lambda>r. r\<lparr>parent := Some p\<rparr>)) (
            sq (release LkWait) (
            sq (acquire (LkProc np)) (
            sq (upd_proc np (\<lambda>r. r\<lparr>state := RUNNABLE\<rparr>)) (
            sq (release (LkProc np)) (
            ret pid0))))))))))))))))))))))"

text \<open>\<open>exit\<close> up to the switch to the scheduler.\<close>

definition exit_out :: "int \<Rightarrow> ('x files_scheme, bool) kmonad" where
  "exit_out status = (
    bnd this_proc (\<lambda>p.
    bnd (gets initproc) (\<lambda>ip.
    if p = ip then panic ''init exiting''
      else (
        sq (for_each [0..<NOFILE] (\<lambda>fd. (
          bnd (get_proc p) (\<lambda>pr.
          case ofile pr fd of None \<Rightarrow> ret ()
            | Some f \<Rightarrow> (
              sq (fileclose f) (
              upd_proc p (\<lambda>r. r\<lparr>ofile := (ofile r)(fd := None)\<rparr>))))))) (
        sq begin_op (
        bnd (get_proc p) (\<lambda>pr.
        sq (iput_ptr (cwd pr)) (
        sq end_op (
        sq (upd_proc p (\<lambda>r. r\<lparr>cwd := None\<rparr>)) (
        sq (acquire LkWait) (
        sq (reparent p) (
        bnd (get_proc p) (\<lambda>pr.
        sq (wakeup (case parent pr of None \<Rightarrow> ChanNone | Some q \<Rightarrow> ChanProc q)) (
        sq (acquire (LkProc p)) (
        sq (upd_proc p (\<lambda>r. r\<lparr>xstate := status, state := ZOMBIE\<rparr>)) (
        sq (release LkWait) (
        sched_out)))))))))))))))))"

definition exit :: "('x files_scheme, unit) kmonad list \<Rightarrow> int \<Rightarrow> ('x files_scheme, 'a) kmonad" where
  "exit runs status = (
    bnd (exit_out status) (\<lambda>ie.
    case runs of
        [] \<Rightarrow> sleep_on ChanNone
      | run # runs' \<Rightarrow> (
        sq run (
        sq (upd_cpu (\<lambda>c. c\<lparr>intena := ie\<rparr>)) (
        panic ''zombie exit'')))))"

end
