(* ===== verification/Exec.thy ===== *)
theory Exec
  imports Process
begin

unbundle bit_operations_syntax

text \<open>
  \<^verbatim>\<open>src/kernel/exec.c\<close> and \<^verbatim>\<open>include/kernel/elf.h\<close>: replacing the image of a process by a program file. The
  argument strings are given by their bytes without the terminator.
\<close>

section \<open>ELF headers\<close>

definition ELF_MAGIC :: uint32 where "ELF_MAGIC = 0x464C457F"
definition ELF_PROG_LOAD :: uint32 where "ELF_PROG_LOAD = 1"

definition get64 :: "uint8 list \<Rightarrow> nat \<Rightarrow> uint64" where
  "get64 bs off = of_nat (le_decode (slice off 8 bs))"

record elfhdr =
  elf_magic :: uint32
  elf_entry :: uint64
  elf_phoff :: uint64
  elf_phnum :: uint16

definition ELFHDR_SIZE :: nat where "ELFHDR_SIZE = 64"

definition get_elfhdr :: "uint8 list \<Rightarrow> elfhdr" where
  "get_elfhdr bs = \<lparr>elf_magic = get32 bs 0, elf_entry = get64 bs 24, elf_phoff = get64 bs 32, elf_phnum = get16 bs 56\<rparr>"

record proghdr =
  ph_type :: uint32
  ph_off :: uint64
  ph_vaddr :: uint64
  ph_filesz :: uint64
  ph_memsz :: uint64

definition PROGHDR_SIZE :: nat where "PROGHDR_SIZE = 56"

definition get_proghdr :: "uint8 list \<Rightarrow> proghdr" where
  "get_proghdr bs = \<lparr>ph_type = get32 bs 0, ph_off = get64 bs 8, ph_vaddr = get64 bs 16, ph_filesz = get64 bs 32,
     ph_memsz = get64 bs 40\<rparr>"

section \<open>Operations\<close>

text \<open>\<open>loadseg\<close>: \<open>k\<close> counts the pages, so the loop variable is \<open>k * PGSIZE\<close>.\<close>

primrec loadseg_loop :: "uint64 \<Rightarrow> uint64 \<Rightarrow> nat \<Rightarrow> uint32 \<Rightarrow> uint32 \<Rightarrow> nat list \<Rightarrow> ('x fsys_scheme, int) kmonad" where
  "loadseg_loop pt va ip offset fsz [] = ret 0"
| "loadseg_loop pt va ip offset fsz (k # ks) = (
  let i = k * PGSIZE in
  bnd (walkaddr pt (va + of_nat i)) (\<lambda>pa.
  if pa = 0 then panic ''loadseg: address should exist''
    else (
      let n = min (unat fsz - i) PGSIZE in
      bnd (readi ip (KernPa pa) (offset + of_nat i) (of_nat n)) (\<lambda>(c, bs).
      if c \<noteq> int n then ret (-1)
        else loadseg_loop pt va ip offset fsz ks))))"

definition loadseg :: "uint64 \<Rightarrow> uint64 \<Rightarrow> nat \<Rightarrow> uint32 \<Rightarrow> uint32 \<Rightarrow> ('x fsys_scheme, int) kmonad" where
  "loadseg pt va ip offset fsz = loadseg_loop pt va ip offset fsz [0..<(unat fsz + PGSIZE - 1) div PGSIZE]"

text \<open>
  The loop over the program headers, with the size of the image so far; the first component of the
  result is false when the code goes to \<^verbatim>\<open>bad\<close>.
\<close>

primrec load_segments :: "nat \<Rightarrow> uint64 \<Rightarrow> uint32 \<Rightarrow> uint64 \<Rightarrow> nat list \<Rightarrow> ('x fsys_scheme, bool \<times> uint64) kmonad" where
  "load_segments ip pt phoff size0 [] = ret (True, size0)"
| "load_segments ip pt phoff size0 (i # js) = (
  bnd (readi ip (KernVar []) (phoff + of_nat (i * PROGHDR_SIZE)) (of_nat PROGHDR_SIZE)) (\<lambda>(c, bs).
  if c \<noteq> int PROGHDR_SIZE then ret (False, size0)
    else (
      let ph = get_proghdr bs in
      if ph_type ph \<noteq> ELF_PROG_LOAD then load_segments ip pt phoff size0 js
        else if ph_memsz ph < ph_filesz ph then ret (False, size0)
        else if ph_vaddr ph + ph_memsz ph < ph_vaddr ph then ret (False, size0)
        else (
          bnd (uvmalloc pt size0 (ph_vaddr ph + ph_memsz ph)) (\<lambda>size1.
          if size1 = 0 then ret (False, size0)
            else if ph_vaddr ph mod PGSIZE \<noteq> 0 then ret (False, size1)
            else (
              bnd (loadseg pt (ph_vaddr ph) ip (ucast (ph_off ph)) (ucast (ph_filesz ph))) (\<lambda>c.
              if c < 0 then ret (False, size1)
                else load_segments ip pt phoff size1 js)))))))"

text \<open>Pushing the argument strings; the result is the stack pointer and the addresses of the strings.\<close>

primrec push_args :: "uint64 \<Rightarrow> uint64 \<Rightarrow> uint64 \<Rightarrow> uint8 list list \<Rightarrow> uint64 list \<Rightarrow> ('x kmem_scheme, (uint64 \<times> uint64 list) option) kmonad" where
  "push_args pt stackbase sp [] ustack = ret (Some (sp, ustack))"
| "push_args pt stackbase sp (a # argv) ustack =
     (if length ustack \<ge> MAXARG then ret None
      else (
        let sp1 = sp - of_nat (length a + 1) in
        let sp2 = sp1 - sp1 mod 16 in
        if sp2 < stackbase then ret None
          else (
            bnd (copyout pt sp2 (a @ [0])) (\<lambda>c.
            if c < 0 then ret None
              else push_args pt stackbase sp2 argv (ustack @ [sp2])))))"

text \<open>The part of the path after its last slash.\<close>

definition last_elem :: "uint8 list \<Rightarrow> uint8 list" where
  "last_elem path = rev (takeWhile (\<lambda>c. c \<noteq> slash) (rev path))"

definition exec_bad :: "uint64 \<Rightarrow> uint64 \<Rightarrow> nat option \<Rightarrow> ('x fsys_scheme, int) kmonad" where
  "exec_bad pt size0 ip = (
    sq (if pt \<noteq> 0 then proc_freepagetable pt size0 else ret ()) (
    sq ((case ip of None \<Rightarrow> ret () | Some ip \<Rightarrow> (sq (iunlockput ip) (end_op)))) (
    ret (-1))))"

text \<open>The second half of \<open>exec\<close>, after the file has been closed.\<close>

definition exec_stack :: "uint8 list \<Rightarrow> uint8 list list \<Rightarrow> uint64 \<Rightarrow> uint64 \<Rightarrow> uint64 \<Rightarrow> ('x fsys_scheme, int) kmonad" where
  "exec_stack path argv pt entry size0 = (
    bnd this_proc (\<lambda>p.
    bnd (get_proc p) (\<lambda>pr.
    let oldsz = sz pr in
    let size1 = PGROUNDUP size0 in
    bnd (uvmalloc pt size1 (size1 + 2 * PGSIZE)) (\<lambda>size2.
    if size2 = 0 then exec_bad pt size1 None
      else (
        sq (uvmclear pt (size2 - 2 * PGSIZE)) (
        let stackbase = size2 - PGSIZE in
        bnd (push_args pt stackbase size2 argv []) (\<lambda>r.
        case r of None \<Rightarrow> exec_bad pt size2 None
          | Some (sp, ustack) \<Rightarrow> (
            let argc = length ustack in
            let sp1 = sp - of_nat ((argc + 1) * 8) in
            let sp2 = sp1 - sp1 mod 16 in
            if sp2 < stackbase then exec_bad pt size2 None
              else (
                bnd (copyout pt sp2 (concat (map (\<lambda>v. le_encode 8 (unat v)) (ustack @ [0])))) (\<lambda>c.
                if c < 0 then exec_bad pt size2 None
                  else (
                    sq (tf_set p tf_a1 sp2) (
                    sq (upd_proc p (\<lambda>r. r\<lparr>p_name := safestrcpy (p_name r) (cptr_of (last_elem path)) 16\<rparr>)) (
                    let oldpagetable = pagetable pr in
                    sq (upd_proc p (\<lambda>r. r\<lparr>pagetable := pt, sz := size2\<rparr>)) (
                    sq (tf_set p tf_epc entry) (
                    sq (tf_set p tf_sp sp2) (
                    sq (proc_freepagetable oldpagetable oldsz) (
                    ret (int argc))))))))))))))))))"

definition exec :: "uint8 list \<Rightarrow> uint8 list list \<Rightarrow> ('x fsys_scheme, int) kmonad" where
  "exec path argv = (
    bnd this_proc (\<lambda>p.
    sq begin_op (
    bnd (namei path) (\<lambda>q.
    case q of None \<Rightarrow> (sq end_op (ret (-1)))
      | Some ip \<Rightarrow> (
        sq (ilock (Some ip)) (
        bnd (readi ip (KernVar []) 0 (of_nat ELFHDR_SIZE)) (\<lambda>(c, bs).
        let elf = get_elfhdr bs in
        if c \<noteq> int ELFHDR_SIZE then exec_bad 0 0 (Some ip)
          else if elf_magic elf \<noteq> ELF_MAGIC then exec_bad 0 0 (Some ip)
          else (
            bnd (proc_pagetable p) (\<lambda>pt.
            if pt = 0 then exec_bad 0 0 (Some ip)
              else (
                bnd (load_segments ip pt (ucast (elf_phoff elf)) 0 [0..<unat (elf_phnum elf)]) (\<lambda>(ok, size0).
                if \<not> ok then exec_bad pt size0 (Some ip)
                  else (sq (iunlockput ip) (sq end_op (exec_stack path argv pt (elf_entry elf) size0))))))))))))))"

end
