(* ===== verification/Sysfile.thy ===== *)
theory Sysfile
  imports Exec
begin

unbundle bit_operations_syntax

text \<open>
  The arguments of system calls, from \<^verbatim>\<open>src/kernel/syscall.c\<close>, and the file-system calls of
  \<^verbatim>\<open>src/kernel/sysfile.c\<close>. \<open>argint\<close> and \<open>argaddr\<close> always succeed, so the checks of their results are not
  repeated here. A string argument is the list of its bytes before the terminator; \<open>None\<close> stands for
  the error result.
\<close>

section \<open>Arguments\<close>

definition fetchaddr :: "uint64 \<Rightarrow> ('x tasks_scheme, uint64 option) kmonad" where
  "fetchaddr addr = (
    bnd this_proc (\<lambda>p.
    bnd (get_proc p) (\<lambda>pr.
    if addr \<ge> sz pr \<or> addr + 8 > sz pr then ret None
      else (
        bnd (copyin (pagetable pr) addr 8) (\<lambda>(c, bs).
        if c \<noteq> 0 then ret None else ret (Some (of_nat (le_decode bs))))))))"

definition fetchstr :: "uint64 \<Rightarrow> nat \<Rightarrow> ('x tasks_scheme, uint8 list option) kmonad" where
  "fetchstr addr mx = (
    bnd this_proc (\<lambda>p.
    bnd (get_proc p) (\<lambda>pr.
    bnd (copyinstr (pagetable pr) addr mx) (\<lambda>(err, buf).
    if err < 0 then ret None else ret (Some (takeWhile (\<lambda>c. c \<noteq> 0) buf))))))"

definition argraw :: "nat \<Rightarrow> ('x tasks_scheme, uint64) kmonad" where
  "argraw n = (
    bnd this_proc (\<lambda>p.
    if n = 0 then tf_get p tf_a0
      else if n = 1 then tf_get p tf_a1
      else if n = 2 then tf_get p tf_a2
      else if n = 3 then tf_get p tf_a3
      else if n = 4 then tf_get p tf_a4
      else if n = 5 then tf_get p tf_a5
      else panic ''argraw''))"

definition argint :: "nat \<Rightarrow> ('x tasks_scheme, int) kmonad" where
  "argint n = (bnd (argraw n) (\<lambda>v. ret (sint (ucast v :: uint32))))"

definition argaddr :: "nat \<Rightarrow> ('x tasks_scheme, uint64) kmonad" where
  "argaddr n = argraw n"

definition argstr :: "nat \<Rightarrow> nat \<Rightarrow> ('x tasks_scheme, uint8 list option) kmonad" where
  "argstr n mx = (bnd (argaddr n) (\<lambda>addr. fetchstr addr mx))"

section \<open>File descriptors\<close>

definition argfd :: "nat \<Rightarrow> ('x files_scheme, (nat \<times> nat) option) kmonad" where
  "argfd n = (
    bnd (argint n) (\<lambda>fd.
    if fd < 0 \<or> fd \<ge> int NOFILE then ret None
      else (
        bnd this_proc (\<lambda>p.
        bnd (get_proc p) (\<lambda>pr.
        case ofile pr (nat fd) of None \<Rightarrow> ret None | Some f \<Rightarrow> ret (Some (nat fd, f)))))))"

definition fdalloc :: "nat \<Rightarrow> ('x files_scheme, nat option) kmonad" where
  "fdalloc f = (
    bnd this_proc (\<lambda>p.
    bnd (get_proc p) (\<lambda>pr.
    case find (\<lambda>fd. ofile pr fd = None) [0..<NOFILE] of
        None \<Rightarrow> ret None
      | Some fd \<Rightarrow> (
        sq (upd_proc p (\<lambda>r. r\<lparr>ofile := (ofile r)(fd := Some f)\<rparr>)) (
        ret (Some fd))))))"

definition clear_fd :: "nat \<Rightarrow> nat \<Rightarrow> ('x files_scheme, unit) kmonad" where
  "clear_fd p fd = upd_proc p (\<lambda>r. r\<lparr>ofile := (ofile r)(fd := None)\<rparr>)"

definition sys_dup :: "('x files_scheme, int) kmonad" where
  "sys_dup = (
    bnd (argfd 0) (\<lambda>a.
    case a of None \<Rightarrow> ret (-1)
      | Some (fd0, f) \<Rightarrow> (
        bnd (fdalloc f) (\<lambda>fd.
        case fd of None \<Rightarrow> ret (-1)
          | Some fd \<Rightarrow> (bnd (filedup f) (\<lambda>f. ret (int fd)))))))"

definition sys_read :: "('x files_scheme, unit) kmonad list \<Rightarrow> ('x files_scheme, int) kmonad" where
  "sys_read runs = (
    bnd (argfd 0) (\<lambda>a.
    case a of None \<Rightarrow> ret (-1)
      | Some (fd, f) \<Rightarrow> (bnd (argint 2) (\<lambda>n. bnd (argaddr 1) (\<lambda>p. fileread runs f p n)))))"

definition sys_write :: "('x files_scheme, unit) kmonad list \<Rightarrow> ('x files_scheme, int) kmonad" where
  "sys_write runs = (
    bnd (argfd 0) (\<lambda>a.
    case a of None \<Rightarrow> ret (-1)
      | Some (fd, f) \<Rightarrow> (bnd (argint 2) (\<lambda>n. bnd (argaddr 1) (\<lambda>p. filewrite runs f p n)))))"

definition sys_close :: "('x files_scheme, int) kmonad" where
  "sys_close = (
    bnd (argfd 0) (\<lambda>a.
    case a of None \<Rightarrow> ret (-1)
      | Some (fd, f) \<Rightarrow> (bnd this_proc (\<lambda>p. sq (clear_fd p fd) (sq (fileclose f) (ret 0))))))"

definition sys_fstat :: "('x files_scheme, int) kmonad" where
  "sys_fstat = (
    bnd (argfd 0) (\<lambda>a.
    case a of None \<Rightarrow> ret (-1)
      | Some (fd, f) \<Rightarrow> (bnd (argaddr 1) (\<lambda>st. filestat f st))))"

section \<open>Names\<close>

text \<open>The error exit of \<open>sys_link\<close>, which takes back the link it has counted.\<close>

definition link_bad :: "nat \<Rightarrow> ('x fsys_scheme, int) kmonad" where
  "link_bad ip = (
    sq (ilock (Some ip)) (
    sq (upd_inode ip (\<lambda>i. i\<lparr>i_nlink := i_nlink i - 1\<rparr>)) (
    sq (iupdate ip) (
    sq (iunlockput ip) (
    sq end_op (
    ret (-1)))))))"

definition sys_link :: "('x fsys_scheme, int) kmonad" where
  "sys_link = (
    bnd (argstr 0 MAXPATH) (\<lambda>old.
    case old of None \<Rightarrow> ret (-1)
      | Some old \<Rightarrow> (
        bnd (argstr 1 MAXPATH) (\<lambda>new.
        case new of None \<Rightarrow> ret (-1)
          | Some new \<Rightarrow> (
            sq begin_op (
            bnd (namei old) (\<lambda>q.
            case q of None \<Rightarrow> (sq end_op (ret (-1)))
              | Some ip \<Rightarrow> (
                sq (ilock (Some ip)) (
                bnd (get_inode ip) (\<lambda>i.
                if i_type i = T_DIR then (sq (iunlockput ip) (sq end_op (ret (-1))))
                  else (
                    sq (upd_inode ip (\<lambda>i. i\<lparr>i_nlink := i_nlink i + 1\<rparr>)) (
                    sq (iupdate ip) (
                    sq (iunlock (Some ip)) (
                    bnd (nameiparent new (replicate DIRSIZ 0)) (\<lambda>(q, name).
                    case q of None \<Rightarrow> link_bad ip
                      | Some dp \<Rightarrow> (
                        sq (ilock (Some dp)) (
                        bnd (get_inode dp) (\<lambda>d.
                        bnd (get_inode ip) (\<lambda>i.
                        bnd ((if i_dev d \<noteq> i_dev i then ret (-1) else dirlink dp name (i_inum i))) (\<lambda>c.
                        if c < 0 then (sq (iunlockput dp) (link_bad ip))
                          else (sq (iunlockput dp) (sq (iput ip) (sq end_op (ret 0))))))))))))))))))))))))"

primrec isdirempty_loop :: "nat \<Rightarrow> nat list \<Rightarrow> ('x fsys_scheme, bool) kmonad" where
  "isdirempty_loop dp [] = ret True"
| "isdirempty_loop dp (k # ks) = (
  bnd (read_dirent dp k ''isdirempty: readi'') (\<lambda>de.
  if de_inum de \<noteq> 0 then ret False else isdirempty_loop dp ks))"

definition isdirempty :: "nat \<Rightarrow> ('x fsys_scheme, bool) kmonad" where
  "isdirempty dp = (bnd (get_inode dp) (\<lambda>i. isdirempty_loop dp [2..<dir_entries (i_size i)]))"

definition unlink_bad :: "nat \<Rightarrow> ('x fsys_scheme, int) kmonad" where
  "unlink_bad dp = (sq (iunlockput dp) (sq end_op (ret (-1))))"

definition sys_unlink :: "('x fsys_scheme, int) kmonad" where
  "sys_unlink = (
    bnd (argstr 0 MAXPATH) (\<lambda>path.
    case path of None \<Rightarrow> ret (-1)
      | Some path \<Rightarrow> (
        sq begin_op (
        bnd (nameiparent path (replicate DIRSIZ 0)) (\<lambda>(q, name).
        case q of None \<Rightarrow> (sq end_op (ret (-1)))
          | Some dp \<Rightarrow> (
            sq (ilock (Some dp)) (
            if namecmp name (bytes_of ''.'') = 0 \<or> namecmp name (bytes_of ''..'') = 0 then unlink_bad dp
              else (
                bnd (dirlookup dp name) (\<lambda>found.
                case found of None \<Rightarrow> unlink_bad dp
                  | Some (ip, off) \<Rightarrow> (
                    sq (ilock (Some ip)) (
                    bnd (get_inode ip) (\<lambda>i.
                    if sint (i_nlink i) < 1 then panic ''unlink: nlink < 1''
                      else (
                        bnd ((if i_type i = T_DIR then isdirempty ip else ret True)) (\<lambda>e.
                        if \<not> e then (sq (iunlockput ip) (unlink_bad dp))
                          else (
                            bnd (writei dp (KernVar (replicate DIRENT_SIZE 0)) (of_nat off) (of_nat DIRENT_SIZE)) (\<lambda>c.
                            if c \<noteq> int DIRENT_SIZE then panic ''unlink: writei''
                              else (
                                sq (if i_type i = T_DIR then (sq (upd_inode dp (\<lambda>d. d\<lparr>i_nlink := i_nlink d - 1\<rparr>)) (iupdate dp))
                                  else ret ()) (
                                sq (iunlockput dp) (
                                sq (upd_inode ip (\<lambda>i. i\<lparr>i_nlink := i_nlink i - 1\<rparr>)) (
                                sq (iupdate ip) (
                                sq (iunlockput ip) (
                                sq end_op (
                                ret 0)))))))))))))))))))))))"

text \<open>The entries \<^verbatim>\<open>.\<close> and \<^verbatim>\<open>..\<close> of a new directory.\<close>

definition create_dots :: "nat \<Rightarrow> nat \<Rightarrow> ('x fsys_scheme, unit) kmonad" where
  "create_dots dp ip = (
    sq (upd_inode dp (\<lambda>d. d\<lparr>i_nlink := i_nlink d + 1\<rparr>)) (
    sq (iupdate dp) (
    bnd (get_inode ip) (\<lambda>i.
    bnd (dirlink ip (bytes_of ''.'') (i_inum i)) (\<lambda>c1.
    if c1 < 0 then panic ''create dots''
      else (
        bnd (get_inode dp) (\<lambda>d.
        bnd (dirlink ip (bytes_of ''..'') (i_inum d)) (\<lambda>c2.
        if c2 < 0 then panic ''create dots'' else ret ()))))))))"

definition create :: "uint8 list \<Rightarrow> uint16 \<Rightarrow> uint16 \<Rightarrow> uint16 \<Rightarrow> ('x fsys_scheme, nat option) kmonad" where
  "create path type major minor = (
    bnd (nameiparent path (replicate DIRSIZ 0)) (\<lambda>(q, name).
    case q of None \<Rightarrow> ret None
      | Some dp \<Rightarrow> (
        sq (ilock (Some dp)) (
        bnd (dirlookup dp name) (\<lambda>found.
        case found of
            Some (ip, off) \<Rightarrow> (
              sq (iunlockput dp) (
              sq (ilock (Some ip)) (
              bnd (get_inode ip) (\<lambda>i.
              if type = T_FILE \<and> (i_type i = T_FILE \<or> i_type i = T_DEVICE) then ret (Some ip)
                else (sq (iunlockput ip) (ret None))))))
          | None \<Rightarrow> (
            bnd (get_inode dp) (\<lambda>d.
            bnd (ialloc (i_dev d) type) (\<lambda>ip.
            sq (ilock (Some ip)) (
            sq (upd_inode ip (\<lambda>i. i\<lparr>i_major := major, i_minor := minor, i_nlink := 1\<rparr>)) (
            sq (iupdate ip) (
            sq (if type = T_DIR then create_dots dp ip else ret ()) (
            bnd (get_inode ip) (\<lambda>i.
            bnd (dirlink dp name (i_inum i)) (\<lambda>c.
            if c < 0 then panic ''create: dirlink''
              else (sq (iunlockput dp) (ret (Some ip)))))))))))))))))"

text \<open>The inode \<open>sys_open\<close> opens, locked; \<open>None\<close> is an error, after which the transaction ends.\<close>

definition open_inode :: "uint8 list \<Rightarrow> uint32 \<Rightarrow> ('x fsys_scheme, nat option) kmonad" where
  "open_inode path omode =
     (if omode AND O_CREATE \<noteq> 0 then create path T_FILE 0 0
      else (
        bnd (namei path) (\<lambda>q.
        case q of None \<Rightarrow> ret None
          | Some ip \<Rightarrow> (
            sq (ilock (Some ip)) (
            bnd (get_inode ip) (\<lambda>i.
            if i_type i = T_DIR \<and> omode \<noteq> O_RDONLY then (sq (iunlockput ip) (ret None))
              else ret (Some ip)))))))"

definition sys_open :: "('x files_scheme, int) kmonad" where
  "sys_open = (
    bnd (argstr 0 MAXPATH) (\<lambda>path.
    case path of None \<Rightarrow> ret (-1)
      | Some path \<Rightarrow> (
        bnd (argint 1) (\<lambda>om.
        let omode = (word_of_int om :: uint32) in
        sq begin_op (
        bnd (open_inode path omode) (\<lambda>q.
        case q of None \<Rightarrow> (sq end_op (ret (-1)))
          | Some ip \<Rightarrow> (
            bnd (get_inode ip) (\<lambda>i.
            if i_type i = T_DEVICE \<and> (sint (i_major i) < 0 \<or> sint (i_major i) \<ge> int NDEV) then (sq (iunlockput ip) (sq end_op (ret (-1))))
              else (
                bnd filealloc (\<lambda>fo.
                case fo of None \<Rightarrow> (sq (iunlockput ip) (sq end_op (ret (-1))))
                  | Some f \<Rightarrow> (
                    bnd (fdalloc f) (\<lambda>fdo.
                    case fdo of None \<Rightarrow> (sq (fileclose f) (sq (iunlockput ip) (sq end_op (ret (-1)))))
                      | Some fd \<Rightarrow> (
                        sq (if i_type i = T_DEVICE then upd_file f (\<lambda>r. r\<lparr>f_type := FD_DEVICE, f_major := i_major i\<rparr>)
                          else upd_file f (\<lambda>r. r\<lparr>f_type := FD_INODE, f_off := 0\<rparr>)) (
                        sq (upd_file f (\<lambda>r. r\<lparr>f_ip := Some ip, f_readable := (omode AND O_WRONLY = 0),
                          f_writable := (omode AND O_WRONLY \<noteq> 0 \<or> omode AND O_RDWR \<noteq> 0)\<rparr>)) (
                        sq (if omode AND O_TRUNC \<noteq> 0 \<and> i_type i = T_FILE then itrunc ip else ret ()) (
                        sq (iunlock (Some ip)) (
                        sq end_op (
                        ret (int fd)))))))))))))))))))"

definition sys_mkdir :: "('x fsys_scheme, int) kmonad" where
  "sys_mkdir = (
    sq begin_op (
    bnd (argstr 0 MAXPATH) (\<lambda>path.
    case path of None \<Rightarrow> (sq end_op (ret (-1)))
      | Some path \<Rightarrow> (
        bnd (create path T_DIR 0 0) (\<lambda>q.
        case q of None \<Rightarrow> (sq end_op (ret (-1)))
          | Some ip \<Rightarrow> (sq (iunlockput ip) (sq end_op (ret 0))))))))"

definition sys_mknod :: "('x fsys_scheme, int) kmonad" where
  "sys_mknod = (
    sq begin_op (
    bnd (argstr 0 MAXPATH) (\<lambda>path.
    case path of None \<Rightarrow> (sq end_op (ret (-1)))
      | Some path \<Rightarrow> (
        bnd (argint 1) (\<lambda>major.
        bnd (argint 2) (\<lambda>minor.
        bnd (create path T_DEVICE (word_of_int major) (word_of_int minor)) (\<lambda>q.
        case q of None \<Rightarrow> (sq end_op (ret (-1)))
          | Some ip \<Rightarrow> (sq (iunlockput ip) (sq end_op (ret 0))))))))))"

definition sys_chdir :: "('x fsys_scheme, int) kmonad" where
  "sys_chdir = (
    bnd this_proc (\<lambda>p.
    sq begin_op (
    bnd (argstr 0 MAXPATH) (\<lambda>path.
    case path of None \<Rightarrow> (sq end_op (ret (-1)))
      | Some path \<Rightarrow> (
        bnd (namei path) (\<lambda>q.
        case q of None \<Rightarrow> (sq end_op (ret (-1)))
          | Some ip \<Rightarrow> (
            sq (ilock (Some ip)) (
            bnd (get_inode ip) (\<lambda>i.
            if i_type i \<noteq> T_DIR then (sq (iunlockput ip) (sq end_op (ret (-1))))
              else (
                sq (iunlock (Some ip)) (
                bnd (get_proc p) (\<lambda>pr.
                sq (iput_ptr (cwd pr)) (
                sq end_op (
                sq (upd_proc p (\<lambda>r. r\<lparr>cwd := Some ip\<rparr>)) (
                ret 0)))))))))))))))"

section \<open>exec and pipe\<close>

text \<open>
  Copying in the argument vector: each string goes to a page of its own. The result is the list of
  the pages that were allocated, with the strings when all were fetched.
\<close>

primrec fetch_args :: "uint64 \<Rightarrow> nat list \<Rightarrow> uint64 list \<Rightarrow> uint8 list list \<Rightarrow> ('x tasks_scheme, uint64 list \<times> uint8 list list option) kmonad" where
  "fetch_args uargv [] pages argv = ret (pages, None)"
| "fetch_args uargv (i # js) pages argv = (
  bnd (fetchaddr (uargv + of_nat (8 * i))) (\<lambda>a.
  case a of None \<Rightarrow> ret (pages, None)
    | Some uarg \<Rightarrow>
        if uarg = 0 then ret (pages, Some argv)
        else (
          bnd kalloc (\<lambda>pg.
          if pg = 0 then ret (pages, None)
            else (
              bnd (fetchstr uarg PGSIZE) (\<lambda>s.
              case s of None \<Rightarrow> ret (pages @ [pg], None)
                | Some s \<Rightarrow> (sq (mem_write pg (s @ [0])) (fetch_args uargv js (pages @ [pg]) (argv @ [s])))))))))"

definition sys_exec :: "('x fsys_scheme, int) kmonad" where
  "sys_exec = (
    bnd (argstr 0 MAXPATH) (\<lambda>path.
    case path of None \<Rightarrow> ret (-1)
      | Some path \<Rightarrow> (
        bnd (argaddr 1) (\<lambda>uargv.
        bnd (fetch_args uargv [0..<MAXARG] [] []) (\<lambda>(pages, args).
        case args of
            None \<Rightarrow> (sq (for_each pages kfree) (ret (-1)))
          | Some argv \<Rightarrow> (bnd (exec path argv) (\<lambda>r. sq (for_each pages kfree) (ret r))))))))"

definition sys_pipe :: "('x files_scheme, int) kmonad" where
  "sys_pipe = (
    bnd this_proc (\<lambda>p.
    bnd (argaddr 0) (\<lambda>fdarray.
    bnd pipealloc (\<lambda>q.
    case q of None \<Rightarrow> ret (-1)
      | Some (rf, wrf) \<Rightarrow> (
        bnd (fdalloc rf) (\<lambda>fd0.
        case fd0 of None \<Rightarrow> (sq (fileclose rf) (sq (fileclose wrf) (ret (-1))))
          | Some fd0 \<Rightarrow> (
            bnd (fdalloc wrf) (\<lambda>fd1.
            case fd1 of None \<Rightarrow> (sq (clear_fd p fd0) (sq (fileclose rf) (sq (fileclose wrf) (ret (-1)))))
              | Some fd1 \<Rightarrow> (
                bnd (get_proc p) (\<lambda>pr.
                bnd (copyout (pagetable pr) fdarray (le_encode 4 fd0)) (\<lambda>c1.
                bnd ((if c1 < 0 then ret (-1) else copyout (pagetable pr) (fdarray + 4) (le_encode 4 fd1))) (\<lambda>c2.
                if c2 < 0 then (
                  sq (clear_fd p fd0) (
                  sq (clear_fd p fd1) (
                  sq (fileclose rf) (
                  sq (fileclose wrf) (
                  ret (-1))))))
                  else ret 0))))))))))))"

end
