(* ===== verification/Virtio.thy ===== *)
theory Virtio
  imports Device
begin

unbundle bit_operations_syntax

text \<open>
  \<^verbatim>\<open>src/kernel/platform/qemu/driver/virtio_disk.c\<close> and \<^verbatim>\<open>include/kernel/virtio.h\<close>: the driver of the disk. The
  descriptor table and the two rings, which the device shares, are fields of the driver's state; the
  device acts on them between the driver's steps, in the runs that \<open>virtio_disk_rw\<close> sleeps through.
\<close>

section \<open>Constants of virtio.h\<close>

definition VIRTIO_MMIO_MAGIC_VALUE :: uint64 where "VIRTIO_MMIO_MAGIC_VALUE = 0x000"
definition VIRTIO_MMIO_VERSION :: uint64 where "VIRTIO_MMIO_VERSION = 0x004"
definition VIRTIO_MMIO_DEVICE_ID :: uint64 where "VIRTIO_MMIO_DEVICE_ID = 0x008"
definition VIRTIO_MMIO_VENDOR_ID :: uint64 where "VIRTIO_MMIO_VENDOR_ID = 0x00c"
definition VIRTIO_MMIO_DEVICE_FEATURES :: uint64 where "VIRTIO_MMIO_DEVICE_FEATURES = 0x010"
definition VIRTIO_MMIO_DRIVER_FEATURES :: uint64 where "VIRTIO_MMIO_DRIVER_FEATURES = 0x020"
definition VIRTIO_MMIO_GUEST_PAGE_SIZE :: uint64 where "VIRTIO_MMIO_GUEST_PAGE_SIZE = 0x028"
definition VIRTIO_MMIO_QUEUE_SEL :: uint64 where "VIRTIO_MMIO_QUEUE_SEL = 0x030"
definition VIRTIO_MMIO_QUEUE_NUM_MAX :: uint64 where "VIRTIO_MMIO_QUEUE_NUM_MAX = 0x034"
definition VIRTIO_MMIO_QUEUE_NUM :: uint64 where "VIRTIO_MMIO_QUEUE_NUM = 0x038"
definition VIRTIO_MMIO_QUEUE_PFN :: uint64 where "VIRTIO_MMIO_QUEUE_PFN = 0x040"
definition VIRTIO_MMIO_QUEUE_NOTIFY :: uint64 where "VIRTIO_MMIO_QUEUE_NOTIFY = 0x050"
definition VIRTIO_MMIO_INTERRUPT_STATUS :: uint64 where "VIRTIO_MMIO_INTERRUPT_STATUS = 0x060"
definition VIRTIO_MMIO_INTERRUPT_ACK :: uint64 where "VIRTIO_MMIO_INTERRUPT_ACK = 0x064"
definition VIRTIO_MMIO_STATUS :: uint64 where "VIRTIO_MMIO_STATUS = 0x070"

definition VIRTIO_CONFIG_S_ACKNOWLEDGE :: uint32 where "VIRTIO_CONFIG_S_ACKNOWLEDGE = 1"
definition VIRTIO_CONFIG_S_DRIVER :: uint32 where "VIRTIO_CONFIG_S_DRIVER = 2"
definition VIRTIO_CONFIG_S_DRIVER_OK :: uint32 where "VIRTIO_CONFIG_S_DRIVER_OK = 4"
definition VIRTIO_CONFIG_S_FEATURES_OK :: uint32 where "VIRTIO_CONFIG_S_FEATURES_OK = 8"

definition VIRTIO_BLK_F_RO :: nat where "VIRTIO_BLK_F_RO = 5"
definition VIRTIO_BLK_F_SCSI :: nat where "VIRTIO_BLK_F_SCSI = 7"
definition VIRTIO_BLK_F_CONFIG_WCE :: nat where "VIRTIO_BLK_F_CONFIG_WCE = 11"
definition VIRTIO_BLK_F_MQ :: nat where "VIRTIO_BLK_F_MQ = 12"
definition VIRTIO_F_ANY_LAYOUT :: nat where "VIRTIO_F_ANY_LAYOUT = 27"
definition VIRTIO_RING_F_INDIRECT_DESC :: nat where "VIRTIO_RING_F_INDIRECT_DESC = 28"
definition VIRTIO_RING_F_EVENT_IDX :: nat where "VIRTIO_RING_F_EVENT_IDX = 29"

definition NUM :: nat where "NUM = 8"
definition VRING_DESC_F_NEXT :: uint16 where "VRING_DESC_F_NEXT = 1"
definition VRING_DESC_F_WRITE :: uint16 where "VRING_DESC_F_WRITE = 2"
definition VIRTIO_BLK_T_IN :: uint32 where "VIRTIO_BLK_T_IN = 0"
definition VIRTIO_BLK_T_OUT :: uint32 where "VIRTIO_BLK_T_OUT = 1"

section \<open>Operations\<close>

definition upd_vd :: "(vdisk \<Rightarrow> vdisk) \<Rightarrow> ('x devs_scheme, unit) kmonad" where
  "upd_vd f = modify (\<lambda>s. s\<lparr>vd := f (vd s)\<rparr>)"

definition upd_desc :: "nat \<Rightarrow> virtq_desc \<Rightarrow> ('x devs_scheme, unit) kmonad" where
  "upd_desc i d = upd_vd (\<lambda>v. v\<lparr>v_desc := (v_desc v)(i := d)\<rparr>)"

definition R_read :: "uint64 \<Rightarrow> ('x devs_scheme, uint32) kmonad" where
  "R_read r = mmio_read (VIRTIO0 + r)"

definition R_write :: "uint64 \<Rightarrow> uint32 \<Rightarrow> ('x devs_scheme, unit) kmonad" where
  "R_write r v = mmio_write (VIRTIO0 + r) v"

text \<open>The feature bits the driver does not want are cleared.\<close>

definition negotiate :: "uint32 \<Rightarrow> uint32" where
  "negotiate f = fold (\<lambda>b f. f AND NOT (push_bit b 1))
     [VIRTIO_BLK_F_RO, VIRTIO_BLK_F_SCSI, VIRTIO_BLK_F_CONFIG_WCE, VIRTIO_BLK_F_MQ, VIRTIO_F_ANY_LAYOUT,
      VIRTIO_RING_F_EVENT_IDX, VIRTIO_RING_F_INDIRECT_DESC] f"

definition no_desc :: virtq_desc where
  "no_desc = \<lparr>d_addr = 0, d_len = 0, d_flags = 0, d_next = 0\<rparr>"

text \<open>The four identification registers are read until one differs from its expected value.\<close>

primrec check_regs :: "(uint64 \<times> uint32) list \<Rightarrow> ('x devs_scheme, bool) kmonad" where
  "check_regs [] = ret True"
| "check_regs (rv # rvs) = (
  bnd (R_read (fst rv)) (\<lambda>v.
  if v \<noteq> snd rv then ret False else check_regs rvs))"

definition virtio_disk_init :: "('x devs_scheme, unit) kmonad" where
  "virtio_disk_init = (
    sq (initlock LkDisk) (
    bnd (check_regs [(VIRTIO_MMIO_MAGIC_VALUE, 0x74726976), (VIRTIO_MMIO_VERSION, 1),
      (VIRTIO_MMIO_DEVICE_ID, 2), (VIRTIO_MMIO_VENDOR_ID, 0x554d4551)]) (\<lambda>ok.
    if \<not> ok then panic ''could not find virtio disk''
      else (
        let st1 = VIRTIO_CONFIG_S_ACKNOWLEDGE in
        sq (R_write VIRTIO_MMIO_STATUS st1) (
        let st2 = st1 OR VIRTIO_CONFIG_S_DRIVER in
        sq (R_write VIRTIO_MMIO_STATUS st2) (
        bnd (R_read VIRTIO_MMIO_DEVICE_FEATURES) (\<lambda>features.
        sq (R_write VIRTIO_MMIO_DRIVER_FEATURES (negotiate features)) (
        let st3 = st2 OR VIRTIO_CONFIG_S_FEATURES_OK in
        sq (R_write VIRTIO_MMIO_STATUS st3) (
        let st4 = st3 OR VIRTIO_CONFIG_S_DRIVER_OK in
        sq (R_write VIRTIO_MMIO_STATUS st4) (
        sq (R_write VIRTIO_MMIO_GUEST_PAGE_SIZE PGSIZE) (
        sq (R_write VIRTIO_MMIO_QUEUE_SEL 0) (
        bnd (R_read VIRTIO_MMIO_QUEUE_NUM_MAX) (\<lambda>mx.
        if mx = 0 then panic ''virtio disk has no queue 0''
          else if mx < of_nat NUM then panic ''virtio disk max queue too short''
          else (
            sq (R_write VIRTIO_MMIO_QUEUE_NUM (of_nat NUM)) (
            sq (upd_vd (\<lambda>v. v\<lparr>v_desc := (\<lambda>_. no_desc), v_avail := \<lparr>av_idx = 0, av_ring = replicate NUM 0\<rparr>,
              v_used := \<lparr>us_idx = 0, us_ring = replicate NUM 0\<rparr>\<rparr>)) (
            bnd (gets vd_pages) (\<lambda>pages.
            sq (R_write VIRTIO_MMIO_QUEUE_PFN (ucast (drop_bit PGSHIFT pages))) (
            for_each [0..<NUM] (\<lambda>i. upd_vd (\<lambda>v. v\<lparr>v_free := (v_free v)(i := True)\<rparr>))))))))))))))))))))"

definition alloc_desc :: "('x devs_scheme, nat option) kmonad" where
  "alloc_desc = (
    bnd (gets vd) (\<lambda>v.
    case find (v_free v) [0..<NUM] of
        None \<Rightarrow> ret None
      | Some i \<Rightarrow> (
        sq (upd_vd (\<lambda>v. v\<lparr>v_free := (v_free v)(i := False)\<rparr>)) (
        ret (Some i)))))"

definition free_desc :: "nat \<Rightarrow> ('x devs_scheme, unit) kmonad" where
  "free_desc i =
     (if i \<ge> NUM then panic ''free_desc 1''
      else (
        bnd (gets vd) (\<lambda>v.
        if v_free v i then panic ''free_desc 2''
          else (
            sq (upd_desc i no_desc) (
            sq (upd_vd (\<lambda>v. v\<lparr>v_free := (v_free v)(i := True)\<rparr>)) (
            wakeup ChanDiskFree))))))"

text \<open>A chain longer than the table would free a descriptor twice, which is a panic.\<close>

primrec free_chain_loop :: "nat \<Rightarrow> nat \<Rightarrow> ('x devs_scheme, unit) kmonad" where
  "free_chain_loop 0 i = diverge"
| "free_chain_loop (Suc fuel) i = (
  bnd (gets vd) (\<lambda>v.
  let flag = d_flags (v_desc v i) in
  let nxt = unat (d_next (v_desc v i)) in
  sq (free_desc i) (
  if flag AND VRING_DESC_F_NEXT \<noteq> 0 then free_chain_loop fuel nxt else ret ())))"

definition free_chain :: "nat \<Rightarrow> ('x devs_scheme, unit) kmonad" where
  "free_chain i = free_chain_loop (Suc NUM) i"

definition alloc3_desc :: "('x devs_scheme, (nat \<times> nat \<times> nat) option) kmonad" where
  "alloc3_desc = (
    bnd alloc_desc (\<lambda>i0.
    case i0 of None \<Rightarrow> ret None
      | Some i0 \<Rightarrow> (
        bnd alloc_desc (\<lambda>i1.
        case i1 of None \<Rightarrow> (sq (free_desc i0) (ret None))
          | Some i1 \<Rightarrow> (
            bnd alloc_desc (\<lambda>i2.
            case i2 of None \<Rightarrow> (sq (free_desc i0) (sq (free_desc i1) (ret None)))
              | Some i2 \<Rightarrow> ret (Some (i0, i1, i2))))))))"

primrec alloc3_wait :: "('x devs_scheme, unit) kmonad list \<Rightarrow> ('x devs_scheme, (nat \<times> nat \<times> nat) \<times> ('x devs_scheme, unit) kmonad list) kmonad" where
  "alloc3_wait [] = (
    bnd alloc3_desc (\<lambda>r.
    case r of Some idx \<Rightarrow> ret (idx, []) | None \<Rightarrow> sleep_on ChanDiskFree))"
| "alloc3_wait (run # runs) = (
  bnd alloc3_desc (\<lambda>r.
  case r of Some idx \<Rightarrow> ret (idx, run # runs)
    | None \<Rightarrow> (sq (sleep run ChanDiskFree LkDisk) (alloc3_wait runs))))"

text \<open>Building the request and handing it to the device: the part of \<open>virtio_disk_rw\<close> before the wait.\<close>

definition virtio_submit :: "nat \<Rightarrow> bool \<Rightarrow> nat \<times> nat \<times> nat \<Rightarrow> ('x devs_scheme, unit) kmonad" where
  "virtio_submit b write idx = (case idx of (i0, i1, i2) \<Rightarrow> (
    bnd (get_buf b) (\<lambda>r.
    let sector = (ucast (b_blockno r * 2) :: uint64) in
    bnd (gets vd_ops_addr) (\<lambda>ops.
    bnd (gets vd_info_addr) (\<lambda>info.
    bnd (gets vd_buf_addr) (\<lambda>data.
    sq (upd_vd (\<lambda>v. v\<lparr>v_ops := (v_ops v)(i0 := \<lparr>req_type = (if write then VIRTIO_BLK_T_OUT else VIRTIO_BLK_T_IN),
      req_reserved = 0, req_sector = sector\<rparr>)\<rparr>)) (
    sq (upd_desc i0 \<lparr>d_addr = ops + 16 * of_nat i0, d_len = 16, d_flags = VRING_DESC_F_NEXT, d_next = of_nat i1\<rparr>) (
    sq (upd_desc i1 \<lparr>d_addr = data b, d_len = of_nat BSIZE,
      d_flags = (if write then 0 else VRING_DESC_F_WRITE) OR VRING_DESC_F_NEXT, d_next = of_nat i2\<rparr>) (
    sq (upd_vd (\<lambda>v. v\<lparr>v_info := (v_info v)(i0 := (v_info v i0)\<lparr>vi_status := 0xff\<rparr>)\<rparr>)) (
    sq (upd_desc i2 \<lparr>d_addr = info + 16 * of_nat i0 + 8, d_len = 1, d_flags = VRING_DESC_F_WRITE, d_next = 0\<rparr>) (
    sq (upd_buf b (\<lambda>r. r\<lparr>b_disk := True\<rparr>)) (
    sq (upd_vd (\<lambda>v. v\<lparr>v_info := (v_info v)(i0 := (v_info v i0)\<lparr>vi_b := Some b\<rparr>)\<rparr>)) (
    sq (upd_vd (\<lambda>v. v\<lparr>v_avail := (v_avail v)\<lparr>av_ring := (av_ring (v_avail v))[unat (av_idx (v_avail v)) mod NUM := of_nat i0]\<rparr>\<rparr>)) (
    sq (upd_vd (\<lambda>v. v\<lparr>v_avail := (v_avail v)\<lparr>av_idx := av_idx (v_avail v) + 1\<rparr>\<rparr>)) (
    R_write VIRTIO_MMIO_QUEUE_NOTIFY 0)))))))))))))))"

primrec virtio_wait :: "('x devs_scheme, unit) kmonad list \<Rightarrow> nat \<Rightarrow> ('x devs_scheme, unit) kmonad" where
  "virtio_wait [] b = (bnd (get_buf b) (\<lambda>r. if b_disk r then sleep_on (ChanDiskBuf b) else ret ()))"
| "virtio_wait (run # runs) b = (
  bnd (get_buf b) (\<lambda>r.
  if b_disk r then (sq (sleep run (ChanDiskBuf b) LkDisk) (virtio_wait runs b)) else ret ()))"

definition virtio_disk_rw :: "('x devs_scheme, unit) kmonad list \<Rightarrow> nat \<Rightarrow> bool \<Rightarrow> ('x devs_scheme, unit) kmonad" where
  "virtio_disk_rw runs b write = (
    sq (acquire LkDisk) (
    bnd (alloc3_wait runs) (\<lambda>(idx, runs').
    sq (virtio_submit b write idx) (
    sq (virtio_wait runs' b) (
    sq (upd_vd (\<lambda>v. v\<lparr>v_info := (v_info v)(fst idx := (v_info v (fst idx))\<lparr>vi_b := None\<rparr>)\<rparr>)) (
    sq (free_chain (fst idx)) (
    release LkDisk)))))))"

primrec virtio_intr_loop :: "nat \<Rightarrow> ('x devs_scheme, unit) kmonad" where
  "virtio_intr_loop 0 = ret ()"
| "virtio_intr_loop (Suc fuel) = (
  bnd (gets vd) (\<lambda>v.
  if v_used_idx v = us_idx (v_used v) then ret ()
    else (
      let i = unat (us_ring (v_used v) ! (unat (v_used_idx v) mod NUM)) in
      if i \<ge> NUM then ub
        else if vi_status (v_info v i) \<noteq> 0 then panic ''virtio_disk_intr status''
        else case vi_b (v_info v i) of
          None \<Rightarrow> null_deref
        | Some b \<Rightarrow> (
          sq (upd_buf b (\<lambda>r. r\<lparr>b_disk := False\<rparr>)) (
          sq (wakeup (ChanDiskBuf b)) (
          sq (upd_vd (\<lambda>v. v\<lparr>v_used_idx := v_used_idx v + 1\<rparr>)) (
          virtio_intr_loop fuel)))))))"

definition virtio_disk_intr :: "('x devs_scheme, unit) kmonad" where
  "virtio_disk_intr = (
    sq (acquire LkDisk) (
    bnd (R_read VIRTIO_MMIO_INTERRUPT_STATUS) (\<lambda>st.
    sq (R_write VIRTIO_MMIO_INTERRUPT_ACK (st AND 3)) (
    bnd (gets vd) (\<lambda>v.
    sq (virtio_intr_loop (unat (us_idx (v_used v) - v_used_idx v))) (
    release LkDisk))))))"

end
