(* ===== verification/Trap.thy ===== *)
theory Trap
  imports Sysfile Virtio
begin

unbundle bit_operations_syntax

text \<open>
  The process system calls of \<^verbatim>\<open>src/kernel/sysproc.c\<close>, the dispatch of \<^verbatim>\<open>src/kernel/syscall.c\<close>, the trap handlers of
  \<^verbatim>\<open>src/kernel/trap.c\<close> with \<open>forkret\<close> of \<^verbatim>\<open>proc.c\<close>, and \<open>main\<close>. \<open>usertrapret\<close> ends in a jump to the trampoline page:
  its result is the address it jumps to and the page table it passes.
\<close>

section \<open>State\<close>

record kernel = files +
  forkret_first :: bool
  started :: bool

section \<open>System calls on processes\<close>

definition sys_exit :: "('x files_scheme, unit) kmonad list \<Rightarrow> ('x files_scheme, int) kmonad" where
  "sys_exit runs = (bnd (argint 0) (\<lambda>n. exit runs n))"

definition sys_getpid :: "('x tasks_scheme, int) kmonad" where
  "sys_getpid = (bnd this_proc (\<lambda>p. bnd (get_proc p) (\<lambda>pr. ret (pid pr))))"

definition sys_fork :: "('x files_scheme, int) kmonad" where
  "sys_fork = fork"

definition sys_wait :: "('x tasks_scheme, unit) kmonad list \<Rightarrow> ('x tasks_scheme, int) kmonad" where
  "sys_wait runs = (bnd (argaddr 0) (\<lambda>p. wait runs p))"

text \<open>\<^verbatim>\<open>int addr\<close> keeps the low 32 bits of the old size.\<close>

definition sys_sbrk :: "('x tasks_scheme, int) kmonad" where
  "sys_sbrk = (
    bnd (argint 0) (\<lambda>n.
    bnd this_proc (\<lambda>p.
    bnd (get_proc p) (\<lambda>pr.
    let addr = sint (ucast (sz pr) :: uint32) in
    bnd (growproc n) (\<lambda>r.
    if r < 0 then ret (-1) else ret addr)))))"

text \<open>The comparison of \<^verbatim>\<open>ticks - ticks0\<close> with \<^verbatim>\<open>n\<close> is between unsigned values.\<close>

primrec sys_sleep_loop :: "('x tasks_scheme, unit) kmonad list \<Rightarrow> uint32 \<Rightarrow> uint32 \<Rightarrow> ('x tasks_scheme, int) kmonad" where
  "sys_sleep_loop [] ticks0 n = (
    bnd (gets ticks) (\<lambda>t.
    if t - ticks0 < n then (
       bnd this_proc (\<lambda>p.
       bnd (get_proc p) (\<lambda>pr.
       if killed pr then (sq (release LkTicks) (ret (-1))) else sleep_on ChanTicks)))
      else (sq (release LkTicks) (ret 0))))"
| "sys_sleep_loop (run # runs) ticks0 n = (
  bnd (gets ticks) (\<lambda>t.
  if t - ticks0 < n then (
    bnd this_proc (\<lambda>p.
    bnd (get_proc p) (\<lambda>pr.
    if killed pr then (sq (release LkTicks) (ret (-1)))
      else (sq (sleep run ChanTicks LkTicks) (sys_sleep_loop runs ticks0 n)))))
     else (sq (release LkTicks) (ret 0))))"

definition sys_sleep :: "('x tasks_scheme, unit) kmonad list \<Rightarrow> ('x tasks_scheme, int) kmonad" where
  "sys_sleep runs = (
    bnd (argint 0) (\<lambda>n.
    sq (acquire LkTicks) (
    bnd (gets ticks) (\<lambda>t0.
    sys_sleep_loop runs t0 (word_of_int n)))))"

definition sys_kill :: "('x tasks_scheme, int) kmonad" where
  "sys_kill = (bnd (argint 0) (\<lambda>n. kill n))"

definition sys_uptime :: "('x tasks_scheme, int) kmonad" where
  "sys_uptime = (
    sq (acquire LkTicks) (
    bnd (gets ticks) (\<lambda>t.
    sq (release LkTicks) (
    ret (uint t)))))"

section \<open>Dispatch\<close>

text \<open>The table \<^verbatim>\<open>syscalls[]\<close>, with the numbers of \<^verbatim>\<open>include/kernel/syscall.h\<close>.\<close>

definition SYS_fork :: nat where "SYS_fork = 1"
definition SYS_exit :: nat where "SYS_exit = 2"
definition SYS_wait :: nat where "SYS_wait = 3"
definition SYS_pipe :: nat where "SYS_pipe = 4"
definition SYS_read :: nat where "SYS_read = 5"
definition SYS_kill :: nat where "SYS_kill = 6"
definition SYS_exec :: nat where "SYS_exec = 7"
definition SYS_fstat :: nat where "SYS_fstat = 8"
definition SYS_chdir :: nat where "SYS_chdir = 9"
definition SYS_dup :: nat where "SYS_dup = 10"
definition SYS_getpid :: nat where "SYS_getpid = 11"
definition SYS_sbrk :: nat where "SYS_sbrk = 12"
definition SYS_sleep :: nat where "SYS_sleep = 13"
definition SYS_uptime :: nat where "SYS_uptime = 14"
definition SYS_open :: nat where "SYS_open = 15"
definition SYS_write :: nat where "SYS_write = 16"
definition SYS_mknod :: nat where "SYS_mknod = 17"
definition SYS_unlink :: nat where "SYS_unlink = 18"
definition SYS_link :: nat where "SYS_link = 19"
definition SYS_mkdir :: nat where "SYS_mkdir = 20"
definition SYS_close :: nat where "SYS_close = 21"

definition syscalls :: "('x files_scheme, unit) kmonad list \<Rightarrow> (nat \<times> ('x files_scheme, int) kmonad) list" where
  "syscalls runs = [
     (SYS_fork, sys_fork), (SYS_exit, sys_exit runs), (SYS_wait, sys_wait runs), (SYS_pipe, sys_pipe),
     (SYS_read, sys_read runs), (SYS_kill, sys_kill), (SYS_exec, sys_exec), (SYS_fstat, sys_fstat),
     (SYS_chdir, sys_chdir), (SYS_dup, sys_dup), (SYS_getpid, sys_getpid), (SYS_sbrk, sys_sbrk),
     (SYS_sleep, sys_sleep runs), (SYS_uptime, sys_uptime), (SYS_open, sys_open), (SYS_write, sys_write runs),
     (SYS_mknod, sys_mknod), (SYS_unlink, sys_unlink), (SYS_link, sys_link), (SYS_mkdir, sys_mkdir),
     (SYS_close, sys_close)]"

definition syscall :: "('x files_scheme, unit) kmonad list \<Rightarrow> ('x files_scheme, unit) kmonad" where
  "syscall runs = (
    bnd this_proc (\<lambda>p.
    bnd (tf_get p tf_a7) (\<lambda>a7.
    let num = sint (ucast a7 :: uint32) in
    case (if num > 0 then map_of (syscalls runs) (nat num) else None) of
        Some f \<Rightarrow> (bnd f (\<lambda>r. tf_set p tf_a0 (word_of_int r)))
      | None \<Rightarrow> (
        bnd (get_proc p) (\<lambda>pr.
        sq (printf (Some (bytes_of ''%d %s: unknown sys call %d'' @ [newline]))
          [IntArg (word_of_int (pid pr)), StrArg (Some (takeWhile (\<lambda>c. c \<noteq> 0) (p_name pr))), IntArg (ucast a7)]) (
        tf_set p tf_a0 (- 1)))))))"

section \<open>Traps\<close>

definition CLOCK_FREQ :: uint64 where "CLOCK_FREQ = 1000000"

definition read_mtime :: "('x devs_scheme, uint64) kmonad" where
  "read_mtime = (
    bnd (mmio_read CLINT_MTIME) (\<lambda>lo.
    bnd (mmio_read (CLINT_MTIME + 4)) (\<lambda>hi.
    ret (ucast lo OR push_bit 32 (ucast hi)))))"

definition RESET_TIMER :: "('x devs_scheme, unit) kmonad" where
  "RESET_TIMER = (bnd read_mtime (\<lambda>t. sbi_legacy_set_timer (t + CLOCK_FREQ)))"

definition trapinit :: "('x tasks_scheme, unit) kmonad" where
  "trapinit = initlock LkTicks"

definition trapinithart :: "('x devs_scheme, unit) kmonad" where
  "trapinithart = (
    bnd (gets ld_kernelvec) (\<lambda>kv.
    sq (upd_hart (w_stvec kv)) (
    sq (upd_hart (\<lambda>h. w_sie (r_sie h OR SIE_SEIE OR SIE_STIE OR SIE_SSIE) h)) (
    RESET_TIMER))))"

definition clockintr :: "('x tasks_scheme, unit) kmonad" where
  "clockintr = (
    sq (acquire LkTicks) (
    sq (modify (\<lambda>s. s\<lparr>ticks := ticks s + 1\<rparr>)) (
    sq (wakeup ChanTicks) (
    release LkTicks))))"

definition devintr :: "('x devs_scheme, nat) kmonad" where
  "devintr = (
    bnd get_hart (\<lambda>h.
    let cause = r_scause h in
    if cause AND 0x8000000000000000 \<noteq> 0 \<and> cause AND 0xff = 9 then (
       bnd plic_claim (\<lambda>irq.
       sq (if irq = of_nat UART0_IRQ then uartintr
         else if irq = of_nat VIRTIO0_IRQ then virtio_disk_intr
         else if irq \<noteq> 0 then printf (Some (bytes_of ''unexpected interrupt irq=%d'' @ [newline])) [IntArg irq]
         else ret ()) (
       sq (if irq \<noteq> 0 then plic_complete irq else ret ()) (
       ret 1))))
      else if cause = 0x8000000000000005 then (
        bnd cpuid (\<lambda>c.
        sq (if c = 0 then (sq clockintr (RESET_TIMER)) else ret ()) (
        sq (upd_hart (\<lambda>h. w_sip (r_sip h AND NOT 0x10000) h)) (
        ret 2))))
      else ret 0))"

definition usertrapret :: "('x tasks_scheme, uint64 \<times> uint64) kmonad" where
  "usertrapret = (
    bnd this_proc (\<lambda>p.
    sq (upd_hart intr_off) (
    bnd (gets ld_trampoline) (\<lambda>trampoline.
    bnd (gets ld_uservec) (\<lambda>uservec.
    bnd (gets ld_userret) (\<lambda>userret.
    bnd (gets ld_usertrap) (\<lambda>usertrap_addr.
    sq (upd_hart (w_stvec (TRAMPOLINE + (uservec - trampoline)))) (
    bnd get_hart (\<lambda>h.
    bnd (get_proc p) (\<lambda>pr.
    sq (tf_set p tf_kernel_satp (r_satp h)) (
    sq (tf_set p tf_kernel_sp (kstack pr + PGSIZE)) (
    sq (tf_set p tf_kernel_trap usertrap_addr) (
    bnd cpuid (\<lambda>c.
    sq (tf_set p tf_kernel_hartid (of_nat c)) (
    sq (upd_hart (\<lambda>h. w_sstatus ((r_sstatus h AND NOT SSTATUS_SPP) OR SSTATUS_SPIE) h)) (
    bnd (tf_get p tf_epc) (\<lambda>epc.
    sq (upd_hart (w_sepc epc)) (
    ret (TRAMPOLINE + (userret - trampoline), MAKE_SATP (pagetable pr))))))))))))))))))))"

definition forkret :: "('x kernel_scheme, uint64 \<times> uint64) kmonad" where
  "forkret = (
    bnd this_proc (\<lambda>p.
    sq (release (LkProc p)) (
    bnd (gets forkret_first) (\<lambda>first.
    sq (if first then (sq (modify (\<lambda>s. s\<lparr>forkret_first := False\<rparr>)) (fsinit ROOTDEV))
      else ret ()) (
    usertrapret)))))"

text \<open>
  \<open>usertrap\<close>: a killed process exits. \<open>runs\<close> are the sleeps of the system call, \<open>run\<close> what happens
  during a \<open>yield\<close>.
\<close>

definition exit_if_killed :: "('x files_scheme, unit) kmonad list \<Rightarrow> nat \<Rightarrow> ('x files_scheme, unit) kmonad" where
  "exit_if_killed runs p = (bnd (get_proc p) (\<lambda>pr. if killed pr then exit runs (-1) else ret ()))"

definition usertrap :: "('x files_scheme, unit) kmonad list \<Rightarrow> ('x files_scheme, unit) kmonad \<Rightarrow> ('x files_scheme, uint64 \<times> uint64) kmonad" where
  "usertrap runs run = (
    bnd get_hart (\<lambda>h.
    if r_sstatus h AND SSTATUS_SPP \<noteq> 0 then panic ''usertrap: not from user mode''
      else (
        bnd (gets ld_kernelvec) (\<lambda>kv.
        sq (upd_hart (w_stvec kv)) (
        bnd this_proc (\<lambda>p.
        bnd get_hart (\<lambda>h.
        sq (tf_set p tf_epc (r_sepc h)) (
        bnd ((if r_scause h = 8 then (
            sq (exit_if_killed runs p) (
            bnd (tf_get p tf_epc) (\<lambda>epc.
            sq (tf_set p tf_epc (epc + 4)) (
            sq (upd_hart intr_on) (
            sq (syscall runs) (
            ret 0))))))
           else (
             bnd devintr (\<lambda>d.
             if d \<noteq> 0 then ret d
               else (
                 bnd (get_proc p) (\<lambda>pr.
                 sq (printf (Some (bytes_of ''usertrap(): unexpected scause %p pid=%d'' @ [newline]))
                   [PtrArg (r_scause h), IntArg (word_of_int (pid pr))]) (
                 sq (printf (Some (bytes_of ''            sepc=%p stval=%p'' @ [newline])) [PtrArg (r_sepc h), PtrArg (r_stval h)]) (
                 sq (upd_proc p (\<lambda>r. r\<lparr>killed := True\<rparr>)) (
                 ret 0))))))))) (\<lambda>which_dev.
        sq (exit_if_killed runs p) (
        sq (if which_dev = 2 then yield run else ret ()) (
        usertrapret)))))))))))"

definition kerneltrap :: "('x devs_scheme, unit) kmonad \<Rightarrow> ('x devs_scheme, unit) kmonad" where
  "kerneltrap run = (
    bnd get_hart (\<lambda>h.
    let epc = r_sepc h in
    let status = r_sstatus h in
    let cause = r_scause h in
    if status AND SSTATUS_SPP = 0 then panic ''kerneltrap: not from supervisor mode''
      else if intr_get h then panic ''kerneltrap: interrupts enabled''
      else (
        bnd devintr (\<lambda>which_dev.
        if which_dev = 0 then (
            sq (printf (Some (bytes_of ''scause %p'' @ [newline])) [PtrArg cause]) (
            sq (printf (Some (bytes_of ''sepc=%p stval=%p'' @ [newline])) [PtrArg epc, PtrArg (r_stval h)]) (
            panic ''kerneltrap'')))
          else (
            bnd ((if which_dev = 2 then myproc else ret None)) (\<lambda>q.
            sq ((case q of None \<Rightarrow> ret ()
              | Some p \<Rightarrow> (bnd (get_proc p) (\<lambda>pr. if state pr = RUNNING then yield run else ret ())))) (
            sq (upd_hart (w_sepc epc)) (
            upd_hart (w_sstatus status)))))))))"

section \<open>main\<close>

definition kvminithart_m :: "('x tasks_scheme, unit) kmonad" where
  "kvminithart_m = (bnd (gets (\<lambda>s. s)) (\<lambda>s. upd_hart (kvminithart s)))"

text \<open>Hart 0 initialises the machine; another hart spins until \<open>started\<close> is set.\<close>

definition main :: "('x kernel_scheme, unit) kmonad list \<Rightarrow> ('x kernel_scheme, unit) kmonad" where
  "main runs = (
    bnd cpuid (\<lambda>c.
    sq (if c = 0 then (
       sq consoleinit (
       sq printfinit (
       sq (printf (Some [newline]) []) (
       sq (printf (Some (bytes_of ''xv6 kernel is booting'' @ [newline])) []) (
       sq (printf (Some [newline]) []) (
       sq kinit (
       sq kvminit (
       sq kvminithart_m (
       sq procinit (
       sq trapinit (
       sq trapinithart (
       sq plicinit (
       sq plicinithart (
       sq binit (
       sq iinit (
       sq fileinit (
       sq virtio_disk_init (
       sq userinit (
       modify (\<lambda>s. s\<lparr>started := True\<rparr>))))))))))))))))))))
      else (
        bnd (gets started) (\<lambda>st.
        if \<not> st then diverge
          else (
            sq (printf (Some (bytes_of ''hart %d starting'' @ [newline])) [IntArg (of_nat c)]) (
            sq kvminithart_m (
            sq trapinithart (
            plicinithart))))))) (
    scheduler runs)))"

end
