(* ===== verification/Quiet.thy ===== *)
theory Quiet
  imports Sleeplock
begin

text \<open>
  Running the locking routines when no other hart interferes. In a \<open>settled\<close> state a matching pair
  of \<open>acquire\<close> and \<open>release\<close> leaves no trace, so a routine that takes and releases spin locks can be
  read as the change it makes in between. The lemmas give the exact result of each routine:
  \<open>wakeup\<close> is \<open>woken\<close>, and a sleep lock is taken and released by the running process.
\<close>

section \<open>Spin locks\<close>

definition free_lock :: spinlock where
  "free_lock = \<lparr>locked = False, lk_cpu = None\<rparr>"

text \<open>
  The interrupt state and its saved copy fit together: inside a critical section interrupts are off,
  outside the saved copy is the current state, as every \<open>push_off\<close> leaves it.
\<close>

definition settled :: "'x tasks_scheme \<Rightarrow> bool" where
  "settled s \<longleftrightarrow> 0 \<le> noff (this_cpu s) \<and> (0 < noff (this_cpu s) \<longrightarrow> \<not> intr_get (this_hart s)) \<and>
     (noff (this_cpu s) = 0 \<longrightarrow> intena (this_cpu s) = intr_get (this_hart s))"

definition cur :: "'x tasks_scheme \<Rightarrow> nat option" where
  "cur s = c_proc (this_cpu s)"

definition lockd :: "lock_id \<Rightarrow> 'x tasks_scheme \<Rightarrow> 'x tasks_scheme" where
  "lockd lk s = s\<lparr>harts := (harts s)(hart s := intr_off (this_hart s)),
     cpus := (cpus s)(hart s := pushed (intr_get (this_hart s)) (this_cpu s)),
     locks := (locks s)(lk := \<lparr>locked = True, lk_cpu = Some (hart s)\<rparr>)\<rparr>"

lemma run_acquire:
  assumes "locks s lk = free_lock"
  shows "acquire lk s = Ok ((), lockd lk s)"
  using assms
  by (simp add: acquire_def acquire_enter_def test_and_set_def acquire_done_def holding_def upd_lock_def cpuid_def
      run_sq run_bnd run_push_off set_cpu_def set_hart_def lockd_def free_lock_def)

lemma lockd_simps [simp]:
  "hart (lockd lk s) = hart s" "procs (lockd lk s) = procs s" "cur (lockd lk s) = cur s"
  "lk' \<noteq> lk \<Longrightarrow> locks (lockd lk s) lk' = locks s lk'"
  by (simp_all add: lockd_def cur_def this_cpu_def pushed_def)

lemma settled_lockd [simp]: "settled s \<Longrightarrow> settled (lockd lk s)"
  by (simp add: settled_def lockd_def this_cpu_def this_hart_def pushed_def)

lemma pop_pushed:
  assumes "settled s" and "this_cpu t = pushed (intr_get (this_hart s)) (this_cpu s)"
    and "this_hart t = intr_off (this_hart s)"
  shows "pop_off t = Ok ((), set_cpu (this_cpu s) (set_hart (this_hart s) t))"
proof -
  have h: "\<not> intr_get (this_hart t)" and n: "1 \<le> noff (this_cpu t)"
    using assms by (simp_all add: pushed_def settled_def)
  have cpu: "(this_cpu t)\<lparr>noff := noff (this_cpu t) - 1\<rparr> = this_cpu s"
    using assms(1) unfolding assms(2) by (cases "this_cpu s") (auto simp: pushed_def settled_def)
  have hart: "(if noff (this_cpu t) = 1 \<and> intena (this_cpu t) then set_hart (intr_on (this_hart t)) t else t) =
      set_hart (this_hart s) t"
  proof (cases "intr_get (this_hart s)")
    case True
    then show ?thesis using assms(1) unfolding assms(2,3) by (auto simp: pushed_def settled_def intr_on_off)
  next
    case False
    then have "set_hart (this_hart s) t = t"
      using assms(3) this_simps(8) [of t] by (simp add: intr_off_id)
    then show ?thesis using False assms(1) unfolding assms(2,3) by (auto simp: pushed_def settled_def)
  qed
  show ?thesis
    using run_pop_off [OF h n] unfolding cpu hart .
qed

lemma run_release:
  assumes "settled s" and "locks s lk = free_lock"
    and "cpus t = cpus (lockd lk s)" "harts t = harts (lockd lk s)" "hart t = hart s" "locks t = locks (lockd lk s)"
  shows "release lk t = Ok ((), t\<lparr>cpus := cpus s, harts := harts s, locks := locks s\<rparr>)"
proof -
  let ?u = "t\<lparr>locks := (locks t)(lk := free_lock)\<rparr>"
  have core: "cpus t = (cpus s)(hart s := pushed (intr_get (this_hart s)) (this_cpu s))"
    "harts t = (harts s)(hart s := intr_off (this_hart s))"
    "locks t = (locks s)(lk := \<lparr>locked = True, lk_cpu = Some (hart s)\<rparr>)" "hart t = hart s"
    using assms(3-6) by (simp_all add: lockd_def)
  have "(locks s)(lk := free_lock) = locks s"
    using assms(2) by (metis fun_upd_triv)
  then have l: "(locks t)(lk := free_lock) = locks s"
    using core by simp
  have "release lk t = pop_off ?u"
    using core by (simp add: release_def release_enter_def lock_release_def holding_def upd_lock_def run_sq run_bnd free_lock_def)
  also have "\<dots> = Ok ((), set_cpu (this_cpu s) (set_hart (this_hart s) ?u))"
    by (rule pop_pushed [OF assms(1)]) (simp_all add: core this_cpu_def this_hart_def)
  also have "set_cpu (this_cpu s) (set_hart (this_hart s) ?u) = t\<lparr>cpus := cpus s, harts := harts s, locks := locks s\<rparr>"
    using core l by (simp add: set_cpu_def set_hart_def this_hart_def this_cpu_def)
  finally show ?thesis .
qed

lemma run_myproc: "settled s \<Longrightarrow> myproc s = Ok (cur s, s)"
proof -
  assume *: "settled s"
  let ?t = "set_cpu (pushed (intr_get (this_hart s)) (this_cpu s)) (set_hart (intr_off (this_hart s)) s)"
  have "pop_off ?t = Ok ((), set_cpu (this_cpu s) (set_hart (this_hart s) ?t))"
    by (rule pop_pushed [OF *]) simp_all
  then show ?thesis
    by (simp add: myproc_def run_sq run_bnd run_push_off mycpu_def cur_def pushed_def flip: this_cpu_def)
qed

lemma run_this_proc: "settled s \<Longrightarrow> cur s = Some p \<Longrightarrow> this_proc s = Ok (p, s)"
  by (simp add: this_proc_def run_bnd run_myproc)

text \<open>Leaving a critical section: the changes made inside it remain.\<close>

definition unlockd :: "'x tasks_scheme \<Rightarrow> 'x tasks_scheme \<Rightarrow> 'x tasks_scheme" where
  "unlockd s t = t\<lparr>cpus := cpus s, harts := harts s, locks := locks s\<rparr>"

definition in_section :: "lock_id \<Rightarrow> 'x tasks_scheme \<Rightarrow> 'x tasks_scheme \<Rightarrow> bool" where
  "in_section lk s t \<longleftrightarrow> cpus t = cpus (lockd lk s) \<and> harts t = harts (lockd lk s) \<and> hart t = hart s \<and>
     locks t = locks (lockd lk s)"

lemma unlockd_lockd [simp]: "unlockd s (lockd lk s) = s"
  by (simp add: unlockd_def lockd_def)

lemma run_section:
  assumes "settled s" and "locks s lk = free_lock"
    and "body (lockd lk s) = Ok (r, t)" and "in_section lk s t"
  shows "sq (acquire lk) (bnd body (\<lambda>r. sq (release lk) (k r))) s = k r (unlockd s t)"
  using assms run_release [of s lk t]
  by (simp add: run_sq run_bnd run_acquire in_section_def unlockd_def)

section \<open>wakeup\<close>

text \<open>The process table after \<open>wakeup\<close>.\<close>

definition wake :: "chan \<Rightarrow> proc \<Rightarrow> proc" where
  "wake ch pr = (if state pr = SLEEPING \<and> chan pr = ch then pr\<lparr>state := RUNNABLE\<rparr> else pr)"

definition wake_all :: "chan \<Rightarrow> nat option \<Rightarrow> (nat \<Rightarrow> proc) \<Rightarrow> nat \<Rightarrow> proc" where
  "wake_all ch me ps = (\<lambda>p. if p < NPROC \<and> me \<noteq> Some p then wake ch (ps p) else ps p)"

definition woken :: "chan \<Rightarrow> 'x tasks_scheme \<Rightarrow> 'x tasks_scheme" where
  "woken ch s = s\<lparr>procs := wake_all ch (cur s) (procs s)\<rparr>"

lemma settled_procs [simp]: "settled (s\<lparr>procs := ps\<rparr>) = settled s"
  by (simp add: settled_def this_cpu_def this_hart_def)

lemma cur_procs [simp]: "cur (s\<lparr>procs := ps\<rparr>) = cur s"
  by (simp add: cur_def this_cpu_def)

lemma wake_one:
  assumes "settled s" and "cur s \<noteq> Some p \<longrightarrow> locks s (LkProc p) = free_lock"
  shows "bnd myproc (\<lambda>me. if me \<noteq> Some p then
      sq (acquire (LkProc p)) (bnd (get_proc p) (\<lambda>pr.
      sq (if state pr = SLEEPING \<and> chan pr = ch then upd_proc p (\<lambda>r. r\<lparr>state := RUNNABLE\<rparr>) else ret ())
      (release (LkProc p)))) else ret ()) s =
    Ok ((), if cur s = Some p then s else s\<lparr>procs := (procs s)(p := wake ch (procs s p))\<rparr>)"
proof (cases "cur s = Some p")
  case True
  then show ?thesis using assms by (simp add: run_bnd run_myproc)
next
  case False
  let ?t = "if state (procs s p) = SLEEPING \<and> chan (procs s p) = ch
    then (lockd (LkProc p) s)\<lparr>procs := (procs s)(p := (procs s p)\<lparr>state := RUNNABLE\<rparr>)\<rparr> else lockd (LkProc p) s"
  have "release (LkProc p) ?t = Ok ((), ?t\<lparr>cpus := cpus s, harts := harts s, locks := locks s\<rparr>)"
    by (rule run_release [OF assms(1)]) (use False assms in simp_all)
  moreover have "?t\<lparr>cpus := cpus s, harts := harts s, locks := locks s\<rparr> = s\<lparr>procs := (procs s)(p := wake ch (procs s p))\<rparr>"
    by (simp add: lockd_def wake_def)
  ultimately show ?thesis
    using False assms
    by (auto simp: run_bnd run_sq run_myproc run_acquire get_proc_def upd_proc_def split: if_splits)
qed

lemma run_wakeup:
  assumes "settled s" and "\<And>p. p < NPROC \<Longrightarrow> cur s \<noteq> Some p \<Longrightarrow> locks s (LkProc p) = free_lock"
  shows "wakeup ch s = Ok ((), woken ch s)"
proof -
  let ?S = "\<lambda>i. s\<lparr>procs := (\<lambda>p. if p < i \<and> cur s \<noteq> Some p then wake ch (procs s p) else procs s p)\<rparr>"
  have "\<exists>s'. wakeup ch s = Ok ((), s') \<and> s' = ?S NPROC"
    unfolding wakeup_def
  proof (rule for_each_upt [where I = "\<lambda>i t. t = ?S i"])
    show "s = ?S 0" by simp
    fix i t assume i: "i < NPROC" and t: "t = ?S i"
    have "(procs t)(i := wake ch (procs t i)) = procs (?S (Suc i))" if "cur s \<noteq> Some i"
      using that by (auto simp: t less_Suc_eq fun_eq_iff)
    then have "(if cur t = Some i then t else t\<lparr>procs := (procs t)(i := wake ch (procs t i))\<rparr>) = ?S (Suc i)"
      using t by (auto simp: less_Suc_eq intro!: arg_cong [where f = "\<lambda>ps. s\<lparr>procs := ps\<rparr>"])
    moreover have "settled t" "cur t \<noteq> Some i \<longrightarrow> locks t (LkProc i) = free_lock"
      using assms i t by simp_all
    note wake_one [OF this, of ch]
    ultimately show "\<exists>t'. bnd myproc (\<lambda>me. if me \<noteq> Some i then
      sq (acquire (LkProc i)) (bnd (get_proc i) (\<lambda>pr.
      sq (if state pr = SLEEPING \<and> chan pr = ch then upd_proc i (\<lambda>r. r\<lparr>state := RUNNABLE\<rparr>) else ret ())
      (release (LkProc i)))) else ret ()) t = Ok ((), t') \<and> t' = ?S (Suc i)"
      by simp
  qed
  then show ?thesis by (simp add: woken_def wake_all_def)
qed

section \<open>Sleep locks\<close>

text \<open>A process \<open>p\<close> runs in the kernel, and no spin lock is held.\<close>

definition quiet :: "nat \<Rightarrow> 'x tasks_scheme \<Rightarrow> bool" where
  "quiet p s \<longleftrightarrow> settled s \<and> (\<forall>lk. locks s lk = free_lock) \<and> cur s = Some p"

lemma quietD [dest]:
  "quiet p s \<Longrightarrow> settled s" "quiet p s \<Longrightarrow> locks s lk = free_lock" "quiet p s \<Longrightarrow> cur s = Some p"
  by (simp_all add: quiet_def)

lemma quiet_procs [simp]: "quiet p (s\<lparr>procs := ps\<rparr>) = quiet p s"
  by (simp add: quiet_def)

lemma quiet_woken [simp]: "quiet p (woken ch s) = quiet p s"
  by (simp add: woken_def)

lemma settled_sleeplocks [simp]: "settled (s\<lparr>sleeplocks := x\<rparr>) = settled s"
  by (simp add: settled_def this_cpu_def this_hart_def)

lemma cur_sleeplocks [simp]: "cur (s\<lparr>sleeplocks := x\<rparr>) = cur s"
  by (simp add: cur_def this_cpu_def)

lemma quiet_sleeplocks [simp]: "quiet p (s\<lparr>sleeplocks := x\<rparr>) = quiet p s"
  by (simp add: quiet_def)

definition free_sleep :: sleeplock where
  "free_sleep = \<lparr>sl_locked = False, sl_pid = 0\<rparr>"

definition held_by :: "int \<Rightarrow> sleeplock" where
  "held_by n = \<lparr>sl_locked = True, sl_pid = n\<rparr>"

lemma run_acquiresleep:
  assumes "quiet p s" and "\<not> sl_locked (sleeplocks s i)"
  shows "acquiresleep i s = Ok ((), s\<lparr>sleeplocks := (sleeplocks s)(i := held_by (pid (procs s p)))\<rparr>)"
proof -
  let ?u = "lockd (LkSleep i) s"
  let ?t = "?u\<lparr>sleeplocks := (sleeplocks s)(i := held_by (pid (procs s p)))\<rparr>"
  have f: "sleeplocks ?u = sleeplocks s" by (simp add: lockd_def)
  have "this_proc ?u = Ok (p, ?u)"
    using assms by (intro run_this_proc) auto
  moreover have "release (LkSleep i) ?t = Ok ((), ?t\<lparr>cpus := cpus s, harts := harts s, locks := locks s\<rparr>)"
    by (rule run_release) (use assms in auto)
  moreover have "?t\<lparr>cpus := cpus s, harts := harts s, locks := locks s\<rparr> =
      s\<lparr>sleeplocks := (sleeplocks s)(i := held_by (pid (procs s p)))\<rparr>"
    by (simp add: lockd_def)
  ultimately show ?thesis
    using assms quietD(2) [OF assms(1), of "LkSleep i"] f
    by (simp add: acquiresleep_def run_sq run_bnd run_acquire get_proc_def upd_sleeplock_def held_by_def)
qed

lemma run_holdingsleep:
  assumes "quiet p s"
  shows "holdingsleep i s = Ok (sl_locked (sleeplocks s i) \<and> sl_pid (sleeplocks s i) = pid (procs s p), s)"
proof -
  let ?u = "lockd (LkSleep i) s"
  have f: "sleeplocks ?u = sleeplocks s" by (simp add: lockd_def)
  have "this_proc ?u = Ok (p, ?u)"
    using assms by (intro run_this_proc) auto
  moreover have "release (LkSleep i) ?u = Ok ((), ?u\<lparr>cpus := cpus s, harts := harts s, locks := locks s\<rparr>)"
    by (rule run_release) (use assms in auto)
  moreover have "?u\<lparr>cpus := cpus s, harts := harts s, locks := locks s\<rparr> = s"
    by (simp add: lockd_def)
  ultimately show ?thesis
    using assms quietD(2) [OF assms(1), of "LkSleep i"] f
    by (simp add: holdingsleep_def run_sq run_bnd run_acquire get_proc_def Let_def)
qed

lemma run_releasesleep:
  assumes "quiet p s"
  shows "releasesleep i s = Ok ((), woken (sl_chan i) (s\<lparr>sleeplocks := (sleeplocks s)(i := free_sleep)\<rparr>))"
proof -
  let ?u = "(lockd (LkSleep i) s)\<lparr>sleeplocks := (sleeplocks s)(i := free_sleep)\<rparr>"
  let ?t = "woken (sl_chan i) ?u"
  have f: "sleeplocks (lockd (LkSleep i) s) = sleeplocks s" by (simp add: lockd_def)
  have "wakeup (sl_chan i) ?u = Ok ((), ?t)"
    using assms by (intro run_wakeup) auto
  moreover have "release (LkSleep i) ?t = Ok ((), ?t\<lparr>cpus := cpus s, harts := harts s, locks := locks s\<rparr>)"
    by (rule run_release) (use assms in \<open>auto simp: woken_def\<close>)
  moreover have "?t\<lparr>cpus := cpus s, harts := harts s, locks := locks s\<rparr> =
      woken (sl_chan i) (s\<lparr>sleeplocks := (sleeplocks s)(i := free_sleep)\<rparr>)"
    by (simp add: woken_def) (simp add: lockd_def)
  ultimately show ?thesis
    using assms quietD(2) [OF assms(1), of "LkSleep i"] f
    by (simp add: releasesleep_def run_sq run_bnd run_acquire upd_sleeplock_def free_sleep_def)
qed

end
