(* ===== verification/Bcache.thy ===== *)
theory Bcache
  imports Bio Quiet
begin

text \<open>
  What the buffer cache promises to the log and the file system. The linked list of buffers is a
  doubly linked ring through all of them. Seen from above, the cache is a disk with a pending version
  of some blocks: \<open>view\<close> gives the current content of every block, \<open>r\<close> the number of references to
  each block and \<open>h\<close> the blocks the running process has locked. Every operation of \<open>bio.c\<close> keeps the
  invariant \<open>cache\<close> and changes \<open>view\<close>, \<open>r\<close> and \<open>h\<close> as its contract says.
\<close>

section \<open>Doubly linked rings\<close>

primrec seg :: "(nat \<Rightarrow> nat) \<Rightarrow> nat \<Rightarrow> nat list \<Rightarrow> nat \<Rightarrow> bool" where
  "seg f p [] q \<longleftrightarrow> p = q"
| "seg f p (x # xs) q \<longleftrightarrow> p = x \<and> seg f (f x) xs q"

lemma seg_append: "seg f p (xs @ ys) q \<longleftrightarrow> (\<exists>t. seg f p xs t \<and> seg f t ys q)"
  by (induction xs arbitrary: p) auto

lemma seg_cong: "(\<And>x. x \<in> set xs \<Longrightarrow> f x = g x) \<Longrightarrow> seg f p xs q \<longleftrightarrow> seg g p xs q"
  by (induction xs arbitrary: p) auto

lemma seg_fun_upd [simp]: "a \<notin> set xs \<Longrightarrow> seg (f(a := v)) p xs q \<longleftrightarrow> seg f p xs q"
  by (rule seg_cong) auto

text \<open>The ring through \<open>bhead\<close> in which \<open>nx\<close> visits \<open>xs\<close> in order and \<open>pv\<close> in reverse order.\<close>

definition dll :: "(nat \<Rightarrow> nat) \<Rightarrow> (nat \<Rightarrow> nat) \<Rightarrow> nat list \<Rightarrow> bool" where
  "dll nx pv xs \<longleftrightarrow> distinct (bhead # xs) \<and> seg nx (nx bhead) xs bhead \<and> seg pv (pv bhead) (rev xs) bhead"

lemma dll_Nil: "nx bhead = bhead \<Longrightarrow> pv bhead = bhead \<Longrightarrow> dll nx pv []"
  by (simp add: dll_def)

lemma dll_front:
  assumes "dll nx pv xs" and "b \<notin> set xs" and "b \<noteq> bhead"
  shows "dll (nx(b := nx bhead, bhead := b)) ((pv(b := bhead))(nx bhead := b)) (b # xs)"
proof (cases xs)
  case Nil
  with assms show ?thesis by (simp add: dll_def)
next
  case (Cons x ys)
  with assms have x: "nx bhead = x" and d: "distinct (bhead # x # ys)" and b: "b \<notin> set (x # ys)"
    by (auto simp: dll_def)
  from assms(1) Cons obtain t where t: "seg pv (pv bhead) (rev ys) t" "seg pv t [x] bhead"
    by (auto simp: dll_def seg_append)
  show ?thesis
    using assms Cons x d b t by (auto simp: dll_def seg_append)
qed

lemma dll_remove:
  assumes "dll nx pv (ys @ b # zs)"
  shows "dll (nx(pv b := nx b)) (pv(nx b := pv b)) (ys @ zs)"
proof -
  from assms have d: "distinct (bhead # ys @ b # zs)" by (simp add: dll_def)
  from assms have f: "seg nx (nx bhead) ys b" "seg nx (nx b) zs bhead"
    by (auto simp: dll_def seg_append)
  from assms have r: "seg pv (pv bhead) (rev zs) b" "seg pv (pv b) (rev ys) bhead"
    by (auto simp: dll_def seg_append)
  show ?thesis
  proof (cases "ys = []")
    case True
    with r have pb: "pv b = bhead" by simp
    show ?thesis
    proof (cases "zs = []")
      case True
      with \<open>ys = []\<close> f r pb show ?thesis by (simp add: dll_def)
    next
      case False
      then obtain z zs' where z: "zs = z # zs'" by (cases zs) auto
      with f have nb: "nx b = z" by simp
      from r z obtain t where "seg pv (pv bhead) (rev zs') t" "t = z" "pv z = b"
        by (auto simp: seg_append)
      with \<open>ys = []\<close> z nb pb f d show ?thesis by (auto simp: dll_def seg_append)
    qed
  next
    case False
    then obtain ys' y where y: "ys = ys' @ [y]" by (cases ys rule: rev_cases) auto
    with r have pb: "pv b = y" by simp
    from f y obtain t where fy: "seg nx (nx bhead) ys' t" "t = y" "nx y = b"
      by (auto simp: seg_append)
    show ?thesis
    proof (cases "zs = []")
      case True
      with f have "nx b = bhead" by simp
      with True y pb fy f r d show ?thesis by (auto simp: dll_def seg_append)
    next
      case False
      then obtain z zs' where z: "zs = z # zs'" by (cases zs) auto
      with f have nb: "nx b = z" by simp
      from r z obtain t where "seg pv (pv bhead) (rev zs') t" "t = z" "pv z = b"
        by (auto simp: seg_append)
      with y z nb pb fy f r d show ?thesis by (auto simp: dll_def seg_append)
    qed
  qed
qed

section \<open>The list of buffers\<close>

definition nx :: "(nat \<Rightarrow> buf) \<Rightarrow> nat \<Rightarrow> nat" where "nx bc b = b_next (bc b)"
definition pv :: "(nat \<Rightarrow> buf) \<Rightarrow> nat \<Rightarrow> nat" where "pv bc b = b_prev (bc b)"

definition lru :: "(nat \<Rightarrow> buf) \<Rightarrow> nat list \<Rightarrow> bool" where
  "lru bc xs \<longleftrightarrow> dll (nx bc) (pv bc) xs \<and> set xs = {..<NBUF}"

lemma lru_length: "lru bc xs \<Longrightarrow> length xs = NBUF"
proof -
  assume "lru bc xs"
  then have "distinct xs" "set xs = {..<NBUF}" by (auto simp: lru_def dll_def)
  from distinct_card [OF this(1)] this(2) show ?thesis by simp
qed

lemma bget_cached_find:
  assumes "seg (nx (bcache s)) q xs bhead" and "bhead \<notin> set xs" and "length xs < fuel"
  shows "bget_cached fuel q dev k s =
    Ok (find (\<lambda>b. b_dev (bcache s b) = dev \<and> b_blockno (bcache s b) = k) xs, s)"
  using assms
proof (induction xs arbitrary: q fuel)
  case Nil
  then show ?case by (cases fuel) simp_all
next
  case (Cons x xs)
  then obtain n where "fuel = Suc n" "length xs < n" by (cases fuel) auto
  with Cons show ?case by (simp add: get_buf_def run_bnd nx_def)
qed

lemma bget_lru_find:
  assumes "seg (pv (bcache s)) q xs bhead" and "bhead \<notin> set xs" and "length xs < fuel"
  shows "bget_lru fuel q s = Ok (find (\<lambda>b. b_refcnt (bcache s b) = 0) xs, s)"
  using assms
proof (induction xs arbitrary: q fuel)
  case Nil
  then show ?case by (cases fuel) simp_all
next
  case (Cons x xs)
  then obtain n where "fuel = Suc n" "length xs < n" by (cases fuel) auto
  with Cons show ?case by (simp add: get_buf_def run_bnd pv_def)
qed

section \<open>The invariant\<close>

definition buf_at :: "uint32 \<Rightarrow> 'x bio_scheme \<Rightarrow> nat \<Rightarrow> uint32 \<Rightarrow> bool" where
  "buf_at D s b k \<longleftrightarrow> b < NBUF \<and> b_dev (bcache s b) = D \<and> b_blockno (bcache s b) = k"

text \<open>The current content of a block: that of the buffer that holds it, or what is on the disk.\<close>

definition view :: "uint32 \<Rightarrow> 'x bio_scheme \<Rightarrow> disk" where
  "view D s k = (case find (\<lambda>b. buf_at D s b k \<and> b_valid (bcache s b)) [0..<NBUF] of
     Some b \<Rightarrow> b_data (bcache s b) | None \<Rightarrow> disk s k)"

definition cache :: "nat \<Rightarrow> uint32 \<Rightarrow> (uint32 \<Rightarrow> nat) \<Rightarrow> uint32 set \<Rightarrow> 'x bio_scheme \<Rightarrow> bool" where
  "cache p D r h s \<longleftrightarrow> quiet p s \<and> D \<noteq> 0 \<and> (\<exists>xs. lru (bcache s) xs) \<and>
     (\<forall>b<NBUF. b_dev (bcache s b) = 0 \<or> b_dev (bcache s b) = D) \<and>
     (\<forall>b b' k. buf_at D s b k \<longrightarrow> buf_at D s b' k \<longrightarrow> b = b') \<and>
     (\<forall>b<NBUF. b_refcnt (bcache s b) = (if b_dev (bcache s b) = D then int (r (b_blockno (bcache s b))) else 0)) \<and>
     (\<forall>k. 0 < r k \<longrightarrow> (\<exists>b. buf_at D s b k \<and> b_valid (bcache s b))) \<and>
     (\<forall>b<NBUF. if b_dev (bcache s b) = D \<and> b_blockno (bcache s b) \<in> h
        then sleeplocks s (SlBuf b) = held_by (pid (procs s p)) else \<not> sl_locked (sleeplocks s (SlBuf b))) \<and>
     (\<forall>k\<in>h. 0 < r k) \<and>
     (\<forall>b k. buf_at D s b k \<longrightarrow> b_valid (bcache s b) \<longrightarrow>
        length (b_data (bcache s b)) = BSIZE \<and> (r k = 0 \<longrightarrow> b_data (bcache s b) = disk s k)) \<and>
     (\<forall>k. length (disk s k) = BSIZE)"

lemma view_buf:
  assumes "cache p D r h s" and "buf_at D s b k" and "b_valid (bcache s b)"
  shows "view D s k = b_data (bcache s b)"
proof -
  have "find (\<lambda>b. buf_at D s b k \<and> b_valid (bcache s b)) [0..<NBUF] \<noteq> None"
    using assms(2,3) by (auto simp: find_None_iff buf_at_def)
  then obtain c where c: "find (\<lambda>b. buf_at D s b k \<and> b_valid (bcache s b)) [0..<NBUF] = Some c" by auto
  then have "buf_at D s c k" by (auto simp: find_Some_iff)
  with assms(1,2) have "c = b" unfolding cache_def by blast
  with c show ?thesis by (simp add: view_def)
qed

lemma view_disk:
  assumes "\<And>b. buf_at D s b k \<Longrightarrow> \<not> b_valid (bcache s b)"
  shows "view D s k = disk s k"
proof -
  have "find (\<lambda>b. buf_at D s b k \<and> b_valid (bcache s b)) [0..<NBUF] = None"
    using assms by (auto simp: find_None_iff)
  then show ?thesis by (simp add: view_def)
qed

lemma view_clean: "cache p D r h s \<Longrightarrow> r k = 0 \<Longrightarrow> view D s k = disk s k"
proof -
  assume *: "cache p D r h s" "r k = 0"
  show ?thesis
  proof (cases "\<exists>b. buf_at D s b k \<and> b_valid (bcache s b)")
    case True
    then obtain b where "buf_at D s b k" "b_valid (bcache s b)" by blast
    with * view_buf [OF *(1) this] show ?thesis by (simp add: cache_def)
  next
    case False
    then show ?thesis by (intro view_disk) blast
  qed
qed

lemma view_all_clean: "cache p D (\<lambda>_. 0) {} s \<Longrightarrow> view D s = disk s"
  by (rule ext) (erule view_clean, simp)

lemma length_view: "cache p D r h s \<Longrightarrow> length (view D s k) = BSIZE"
proof -
  assume *: "cache p D r h s"
  show ?thesis
  proof (cases "\<exists>b. buf_at D s b k \<and> b_valid (bcache s b)")
    case True
    then obtain b where "buf_at D s b k" "b_valid (bcache s b)" by blast
    with * view_buf [OF * this] show ?thesis by (simp add: cache_def)
  next
    case False
    then have "view D s k = disk s k" by (intro view_disk) blast
    with * show ?thesis by (simp add: cache_def)
  qed
qed

lemma buf_valid: "cache p D r h s \<Longrightarrow> buf_at D s b k \<Longrightarrow> 0 < r k \<Longrightarrow> b_valid (bcache s b)"
  unfolding cache_def by metis

lemma buf_data: "cache p D r h s \<Longrightarrow> buf_at D s b k \<Longrightarrow> 0 < r k \<Longrightarrow> b_data (bcache s b) = view D s k"
  using view_buf buf_valid by metis

text \<open>Only the process table (wakeups), the buffers and their locks, and the disk may change.\<close>

definition bframe :: "'x bio_scheme \<Rightarrow> 'x bio_scheme \<Rightarrow> bool" where
  "bframe s s' \<longleftrightarrow> (\<exists>ps sl bc d tr. s' = s\<lparr>procs := ps, sleeplocks := sl, bcache := bc, disk := d, dtrace := tr\<rparr>) \<and>
     (\<forall>i. sleeplocks s' (SlInode i) = sleeplocks s (SlInode i)) \<and>
     (\<forall>q. procs s' q = procs s q \<or> state (procs s q) = SLEEPING \<and> procs s' q = (procs s q)\<lparr>state := RUNNABLE\<rparr>)"

lemma bframeI:
  assumes "s' = s\<lparr>procs := ps, sleeplocks := sl, bcache := bc, disk := d, dtrace := tr\<rparr>"
    and "\<And>i. sl (SlInode i) = sleeplocks s (SlInode i)"
    and "\<And>q. ps q = procs s q \<or> state (procs s q) = SLEEPING \<and> ps q = (procs s q)\<lparr>state := RUNNABLE\<rparr>"
  shows "bframe s s'"
proof -
  from assms(1) have "\<exists>ps sl bc d tr. s' = s\<lparr>procs := ps, sleeplocks := sl, bcache := bc, disk := d, dtrace := tr\<rparr>"
    by blast
  then show ?thesis unfolding bframe_def using assms(2,3) by (simp add: assms(1))
qed

lemma bframe_pid: "bframe s s' \<Longrightarrow> pid (procs s' q) = pid (procs s q)"
proof -
  assume "bframe s s'"
  then have "procs s' q = procs s q \<or> procs s' q = (procs s q)\<lparr>state := RUNNABLE\<rparr>" unfolding bframe_def by blast
  then show ?thesis by auto
qed

lemma bframe_refl [simp, intro]: "bframe s s"
proof -
  have "s = s\<lparr>procs := procs s, sleeplocks := sleeplocks s, bcache := bcache s, disk := disk s, dtrace := dtrace s\<rparr>"
    by simp
  then show ?thesis unfolding bframe_def by blast
qed

lemma bframe_trans [trans]:
  assumes "bframe s t" and "bframe t u"
  shows "bframe s u"
proof -
  from assms obtain ps sl bc d tr ps' sl' bc' d' tr'
    where "t = s\<lparr>procs := ps, sleeplocks := sl, bcache := bc, disk := d, dtrace := tr\<rparr>"
      and "u = t\<lparr>procs := ps', sleeplocks := sl', bcache := bc', disk := d', dtrace := tr'\<rparr>"
    unfolding bframe_def by blast
  then have "u = s\<lparr>procs := ps', sleeplocks := sl', bcache := bc', disk := d', dtrace := tr'\<rparr>"
    by simp
  then have "\<exists>ps sl bc d tr. u = s\<lparr>procs := ps, sleeplocks := sl, bcache := bc, disk := d, dtrace := tr\<rparr>"
    by blast
  moreover have "procs u q = procs s q \<or> state (procs s q) = SLEEPING \<and> procs u q = (procs s q)\<lparr>state := RUNNABLE\<rparr>" for q
  proof -
    from assms(1) have "procs t q = procs s q \<or> state (procs s q) = SLEEPING \<and> procs t q = (procs s q)\<lparr>state := RUNNABLE\<rparr>"
      unfolding bframe_def by blast
    moreover from assms(2) have "procs u q = procs t q \<or> state (procs t q) = SLEEPING \<and> procs u q = (procs t q)\<lparr>state := RUNNABLE\<rparr>"
      unfolding bframe_def by blast
    ultimately show ?thesis by auto
  qed
  moreover from assms have "sleeplocks u (SlInode i) = sleeplocks s (SlInode i)" for i
    unfolding bframe_def by metis
  ultimately show ?thesis unfolding bframe_def by blast
qed

section \<open>bget and bread\<close>

lemma quiet_bio [simp]:
  "quiet p (s\<lparr>bcache := x\<rparr>) = quiet p s" "quiet p (s\<lparr>disk := d\<rparr>) = quiet p s" "quiet p (s\<lparr>dtrace := tr\<rparr>) = quiet p s"
  by (simp_all add: quiet_def settled_def cur_def this_cpu_def this_hart_def)

lemma free_buffer:
  assumes "cache p D r h s" and "card {k. 0 < r k} < NBUF"
  shows "\<exists>b<NBUF. b_refcnt (bcache s b) = 0"
proof (rule ccontr)
  assume "\<not> ?thesis"
  then have pos: "b_refcnt (bcache s b) \<noteq> 0" if "b < NBUF" for b using that by blast
  have dev: "b_dev (bcache s b) = D \<and> 0 < r (b_blockno (bcache s b))" if "b < NBUF" for b
    using assms(1) pos [OF that] that unfolding cache_def by (auto split: if_splits)
  have "inj_on (\<lambda>b. b_blockno (bcache s b)) {..<NBUF}"
    using assms(1) dev unfolding cache_def buf_at_def inj_on_def by auto
  then have "card ((\<lambda>b. b_blockno (bcache s b)) ` {..<NBUF}) = NBUF"
    by (simp add: card_image)
  moreover have "(\<lambda>b. b_blockno (bcache s b)) ` {..<NBUF} \<subseteq> {k. 0 < r k}"
    using dev by auto
  ultimately have "NBUF \<le> card {k. 0 < r k}"
    by (metis card_mono finite)
  with assms(2) show False by simp
qed

lemma find_Some_set: "find P xs = Some x \<Longrightarrow> x \<in> set xs \<and> P x"
  by (auto simp: find_Some_iff)

text \<open>
  The choice of \<open>bget\<close>, on the list of buffers in order of last use: the buffer that holds the block,
  or the unreferenced one that was used longest ago.
\<close>

definition bget_choice :: "(nat \<Rightarrow> buf) \<Rightarrow> uint32 \<Rightarrow> uint32 \<Rightarrow> nat list \<Rightarrow> nat option" where
  "bget_choice bc D k xs = (case find (\<lambda>b. b_dev (bc b) = D \<and> b_blockno (bc b) = k) xs of
     Some b \<Rightarrow> Some b | None \<Rightarrow> find (\<lambda>b. b_refcnt (bc b) = 0) (rev xs))"

definition taken :: "uint32 \<Rightarrow> uint32 \<Rightarrow> buf \<Rightarrow> buf" where
  "taken D k r = (if b_dev r = D \<and> b_blockno r = k then r\<lparr>b_refcnt := b_refcnt r + 1\<rparr>
     else r\<lparr>b_dev := D, b_blockno := k, b_valid := False, b_refcnt := 1\<rparr>)"

lemma bget_eq:
  assumes c: "cache p D r h s" and l: "lru (bcache s) xs" and "k \<notin> h"
  shows "bget D k s = (case bget_choice (bcache s) D k xs of None \<Rightarrow> Panic ''bget: no buffers''
    | Some b \<Rightarrow> Ok (b, s\<lparr>bcache := (bcache s)(b := taken D k (bcache s b)),
        sleeplocks := (sleeplocks s)(SlBuf b := held_by (pid (procs s p)))\<rparr>))"
proof -
  from c have q: "quiet p s" unfolding cache_def by blast
  let ?u = "lockd LkBcache s"
  have f: "bcache ?u = bcache s" "sleeplocks ?u = sleeplocks s" by (simp_all add: lockd_def)
  have head: "bhead \<notin> set xs" "set (rev xs) = {..<NBUF}" "set xs = {..<NBUF}" using l by (auto simp: lru_def)
  have fc: "bget_cached (Suc NBUF) (b_next (bcache ?u bhead)) D k ?u =
      Ok (find (\<lambda>b. b_dev (bcache s b) = D \<and> b_blockno (bcache s b) = k) xs, ?u)"
    using l bget_cached_find [of ?u "nx (bcache s) bhead" xs "Suc NBUF" D k] head lru_length [OF l]
    by (simp add: f lru_def dll_def nx_def)
  have fl: "bget_lru (Suc NBUF) (b_prev (bcache ?u bhead)) ?u = Ok (find (\<lambda>b. b_refcnt (bcache s b) = 0) (rev xs), ?u)"
    using l bget_lru_find [of ?u "pv (bcache s) bhead" "rev xs" "Suc NBUF"] head lru_length [OF l]
    by (simp add: f lru_def dll_def pv_def)
  have rel: "release LkBcache (?u\<lparr>bcache := bc\<rparr>) = Ok ((), s\<lparr>bcache := bc\<rparr>)" for bc
  proof -
    have "release LkBcache (?u\<lparr>bcache := bc\<rparr>) = Ok ((), (?u\<lparr>bcache := bc\<rparr>)\<lparr>cpus := cpus s, harts := harts s, locks := locks s\<rparr>)"
      by (rule run_release) (use q in auto)
    also have "(?u\<lparr>bcache := bc\<rparr>)\<lparr>cpus := cpus s, harts := harts s, locks := locks s\<rparr> = s\<lparr>bcache := bc\<rparr>"
      by (simp add: lockd_def)
    finally show ?thesis .
  qed
  have acq: "acquiresleep (SlBuf b) (s\<lparr>bcache := bc\<rparr>) =
      Ok ((), s\<lparr>bcache := bc, sleeplocks := (sleeplocks s)(SlBuf b := held_by (pid (procs s p)))\<rparr>)"
    if "\<not> sl_locked (sleeplocks s (SlBuf b))" for b bc
    using run_acquiresleep [of p "s\<lparr>bcache := bc\<rparr>" "SlBuf b"] q that by simp
  have start: "acquire LkBcache s = Ok ((), ?u)"
    using q by (intro run_acquire) auto
  note run = start fc fl rel acq f
  note defs = bget_def run_sq run_bnd get_buf_def upd_buf_def bget_choice_def taken_def
  show ?thesis
  proof (cases "find (\<lambda>b. b_dev (bcache s b) = D \<and> b_blockno (bcache s b) = k) xs")
    case (Some b)
    from find_Some_set [OF Some] have b: "b_dev (bcache s b) = D" "b_blockno (bcache s b) = k" "b < NBUF" using head by auto
    then have "\<not> sl_locked (sleeplocks s (SlBuf b))" using c \<open>k \<notin> h\<close> unfolding cache_def by auto
    then show ?thesis using run Some b by (simp add: defs)
  next
    case None
    show ?thesis
    proof (cases "find (\<lambda>b. b_refcnt (bcache s b) = 0) (rev xs)")
      case n: None
      then show ?thesis using run None by (simp add: defs)
    next
      case fb: (Some b)
      from find_Some_set [OF fb] have b: "b < NBUF" "b_refcnt (bcache s b) = 0" using head by auto
      then have no: "\<not> (b_dev (bcache s b) = D \<and> b_blockno (bcache s b) = k)"
        using None head by (auto simp: find_None_iff)
      have "\<not> (b_dev (bcache s b) = D \<and> b_blockno (bcache s b) \<in> h)"
        using c b unfolding cache_def by (metis of_nat_eq_0_iff less_irrefl)
      then have "\<not> sl_locked (sleeplocks s (SlBuf b))" using c b unfolding cache_def by auto
      then show ?thesis using run None fb no by (auto simp: defs)
    qed
  qed
qed

lemma run_bget:
  assumes c: "cache p D r h s" and "k \<notin> h" and "0 < r k \<or> card {k. 0 < r k} < NBUF"
  obtains b rb where
    "bget D k s = Ok (b, s\<lparr>bcache := (bcache s)(b := rb), sleeplocks := (sleeplocks s)(SlBuf b := held_by (pid (procs s p)))\<rparr>)"
    "b < NBUF"
    "buf_at D s b k \<and> rb = (bcache s b)\<lparr>b_refcnt := b_refcnt (bcache s b) + 1\<rparr> \<or>
     (\<forall>b'. \<not> buf_at D s b' k) \<and> b_refcnt (bcache s b) = 0 \<and>
       rb = (bcache s b)\<lparr>b_dev := D, b_blockno := k, b_valid := False, b_refcnt := 1\<rparr>"
proof -
  from c obtain xs where l: "lru (bcache s) xs" unfolding cache_def by blast
  have head: "set (rev xs) = {..<NBUF}" "set xs = {..<NBUF}" using l by (auto simp: lru_def)
  show ?thesis
  proof (cases "find (\<lambda>b. b_dev (bcache s b) = D \<and> b_blockno (bcache s b) = k) xs")
    case (Some b)
    from find_Some_set [OF Some] have b: "buf_at D s b k" using head by (auto simp: buf_at_def)
    show ?thesis
      by (rule that [of b "taken D k (bcache s b)"])
        (use bget_eq [OF c l assms(2)] Some b in \<open>auto simp: bget_choice_def buf_at_def taken_def\<close>)
  next
    case None
    then have no: "\<not> buf_at D s b' k" for b'
      using head by (auto simp: buf_at_def find_None_iff)
    then have "\<not> 0 < r k" using c unfolding cache_def by blast
    then obtain b0 where "b0 < NBUF" "b_refcnt (bcache s b0) = 0"
      using free_buffer [OF c] assms(3) by auto
    then have "find (\<lambda>b. b_refcnt (bcache s b) = 0) (rev xs) \<noteq> None"
      using head by (auto simp: find_None_iff)
    then obtain b where fb: "find (\<lambda>b. b_refcnt (bcache s b) = 0) (rev xs) = Some b" by auto
    from find_Some_set [OF fb] have b: "b < NBUF" "b_refcnt (bcache s b) = 0" using head by auto
    show ?thesis
      by (rule that [of b "taken D k (bcache s b)"])
        (use bget_eq [OF c l assms(2)] None fb b no [of b] no in \<open>auto simp: bget_choice_def buf_at_def taken_def\<close>)
  qed
qed

text \<open>The parts of the invariant, as rules.\<close>

lemma cacheD:
  assumes "cache p D r h s"
  shows cache_quiet: "quiet p s"
    and cache_dev0: "D \<noteq> 0"
    and cache_lru: "\<exists>xs. lru (bcache s) xs"
    and cache_dev: "b < NBUF \<Longrightarrow> b_dev (bcache s b) = 0 \<or> b_dev (bcache s b) = D"
    and cache_uniq: "buf_at D s b k \<Longrightarrow> buf_at D s b' k \<Longrightarrow> b = b'"
    and cache_ref: "buf_at D s b k \<Longrightarrow> b_refcnt (bcache s b) = int (r k)"
    and cache_ref0: "b < NBUF \<Longrightarrow> b_dev (bcache s b) \<noteq> D \<Longrightarrow> b_refcnt (bcache s b) = 0"
    and cache_ex: "0 < r k \<Longrightarrow> \<exists>b. buf_at D s b k \<and> b_valid (bcache s b)"
    and cache_held: "buf_at D s b k \<Longrightarrow> k \<in> h \<Longrightarrow> sleeplocks s (SlBuf b) = held_by (pid (procs s p))"
    and cache_free: "b < NBUF \<Longrightarrow> \<not> (b_dev (bcache s b) = D \<and> b_blockno (bcache s b) \<in> h) \<Longrightarrow> \<not> sl_locked (sleeplocks s (SlBuf b))"
    and cache_pos: "k \<in> h \<Longrightarrow> 0 < r k"
    and cache_len: "buf_at D s b k \<Longrightarrow> b_valid (bcache s b) \<Longrightarrow> length (b_data (bcache s b)) = BSIZE"
    and cache_clean: "buf_at D s b k \<Longrightarrow> b_valid (bcache s b) \<Longrightarrow> r k = 0 \<Longrightarrow> b_data (bcache s b) = disk s k"
    and cache_disk: "length (disk s k) = BSIZE"
  subgoal using assms by (simp add: cache_def)
  subgoal using assms by (simp add: cache_def)
  subgoal using assms by (simp add: cache_def)
  subgoal using assms by (simp add: cache_def)
  subgoal using assms unfolding cache_def by blast
  subgoal using assms by (simp add: cache_def buf_at_def)
  subgoal using assms by (simp add: cache_def)
  subgoal using assms by (simp add: cache_def)
  subgoal using assms by (simp add: cache_def buf_at_def)
  subgoal using assms by (simp add: cache_def)
  subgoal using assms by (simp add: cache_def)
  subgoal using assms unfolding cache_def by blast
  subgoal using assms unfolding cache_def by blast
  subgoal using assms by (simp add: cache_def)
  done

lemma cacheI:
  assumes "quiet p s" and "D \<noteq> 0" and "lru (bcache s) xs"
    and "\<And>b. b < NBUF \<Longrightarrow> b_dev (bcache s b) = 0 \<or> b_dev (bcache s b) = D"
    and "\<And>b b' k. buf_at D s b k \<Longrightarrow> buf_at D s b' k \<Longrightarrow> b = b'"
    and "\<And>b. b < NBUF \<Longrightarrow> b_refcnt (bcache s b) = (if b_dev (bcache s b) = D then int (r (b_blockno (bcache s b))) else 0)"
    and "\<And>k. 0 < r k \<Longrightarrow> \<exists>b. buf_at D s b k \<and> b_valid (bcache s b)"
    and "\<And>b. b < NBUF \<Longrightarrow> if b_dev (bcache s b) = D \<and> b_blockno (bcache s b) \<in> h
        then sleeplocks s (SlBuf b) = held_by (pid (procs s p)) else \<not> sl_locked (sleeplocks s (SlBuf b))"
    and "\<And>k. k \<in> h \<Longrightarrow> 0 < r k"
    and "\<And>b k. buf_at D s b k \<Longrightarrow> b_valid (bcache s b) \<Longrightarrow>
        length (b_data (bcache s b)) = BSIZE \<and> (r k = 0 \<longrightarrow> b_data (bcache s b) = disk s k)"
    and "\<And>k. length (disk s k) = BSIZE"
  shows "cache p D r h s"
  unfolding cache_def
proof (intro conjI allI impI ballI)
  show "\<exists>xs. lru (bcache s) xs" using assms(3) by blast
qed (use assms in \<open>blast+\<close>)

lemma lru_links:
  assumes "\<And>b. b_next (bc' b) = b_next (bc b)" and "\<And>b. b_prev (bc' b) = b_prev (bc b)"
  shows "lru bc' xs = lru bc xs"
proof -
  have "nx bc' = nx bc" "pv bc' = pv bc" using assms by (auto simp: nx_def pv_def)
  then show ?thesis by (simp add: lru_def)
qed

text \<open>Replacing the content of one buffer, its reference count and the state of its lock.\<close>

definition put_buf :: "nat \<Rightarrow> buf \<Rightarrow> sleeplock \<Rightarrow> 'x bio_scheme \<Rightarrow> 'x bio_scheme" where
  "put_buf b rb sl s = s\<lparr>bcache := (bcache s)(b := rb), sleeplocks := (sleeplocks s)(SlBuf b := sl)\<rparr>"

definition fits :: "nat \<Rightarrow> uint32 \<Rightarrow> (uint32 \<Rightarrow> nat) \<Rightarrow> uint32 set \<Rightarrow> 'x bio_scheme \<Rightarrow> nat \<Rightarrow> uint32 \<Rightarrow> nat \<Rightarrow> buf \<Rightarrow> sleeplock \<Rightarrow> bool" where
  "fits p D r h s b k n rb sl \<longleftrightarrow> b < NBUF \<and> b_dev rb = D \<and> b_blockno rb = k \<and> b_valid rb \<and>
     b_next rb = b_next (bcache s b) \<and> b_prev rb = b_prev (bcache s b) \<and> b_refcnt rb = int n \<and>
     length (b_data rb) = BSIZE \<and> (n = 0 \<longrightarrow> b_data rb = disk s k) \<and>
     (\<forall>b'. b' \<noteq> b \<longrightarrow> \<not> buf_at D s b' k) \<and> (\<forall>k0. buf_at D s b k0 \<longrightarrow> k0 \<noteq> k \<longrightarrow> r k0 = 0) \<and>
     (if k \<in> h then sl = held_by (pid (procs s p)) \<and> 0 < n else \<not> sl_locked sl)"

lemma buf_at_put:
  assumes "fits p D r h s b k n rb sl"
  shows "buf_at D (put_buf b rb sl s) b' k' \<longleftrightarrow> (if b' = b then k' = k else buf_at D s b' k')"
  using assms by (auto simp: buf_at_def put_buf_def fits_def)

lemma cache_put:
  assumes c: "cache p D r h0 s" and f: "fits p D r h s b k n rb sl" and h: "h - {k} = h0 - {k}"
  shows "cache p D (r(k := n)) h (put_buf b rb sl s)"
proof -
  let ?s = "put_buf b rb sl s"
  note at = buf_at_put [OF f]
  have s: "bcache ?s = (bcache s)(b := rb)" "disk ?s = disk s" "procs ?s = procs s"
    "sleeplocks ?s = (sleeplocks s)(SlBuf b := sl)" "quiet p ?s = quiet p s"
    by (simp_all add: put_buf_def)
  from c obtain xs where "lru (bcache s) xs" by (metis cache_lru)
  then have l: "lru (bcache ?s) xs"
    using f by (subst lru_links [where bc = "bcache s"]) (auto simp: s fits_def)
  have u: "b' = b''" if "buf_at D ?s b' k'" "buf_at D ?s b'' k'" for b' b'' k'
    using that cache_uniq [OF c] f by (auto simp: at fits_def split: if_splits)
  have d: "b_dev (bcache ?s b') = 0 \<or> b_dev (bcache ?s b') = D" if "b' < NBUF" for b'
    using that cache_dev [OF c] f by (auto simp: s fits_def)
  have rf: "b_refcnt (bcache ?s b') = (if b_dev (bcache ?s b') = D then int ((r(k := n)) (b_blockno (bcache ?s b'))) else 0)"
    if "b' < NBUF" for b'
  proof (cases "b' = b")
    case True
    then show ?thesis using f by (simp add: s fits_def)
  next
    case False
    then have "\<not> buf_at D s b' k" using f by (simp add: fits_def)
    then show ?thesis
      using False that cache_ref [OF c, of b'] cache_ref0 [OF c, of b'] by (auto simp: s buf_at_def)
  qed
  have ex: "\<exists>b'. buf_at D ?s b' k' \<and> b_valid (bcache ?s b')" if "0 < (r(k := n)) k'" for k'
  proof (cases "k' = k")
    case True
    then show ?thesis using f at by (metis (no_types, lifting) s(1) fun_upd_same fits_def)
  next
    case False
    with that obtain b' where b': "buf_at D s b' k'" "b_valid (bcache s b')" "0 < r k'"
      using cache_ex [OF c] by auto
    then have "b' \<noteq> b" using f False by (auto simp: fits_def)
    with b' show ?thesis using at by (auto simp: s)
  qed
  have hl: "if b_dev (bcache ?s b') = D \<and> b_blockno (bcache ?s b') \<in> h
      then sleeplocks ?s (SlBuf b') = held_by (pid (procs ?s p)) else \<not> sl_locked (sleeplocks ?s (SlBuf b'))"
    if "b' < NBUF" for b'
  proof (cases "b' = b")
    case True
    then show ?thesis using f by (auto simp: put_buf_def fits_def split: if_splits)
  next
    case False
    then have "\<not> buf_at D s b' k" using f by (simp add: fits_def)
    with that h have "b_dev (bcache s b') = D \<and> b_blockno (bcache s b') \<in> h \<longleftrightarrow>
        b_dev (bcache s b') = D \<and> b_blockno (bcache s b') \<in> h0"
      by (auto simp: buf_at_def)
    then show ?thesis
      using False that cache_held [OF c, of b'] cache_free [OF c, of b'] by (auto simp: s buf_at_def)
  qed
  have ps: "0 < (r(k := n)) k'" if "k' \<in> h" for k'
    using that f h cache_pos [OF c, of k'] by (auto simp: fits_def)
  have ln: "length (b_data (bcache ?s b')) = BSIZE \<and> ((r(k := n)) k' = 0 \<longrightarrow> b_data (bcache ?s b') = disk ?s k')"
    if "buf_at D ?s b' k'" "b_valid (bcache ?s b')" for b' k'
  proof (cases "b' = b")
    case True
    then show ?thesis using that f by (simp add: at s fits_def)
  next
    case False
    with that have "buf_at D s b' k'" "b_valid (bcache s b')" by (auto simp: at s)
    moreover from this False f have "k' \<noteq> k" by (auto simp: fits_def)
    ultimately show ?thesis
      using False cache_len [OF c, of b' k'] cache_clean [OF c, of b' k'] by (auto simp: s)
  qed
  show ?thesis
    by (rule cacheI [OF _ _ l d u rf ex hl ps ln])
      (use cache_quiet [OF c] cache_dev0 [OF c] cache_disk [OF c] s(2,5) in simp_all)
qed

lemma view_put:
  assumes c: "cache p D r h0 s" and f: "fits p D r h s b k n rb sl" and h: "h - {k} = h0 - {k}"
  shows "view D (put_buf b rb sl s) = (view D s)(k := b_data rb)"
proof
  fix k'
  let ?s = "put_buf b rb sl s"
  note c' = cache_put [OF c f h] and at = buf_at_put [OF f]
  have s: "bcache ?s = (bcache s)(b := rb)" "disk ?s = disk s" by (simp_all add: put_buf_def)
  show "view D ?s k' = ((view D s)(k := b_data rb)) k'"
  proof (cases "k' = k")
    case True
    then show ?thesis
      using view_buf [OF c', of b k] f at by (simp add: s fits_def)
  next
    case False
    show ?thesis
    proof (cases "\<exists>b'. b' \<noteq> b \<and> buf_at D s b' k' \<and> b_valid (bcache s b')")
      case True
      then obtain b' where b': "b' \<noteq> b" "buf_at D s b' k'" "b_valid (bcache s b')" by blast
      then show ?thesis
        using view_buf [OF c', of b' k'] view_buf [OF c, of b' k'] at False by (simp add: s)
    next
      case no: False
      have "view D ?s k' = disk ?s k'"
        by (rule view_disk) (use no False at in \<open>auto simp: s split: if_splits\<close>)
      moreover have "view D s k' = disk s k'"
      proof (cases "buf_at D s b k'")
        case True
        then show ?thesis using f False view_clean [OF c] by (auto simp: fits_def)
      next
        case False
        with no show ?thesis by (intro view_disk) auto
      qed
      ultimately show ?thesis using False s by simp
    qed
  qed
qed

definition keeps_bufs :: "uint32 \<Rightarrow> (uint32 \<Rightarrow> nat) \<Rightarrow> 'x bio_scheme \<Rightarrow> 'x bio_scheme \<Rightarrow> bool" where
  "keeps_bufs D r s s' \<longleftrightarrow> (\<forall>b k. 0 < r k \<longrightarrow> buf_at D s b k \<longrightarrow> buf_at D s' b k)"

lemma keeps_bufsD: "keeps_bufs D r s s' \<Longrightarrow> 0 < r k \<Longrightarrow> buf_at D s b k \<Longrightarrow> buf_at D s' b k"
  unfolding keeps_bufs_def by blast

lemma keeps_bufs_put:
  assumes "fits p D r h s b k n rb sl"
  shows "keeps_bufs D r s (put_buf b rb sl s)"
  using assms unfolding keeps_bufs_def buf_at_put [OF assms] by (auto simp: fits_def)

lemma bframe_put: "bframe s (put_buf b rb sl s)"
  by (rule bframeI [where ps = "procs s" and sl = "(sleeplocks s)(SlBuf b := sl)" and bc = "(bcache s)(b := rb)"
        and d = "disk s" and tr = "dtrace s"]) (simp_all add: put_buf_def)

lemma put_buf_simps [simp]:
  "disk (put_buf b rb sl s) = disk s" "dtrace (put_buf b rb sl s) = dtrace s"
  "procs (put_buf b rb sl s) = procs s" "bcache (put_buf b rb sl s) = (bcache s)(b := rb)"
  "sleeplocks (put_buf b rb sl s) = (sleeplocks s)(SlBuf b := sl)"
  by (simp_all add: put_buf_def)

lemma bread_ok:
  assumes c: "cache p D r h s" and "k \<notin> h" and "0 < r k \<or> card {k. 0 < r k} < NBUF"
  obtains b s' where "bread D k s = Ok (b, s')" "cache p D (r(k := Suc (r k))) (insert k h) s'" "buf_at D s' b k"
    "view D s' = view D s" "disk s' = disk s" "dtrace s' = dtrace s" "bframe s s'" "keeps_bufs D r s s'"
proof -
  let ?sl = "held_by (pid (procs s p))"
  obtain b rb where g: "bget D k s = Ok (b, s\<lparr>bcache := (bcache s)(b := rb), sleeplocks := (sleeplocks s)(SlBuf b := ?sl)\<rparr>)"
    and b: "b < NBUF"
    and rb: "buf_at D s b k \<and> rb = (bcache s b)\<lparr>b_refcnt := b_refcnt (bcache s b) + 1\<rparr> \<or>
     (\<forall>b'. \<not> buf_at D s b' k) \<and> b_refcnt (bcache s b) = 0 \<and>
       rb = (bcache s b)\<lparr>b_dev := D, b_blockno := k, b_valid := False, b_refcnt := 1\<rparr>"
    by (rule run_bget [OF assms])
  define rb' where "rb' = (if b_valid rb then rb else rb\<lparr>b_data := disk s k, b_valid := True\<rparr>)"
  have kb: "b_dev rb = D" "b_blockno rb = k"
    using rb by (auto simp: buf_at_def)
  have run: "bread D k s = Ok (b, put_buf b rb' ?sl s)"
    using g kb by (simp add: bread_def run_bnd run_sq get_buf_def upd_buf_def disk_rw_def rb'_def put_buf_def)
  have f: "fits p D r (insert k h) s b k (Suc (r k)) rb' ?sl"
    using rb
  proof
    assume at: "buf_at D s b k \<and> rb = (bcache s b)\<lparr>b_refcnt := b_refcnt (bcache s b) + 1\<rparr>"
    then have "b_refcnt rb = int (Suc (r k))" using cache_ref [OF c] by auto
    moreover have "length (b_data rb') = BSIZE"
      using at cache_len [OF c, of b k] cache_disk [OF c] by (auto simp: rb'_def)
    moreover have "\<not> buf_at D s b' k" if "b' \<noteq> b" for b'
      using at cache_uniq [OF c] that by blast
    moreover have "k0 = k" if "buf_at D s b k0" for k0
      using at that by (auto simp: buf_at_def)
    ultimately show ?thesis
      using at b kb by (auto simp: fits_def rb'_def)
  next
    assume no: "(\<forall>b'. \<not> buf_at D s b' k) \<and> b_refcnt (bcache s b) = 0 \<and>
       rb = (bcache s b)\<lparr>b_dev := D, b_blockno := k, b_valid := False, b_refcnt := 1\<rparr>"
    then have "r k = 0" using cache_ex [OF c, of k] by fastforce
    moreover have "r k0 = 0" if "buf_at D s b k0" for k0
      using no cache_ref [OF c that] by simp
    ultimately show ?thesis
      using no b cache_disk [OF c] by (auto simp: fits_def rb'_def)
  qed
  have h: "insert k h - {k} = h - {k}" by auto
  have data: "b_data rb' = view D s k"
    using rb
  proof
    assume at: "buf_at D s b k \<and> rb = (bcache s b)\<lparr>b_refcnt := b_refcnt (bcache s b) + 1\<rparr>"
    show ?thesis
    proof (cases "b_valid (bcache s b)")
      case True
      with at view_buf [OF c, of b k] show ?thesis by (simp add: rb'_def)
    next
      case False
      with at cache_uniq [OF c, of b k] have "\<not> b_valid (bcache s b')" if "buf_at D s b' k" for b'
        using that by metis
      from view_disk [of D s k, OF this] False at show ?thesis by (simp add: rb'_def)
    qed
  next
    assume "(\<forall>b'. \<not> buf_at D s b' k) \<and> b_refcnt (bcache s b) = 0 \<and>
       rb = (bcache s b)\<lparr>b_dev := D, b_blockno := k, b_valid := False, b_refcnt := 1\<rparr>"
    then show ?thesis using view_disk [of D s k] by (simp add: rb'_def)
  qed
  show ?thesis
  proof (rule that)
    show "cache p D (r(k := Suc (r k))) (insert k h) (put_buf b rb' ?sl s)"
      by (rule cache_put [OF c f h])
    show "view D (put_buf b rb' ?sl s) = view D s"
      unfolding view_put [OF c f h] using data by auto
    show "buf_at D (put_buf b rb' ?sl s) b k"
      unfolding buf_at_put [OF f] by simp
  qed (use run bframe_put keeps_bufs_put [OF f] in simp_all)
qed

section \<open>Changing, writing and pinning a locked buffer\<close>

lemma fits_same:
  assumes c: "cache p D r h s" and "buf_at D s b k" and "0 < r k" and "rb = (bcache s b)\<lparr>b_refcnt := int n, b_data := x\<rparr>"
    and "length x = BSIZE" and "n = 0 \<longrightarrow> x = disk s k" and "k \<in> h' \<Longrightarrow> 0 < n"
    and "if k \<in> h' then sl = held_by (pid (procs s p)) else \<not> sl_locked sl"
  shows "fits p D r h' s b k n rb sl"
proof -
  have "b_valid (bcache s b)" by (rule buf_valid [OF c assms(2,3)])
  moreover have "\<not> buf_at D s b' k" if "b' \<noteq> b" for b'
    using assms(2) cache_uniq [OF c] that by blast
  moreover have "k0 = k" if "buf_at D s b k0" for k0
    using assms(2) that by (auto simp: buf_at_def)
  ultimately show ?thesis
    using assms by (auto simp: fits_def buf_at_def)
qed

lemma set_data_ok:
  assumes c: "cache p D r h s" and at: "buf_at D s b k" and "k \<in> h" and "length x = BSIZE"
  defines "s' \<equiv> s\<lparr>bcache := (bcache s)(b := (bcache s b)\<lparr>b_data := x\<rparr>)\<rparr>"
  shows "cache p D r h s'" "view D s' = (view D s)(k := x)" "keeps_bufs D r s s'" "bframe s s'"
    "disk s' = disk s" "dtrace s' = dtrace s"
proof -
  have pos: "0 < r k" by (rule cache_pos [OF c assms(3)])
  let ?rb = "(bcache s b)\<lparr>b_data := x\<rparr>" and ?sl = "sleeplocks s (SlBuf b)"
  have rb: "?rb = (bcache s b)\<lparr>b_refcnt := int (r k), b_data := x\<rparr>"
    using cache_ref [OF c at] by simp
  have f: "fits p D r h s b k (r k) ?rb ?sl"
    by (rule fits_same [OF c at pos rb]) (use assms pos cache_held [OF c at] in auto)
  have s': "s' = put_buf b ?rb ?sl s"
    by (simp add: s'_def put_buf_def)
  show "cache p D r h s'"
    using cache_put [OF c f refl] by (simp add: s')
  show "view D s' = (view D s)(k := x)"
    using view_put [OF c f refl] by (simp add: s')
  show "keeps_bufs D r s s'"
    using keeps_bufs_put [OF f] by (simp add: s')
  show "bframe s s'" unfolding s' by (rule bframe_put)
qed (simp_all add: s'_def)

lemma bframe_disk: "bframe s (s\<lparr>disk := d, dtrace := tr\<rparr>)"
  by (rule bframeI [where ps = "procs s" and sl = "sleeplocks s" and bc = "bcache s"]) simp_all

lemma bwrite_ok:
  assumes c: "cache p D r h s" and at: "buf_at D s b k" and h: "k \<in> h"
  defines "s' \<equiv> s\<lparr>disk := (disk s)(k := view D s k), dtrace := dtrace s @ [(k, view D s k)]\<rparr>"
  shows "bwrite b s = Ok ((), s')" "cache p D r h s'" "view D s' = view D s" "keeps_bufs D r s s'" "bframe s s'"
    "disk s' = (disk s)(k := view D s k)" "dtrace s' = dtrace s @ [(k, view D s k)]"
proof -
  have pos: "0 < r k" by (rule cache_pos [OF c h])
  have bk: "b_blockno (bcache s b) = k" "b < NBUF" using at by (simp_all add: buf_at_def)
  have "holdingsleep (SlBuf b) s = Ok (True, s)"
    using run_holdingsleep [OF cache_quiet [OF c], of "SlBuf b"] cache_held [OF c at h] by (simp add: held_by_def)
  then show "bwrite b s = Ok ((), s')"
    using bk buf_data [OF c at pos] by (simp add: bwrite_def run_bnd disk_rw_def get_buf_def s'_def)
  have s': "bcache s' = bcache s" "procs s' = procs s" "sleeplocks s' = sleeplocks s" "buf_at D s' = buf_at D s" "quiet p s' = quiet p s"
    "disk s' = (disk s)(k := view D s k)"
    by (auto simp: s'_def buf_at_def fun_eq_iff)
  obtain xs where l: "lru (bcache s') xs" using cache_lru [OF c] s'(1) by auto
  show "cache p D r h s'"
  proof (rule cacheI [OF _ _ l])
    show "b_refcnt (bcache s' b') = (if b_dev (bcache s' b') = D then int (r (b_blockno (bcache s' b'))) else 0)" if "b' < NBUF" for b'
      using that cache_ref [OF c, of b' "b_blockno (bcache s b')"] cache_ref0 [OF c, of b'] by (auto simp: s' buf_at_def)
    show "if b_dev (bcache s' b') = D \<and> b_blockno (bcache s' b') \<in> h
        then sleeplocks s' (SlBuf b') = held_by (pid (procs s' p)) else \<not> sl_locked (sleeplocks s' (SlBuf b'))" if "b' < NBUF" for b'
      using that cache_held [OF c, of b'] cache_free [OF c, of b'] by (auto simp: s' buf_at_def)
    show "length (b_data (bcache s' b')) = BSIZE \<and> (r k' = 0 \<longrightarrow> b_data (bcache s' b') = disk s' k')"
      if "buf_at D s' b' k'" "b_valid (bcache s' b')" for b' k'
      using that pos cache_len [OF c, of b' k'] cache_clean [OF c, of b' k'] by (auto simp: s')
    show "length (disk s' k') = BSIZE" for k'
      using cache_disk [OF c] length_view [OF c] by (simp add: s')
  qed (use cache_quiet [OF c] cache_dev0 [OF c] cache_dev [OF c] cache_uniq [OF c] cache_ex [OF c] cache_pos [OF c] in \<open>auto simp: s'\<close>)
  obtain b' where b': "buf_at D s b' k" "b_valid (bcache s b')" using cache_ex [OF c pos] by blast
  show "view D s' = view D s"
  proof
    fix k'
    show "view D s' k' = view D s k'"
    proof (cases "k' = k")
      case True
      have "find (\<lambda>b. buf_at D s b k \<and> b_valid (bcache s b)) [0..<NBUF] \<noteq> None"
        using b' by (auto simp: find_None_iff buf_at_def)
      with True show ?thesis by (auto simp: view_def s')
    next
      case False
      then show ?thesis by (simp add: view_def s' cong: option.case_cong)
    qed
  qed
  show "keeps_bufs D r s s'" by (simp add: keeps_bufs_def s')
  show "bframe s s'" unfolding s'_def by (rule bframe_disk)
qed (simp_all add: s'_def)

lemma run_upd_section:
  assumes "settled s" and "locks s LkBcache = free_lock"
  shows "sq (acquire LkBcache) (sq (upd_buf b f) (release LkBcache)) s = Ok ((), s\<lparr>bcache := (bcache s)(b := f (bcache s b))\<rparr>)"
proof -
  let ?u = "(lockd LkBcache s)\<lparr>bcache := (bcache s)(b := f (bcache s b))\<rparr>"
  have "bcache (lockd LkBcache s) = bcache s" by (simp add: lockd_def)
  moreover have "release LkBcache ?u = Ok ((), ?u\<lparr>cpus := cpus s, harts := harts s, locks := locks s\<rparr>)"
    by (rule run_release) (use assms in auto)
  moreover have "?u\<lparr>cpus := cpus s, harts := harts s, locks := locks s\<rparr> = s\<lparr>bcache := (bcache s)(b := f (bcache s b))\<rparr>"
    by (simp add: lockd_def)
  ultimately show ?thesis
    using run_acquire [OF assms(2)] by (simp add: run_sq upd_buf_def)
qed

text \<open>Changing the reference count of a block that is referenced.\<close>

lemma set_ref_ok:
  assumes c: "cache p D r h s" and at: "buf_at D s b k" and pos: "0 < r k"
    and "n = 0 \<longrightarrow> view D s k = disk s k \<and> k \<notin> h"
  defines "s' \<equiv> s\<lparr>bcache := (bcache s)(b := (bcache s b)\<lparr>b_refcnt := int n\<rparr>)\<rparr>"
  shows "cache p D (r(k := n)) h s'" "view D s' = view D s" "keeps_bufs D r s s'" "bframe s s'"
    "disk s' = disk s" "dtrace s' = dtrace s"
proof -
  let ?rb = "(bcache s b)\<lparr>b_refcnt := int n\<rparr>" and ?sl = "sleeplocks s (SlBuf b)"
  have d: "b_data (bcache s b) = view D s k" by (rule buf_data [OF c at pos])
  have rb: "?rb = (bcache s b)\<lparr>b_refcnt := int n, b_data := view D s k\<rparr>"
    using d [symmetric] by simp
  have "\<not> sl_locked ?sl" if "k \<notin> h"
    using cache_free [OF c, of b] at that by (auto simp: buf_at_def)
  then have f: "fits p D r h s b k n ?rb ?sl"
    using assms(4) cache_held [OF c at]
    by (intro fits_same [OF c at pos rb]) (auto simp: length_view [OF c])
  have s': "s' = put_buf b ?rb ?sl s"
    by (simp add: s'_def put_buf_def)
  show "cache p D (r(k := n)) h s'"
    using cache_put [OF c f refl] by (simp add: s')
  show "view D s' = view D s"
    using view_put [OF c f refl] d by (auto simp: s')
  show "keeps_bufs D r s s'"
    using keeps_bufs_put [OF f] by (simp add: s')
  show "bframe s s'" unfolding s' by (rule bframe_put)
qed (simp_all add: s'_def)

lemma bpin_ok:
  assumes c: "cache p D r h s" and at: "buf_at D s b k" and pos: "0 < r k"
  obtains s' where "bpin b s = Ok ((), s')" "cache p D (r(k := Suc (r k))) h s'" "view D s' = view D s"
    "keeps_bufs D r s s'" "bframe s s'" "disk s' = disk s" "dtrace s' = dtrace s"
proof -
  have "bpin b s = Ok ((), s\<lparr>bcache := (bcache s)(b := (bcache s b)\<lparr>b_refcnt := int (Suc (r k))\<rparr>)\<rparr>)"
    unfolding bpin_def using run_upd_section [OF quietD(1,2) [OF cache_quiet [OF c]], of b] cache_ref [OF c at] by (simp add: add.commute)
  then show ?thesis
    by (rule that) (rule set_ref_ok [OF c at pos]; simp)+
qed

lemma bunpin_ok:
  assumes c: "cache p D r h s" and at: "buf_at D s b k" and pos: "0 < r k"
    and "r k = 1 \<longrightarrow> view D s k = disk s k \<and> k \<notin> h"
  obtains s' where "bunpin b s = Ok ((), s')" "cache p D (r(k := r k - 1)) h s'" "view D s' = view D s"
    "keeps_bufs D r s s'" "bframe s s'" "disk s' = disk s" "dtrace s' = dtrace s"
proof -
  have n: "r k - 1 = 0 \<longrightarrow> view D s k = disk s k \<and> k \<notin> h" using assms(4) pos by auto
  have "bunpin b s = Ok ((), s\<lparr>bcache := (bcache s)(b := (bcache s b)\<lparr>b_refcnt := int (r k - 1)\<rparr>)\<rparr>)"
    unfolding bunpin_def using run_upd_section [OF quietD(1,2) [OF cache_quiet [OF c]], of b] cache_ref [OF c at] pos
    by (simp add: of_nat_diff)
  then show ?thesis
    by (rule that) (rule set_ref_ok [OF c at pos n])+
qed

section \<open>brelse and the order of the buffers\<close>

text \<open>The effect of \<open>link_front\<close> on the buffers, and that of taking \<open>b\<close> out of the list.\<close>

definition linked :: "nat \<Rightarrow> (nat \<Rightarrow> buf) \<Rightarrow> nat \<Rightarrow> buf" where
  "linked b bc = (let h = b_next (bc bhead); bc1 = bc(b := (bc b)\<lparr>b_next := h, b_prev := bhead\<rparr>);
     bc2 = bc1(h := (bc1 h)\<lparr>b_prev := b\<rparr>) in bc2(bhead := (bc2 bhead)\<lparr>b_next := b\<rparr>))"

definition unlinked :: "nat \<Rightarrow> (nat \<Rightarrow> buf) \<Rightarrow> nat \<Rightarrow> buf" where
  "unlinked b bc = (let bc1 = bc(b_next (bc b) := (bc (b_next (bc b)))\<lparr>b_prev := b_prev (bc b)\<rparr>) in
     bc1(b_prev (bc1 b) := (bc1 (b_prev (bc1 b)))\<lparr>b_next := b_next (bc1 b)\<rparr>))"

lemma run_link_front: "link_front b s = Ok ((), s\<lparr>bcache := linked b (bcache s)\<rparr>)"
  by (simp add: link_front_def linked_def run_bnd run_sq get_buf_def upd_buf_def Let_def)

text \<open>The links aside, a buffer is left as it was.\<close>

definition bcont :: "buf \<Rightarrow> buf" where
  "bcont rb = rb\<lparr>b_next := 0, b_prev := 0\<rparr>"

lemma bcont_linked: "bcont (linked b bc x) = bcont (bc x)"
  by (simp add: linked_def bcont_def Let_def)

lemma bcont_unlinked: "bcont (unlinked b bc x) = bcont (bc x)"
  by (simp add: unlinked_def bcont_def Let_def)

lemma bcontD:
  assumes "bcont rb = bcont rb'"
  shows "b_valid rb = b_valid rb'" "b_dev rb = b_dev rb'" "b_blockno rb = b_blockno rb'" "b_refcnt rb = b_refcnt rb'"
    "b_data rb = b_data rb'"
  using assms by (cases rb, cases rb', simp add: bcont_def)+

lemma dll_linked:
  assumes "dll (nx bc) (pv bc) xs" and "b \<notin> set xs" and "b \<noteq> bhead"
  shows "dll (nx (linked b bc)) (pv (linked b bc)) (b # xs)"
proof -
  have "nx (linked b bc) = (nx bc)(b := nx bc bhead, bhead := b)"
    using assms(3) by (auto simp: nx_def linked_def Let_def fun_eq_iff)
  moreover have "pv (linked b bc) = ((pv bc)(b := bhead))(nx bc bhead := b)"
    using assms(3) by (auto simp: pv_def nx_def linked_def Let_def fun_eq_iff)
  ultimately show ?thesis using dll_front [OF assms] by simp
qed

lemma dll_unlinked:
  assumes "dll (nx bc) (pv bc) (ys @ b # zs)"
  shows "dll (nx (unlinked b bc)) (pv (unlinked b bc)) (ys @ zs)"
proof -
  have "nx bc b \<noteq> b"
    using assms by (cases zs) (auto simp: dll_def seg_append)
  then have n: "b_next (bc b) \<noteq> b" by (simp add: nx_def)
  have "nx (unlinked b bc) = (nx bc)(pv bc b := nx bc b)"
    using n by (auto simp: nx_def pv_def unlinked_def Let_def fun_eq_iff)
  moreover have "pv (unlinked b bc) = (pv bc)(nx bc b := pv bc b)"
    using n by (auto simp: nx_def pv_def unlinked_def Let_def fun_eq_iff)
  ultimately show ?thesis using dll_remove [OF assms] by simp
qed

lemma lru_front:
  assumes "lru bc xs" and "b < NBUF"
  obtains ys zs where "xs = ys @ b # zs" "lru (linked b (unlinked b bc)) (b # ys @ zs)"
proof -
  from assms obtain ys zs where xs: "xs = ys @ b # zs"
    by (metis lru_def lessThan_iff split_list)
  with assms have d: "dll (nx bc) (pv bc) (ys @ b # zs)" by (simp add: lru_def)
  then have "b \<notin> set (ys @ zs)" "b \<noteq> bhead" by (auto simp: dll_def)
  with dll_linked [OF dll_unlinked [OF d]] have "dll (nx (linked b (unlinked b bc))) (pv (linked b (unlinked b bc))) (b # ys @ zs)"
    by blast
  with assms xs have "lru (linked b (unlinked b bc)) (b # ys @ zs)" by (auto simp: lru_def)
  with xs that show ?thesis by blast
qed

text \<open>The invariant does not depend on the order of the list, nor on the state of sleeping processes.\<close>

lemma cache_relink:
  assumes c: "cache p D r h s" and l: "lru bc xs" and e: "\<And>b. bcont (bc b) = bcont (bcache s b)"
  shows "cache p D r h (s\<lparr>bcache := bc\<rparr>)" "view D (s\<lparr>bcache := bc\<rparr>) = view D s" "buf_at D (s\<lparr>bcache := bc\<rparr>) = buf_at D s"
proof -
  let ?s = "s\<lparr>bcache := bc\<rparr>"
  note e' = bcontD [OF e]
  have at: "buf_at D ?s = buf_at D s" by (simp add: buf_at_def e' fun_eq_iff)
  show "buf_at D ?s = buf_at D s" by (rule at)
  show "view D ?s = view D s" by (simp add: view_def at e' fun_eq_iff split: option.split)
  show "cache p D r h ?s"
  proof (rule cacheI [where xs = xs])
    show "b_refcnt (bcache ?s b) = (if b_dev (bcache ?s b) = D then int (r (b_blockno (bcache ?s b))) else 0)" if "b < NBUF" for b
      using that cache_ref [OF c, of b "b_blockno (bcache s b)"] cache_ref0 [OF c, of b] by (auto simp: e' buf_at_def)
    show "if b_dev (bcache ?s b) = D \<and> b_blockno (bcache ?s b) \<in> h
        then sleeplocks ?s (SlBuf b) = held_by (pid (procs ?s p)) else \<not> sl_locked (sleeplocks ?s (SlBuf b))" if "b < NBUF" for b
      using that cache_held [OF c, of b] cache_free [OF c, of b] by (auto simp: e' buf_at_def)
    show "length (b_data (bcache ?s b)) = BSIZE \<and> (r k = 0 \<longrightarrow> b_data (bcache ?s b) = disk ?s k)"
      if "buf_at D ?s b k" "b_valid (bcache ?s b)" for b k
      using that cache_len [OF c, of b k] cache_clean [OF c, of b k] by (simp add: at e')
    show "b = b'" if "buf_at D ?s b k" "buf_at D ?s b' k" for b b' k
      using that cache_uniq [OF c] by (simp add: at)
  qed (use l cache_quiet [OF c] cache_dev0 [OF c] cache_dev [OF c] cache_ex [OF c] cache_pos [OF c] cache_disk [OF c]
        in \<open>simp_all add: at e'\<close>)
qed

lemma woken_simps [simp]:
  "bcache (woken ch s) = bcache s" "disk (woken ch s) = disk s" "dtrace (woken ch s) = dtrace s"
  "sleeplocks (woken ch s) = sleeplocks s" "buf_at D (woken ch s) = buf_at D s"
  by (simp_all add: woken_def buf_at_def fun_eq_iff)

lemma pid_woken [simp]: "pid (procs (woken ch s) p) = pid (procs s p)"
  by (simp add: woken_def wake_all_def wake_def)

lemma cache_woken:
  assumes c: "cache p D r h s"
  shows "cache p D r h (woken ch s)"
proof -
  obtain xs where l: "lru (bcache s) xs" using cache_lru [OF c] by blast
  let ?s = "woken ch s"
  show ?thesis
  proof (rule cacheI [where xs = xs])
    show "b_refcnt (bcache ?s b) = (if b_dev (bcache ?s b) = D then int (r (b_blockno (bcache ?s b))) else 0)" if "b < NBUF" for b
      using that cache_ref [OF c, of b "b_blockno (bcache s b)"] cache_ref0 [OF c, of b] by (auto simp: buf_at_def)
    show "if b_dev (bcache ?s b) = D \<and> b_blockno (bcache ?s b) \<in> h
        then sleeplocks ?s (SlBuf b) = held_by (pid (procs ?s p)) else \<not> sl_locked (sleeplocks ?s (SlBuf b))" if "b < NBUF" for b
      using that cache_held [OF c, of b] cache_free [OF c, of b] by (auto simp: buf_at_def)
    show "length (b_data (bcache ?s b)) = BSIZE \<and> (r k = 0 \<longrightarrow> b_data (bcache ?s b) = disk ?s k)"
      if "buf_at D ?s b k" "b_valid (bcache ?s b)" for b k
      using that cache_len [OF c, of b k] cache_clean [OF c, of b k] by simp
    show "b = b'" if "buf_at D ?s b k" "buf_at D ?s b' k" for b b' k
      using that cache_uniq [OF c] by simp
  qed (use l cache_quiet [OF c] cache_dev0 [OF c] cache_dev [OF c] cache_ex [OF c] cache_pos [OF c] cache_disk [OF c]
        in simp_all)
qed

lemma view_woken [simp]: "view D (woken ch s) = view D s"
  by (simp add: view_def fun_eq_iff split: option.split)

lemma bframe_woken: "bframe s (woken ch s)"
  by (rule bframeI [where ps = "wake_all ch (cur s) (procs s)" and sl = "sleeplocks s" and bc = "bcache s" and d = "disk s" and tr = "dtrace s"])
    (simp_all add: woken_def wake_all_def wake_def)

lemma bframe_bcache: "bframe s (s\<lparr>bcache := bc\<rparr>)"
  by (rule bframeI [where ps = "procs s" and sl = "sleeplocks s" and bc = bc and d = "disk s" and tr = "dtrace s"]) simp_all

text \<open>\<open>brelse\<close> moves the buffer to the front of the list when the last reference goes.\<close>

definition released :: "nat \<Rightarrow> (nat \<Rightarrow> buf) \<Rightarrow> nat \<Rightarrow> buf" where
  "released b bc = (let bc1 = bc(b := (bc b)\<lparr>b_refcnt := b_refcnt (bc b) - 1\<rparr>) in
     if b_refcnt (bc1 b) = 0 then linked b (unlinked b bc1) else bc1)"

lemma run_relink:
  "sq (upd_buf (b_next (bcache s b)) (\<lambda>n. n\<lparr>b_prev := b_prev (bcache s b)\<rparr>)) (
   bnd (get_buf b) (\<lambda>r. sq (upd_buf (b_prev r) (\<lambda>n. n\<lparr>b_next := b_next r\<rparr>)) (link_front b))) s =
   Ok ((), s\<lparr>bcache := linked b (unlinked b (bcache s))\<rparr>)"
  by (simp add: run_bnd run_sq get_buf_def upd_buf_def run_link_front unlinked_def Let_def)

lemma run_brelse:
  assumes q: "quiet p s" and "sleeplocks s (SlBuf b) = held_by (pid (procs s p))"
  shows "brelse b s = Ok ((), woken (ChanBufLock b)
    (s\<lparr>sleeplocks := (sleeplocks s)(SlBuf b := free_sleep), bcache := released b (bcache s)\<rparr>))"
proof -
  let ?s = "woken (ChanBufLock b) (s\<lparr>sleeplocks := (sleeplocks s)(SlBuf b := free_sleep)\<rparr>)"
  let ?u = "(lockd LkBcache ?s)\<lparr>bcache := released b (bcache s)\<rparr>"
  have h: "holdingsleep (SlBuf b) s = Ok (True, s)"
    using run_holdingsleep [OF q, of "SlBuf b"] assms(2) by (simp add: held_by_def)
  have r: "releasesleep (SlBuf b) s = Ok ((), ?s)"
    using run_releasesleep [OF q, of "SlBuf b"] by simp
  have q': "quiet p ?s" using q by simp
  have a: "acquire LkBcache ?s = Ok ((), lockd LkBcache ?s)"
    by (rule run_acquire [OF quietD(2) [OF q']])
  have bcl: "bcache (lockd LkBcache ?s) = bcache s" by (simp add: lockd_def)
  have "release LkBcache ?u = Ok ((), ?u\<lparr>cpus := cpus ?s, harts := harts ?s, locks := locks ?s\<rparr>)"
    by (rule run_release [OF quietD(1) [OF q'] quietD(2) [OF q']]) simp_all
  moreover have "?u\<lparr>cpus := cpus ?s, harts := harts ?s, locks := locks ?s\<rparr> = ?s\<lparr>bcache := released b (bcache s)\<rparr>"
    by (simp add: lockd_def)
  moreover have "?s\<lparr>bcache := released b (bcache s)\<rparr> = woken (ChanBufLock b)
      (s\<lparr>sleeplocks := (sleeplocks s)(SlBuf b := free_sleep), bcache := released b (bcache s)\<rparr>)"
    by (simp add: woken_def cur_def this_cpu_def)
  ultimately have l: "release LkBcache ?u = Ok ((), woken (ChanBufLock b)
      (s\<lparr>sleeplocks := (sleeplocks s)(SlBuf b := free_sleep), bcache := released b (bcache s)\<rparr>))"
    by simp
  define bc where "bc = (bcache s)(b := (bcache s b)\<lparr>b_refcnt := b_refcnt (bcache s b) - 1\<rparr>)"
  let ?v = "(lockd LkBcache ?s)\<lparr>bcache := bc\<rparr>"
  have "released b (bcache s) = (if b_refcnt (bc b) = 0 then linked b (unlinked b bc) else bc)"
    by (simp add: released_def bc_def Let_def)
  then have body: "(if b_refcnt (bc b) = 0 then
      sq (upd_buf (b_next (bc b)) (\<lambda>n. n\<lparr>b_prev := b_prev (bc b)\<rparr>)) (
      bnd (get_buf b) (\<lambda>r. sq (upd_buf (b_prev r) (\<lambda>n. n\<lparr>b_next := b_next r\<rparr>)) (link_front b))) else ret ()) ?v = Ok ((), ?u)"
    using run_relink [of ?v b] by simp
  have upd: "upd_buf b (\<lambda>r. r\<lparr>b_refcnt := b_refcnt r - 1\<rparr>) (lockd LkBcache ?s) = Ok ((), ?v)"
    using bcl by (simp add: upd_buf_def bc_def)
  have "get_buf b ?v = Ok (bc b, ?v)" by (simp add: get_buf_def)
  then show ?thesis
    using h r a l upd body by (simp add: brelse_def run_sq run_bnd)
qed

lemma brelse_ok:
  assumes c: "cache p D r h s" and at: "buf_at D s b k" and h: "k \<in> h" and "r k = 1 \<longrightarrow> view D s k = disk s k"
  obtains s' where "brelse b s = Ok ((), s')" "cache p D (r(k := r k - 1)) (h - {k}) s'" "view D s' = view D s"
    "buf_at D s' = buf_at D s" "bframe s s'" "disk s' = disk s" "dtrace s' = dtrace s"
proof -
  have pos: "0 < r k" by (rule cache_pos [OF c h])
  let ?rb = "(bcache s b)\<lparr>b_refcnt := b_refcnt (bcache s b) - 1\<rparr>"
  have d: "b_data (bcache s b) = view D s k" by (rule buf_data [OF c at pos])
  have rb: "?rb = (bcache s b)\<lparr>b_refcnt := int (r k - 1), b_data := view D s k\<rparr>"
    using d [symmetric] cache_ref [OF c at] pos by (simp add: of_nat_diff)
  have f: "fits p D r (h - {k}) s b k (r k - 1) ?rb free_sleep"
    using assms(4) pos by (intro fits_same [OF c at pos rb]) (auto simp: length_view [OF c] free_sleep_def)
  let ?t = "put_buf b ?rb free_sleep s"
  have ct: "cache p D (r(k := r k - 1)) (h - {k}) ?t" by (rule cache_put [OF c f]) auto
  have vt: "view D ?t = view D s" using view_put [OF c f] d by auto
  have bt: "buf_at D ?t = buf_at D s"
    using at by (auto simp: buf_at_put [OF f] fun_eq_iff) (auto simp: buf_at_def)
  obtain xs where l: "lru (bcache ?t) xs" using cache_lru [OF ct] by blast
  have "\<exists>xs. lru (released b (bcache s)) xs"
  proof (cases "b_refcnt ?rb = 0")
    case True
    then have "released b (bcache s) = linked b (unlinked b (bcache ?t))" by (simp add: released_def Let_def)
    with lru_front [OF l, of b] at show ?thesis by (metis buf_at_def)
  next
    case False
    then have "released b (bcache s) = bcache ?t" by (simp add: released_def Let_def)
    with l show ?thesis by auto
  qed
  then obtain ys where ly: "lru (released b (bcache s)) ys" by blast
  have e: "bcont (released b (bcache s) x) = bcont (bcache ?t x)" for x
    by (simp add: released_def Let_def bcont_linked bcont_unlinked)
  note cr = cache_relink [OF ct ly e]
  let ?u = "?t\<lparr>bcache := released b (bcache s)\<rparr>"
  have u: "?u = s\<lparr>sleeplocks := (sleeplocks s)(SlBuf b := free_sleep), bcache := released b (bcache s)\<rparr>"
    by (simp add: put_buf_def)
  have run: "brelse b s = Ok ((), woken (ChanBufLock b) ?u)"
    unfolding u by (rule run_brelse [OF cache_quiet [OF c] cache_held [OF c at h]])
  have fr: "bframe s (woken (ChanBufLock b) ?u)"
    using bframe_trans [OF bframe_trans [OF bframe_put bframe_bcache] bframe_woken] .
  show ?thesis
    using run
  proof (rule that)
    show "cache p D (r(k := r k - 1)) (h - {k}) (woken (ChanBufLock b) ?u)"
      by (rule cache_woken [OF cr(1)])
    show "view D (woken (ChanBufLock b) ?u) = view D s" using cr(2) vt by simp
    show "buf_at D (woken (ChanBufLock b) ?u) = buf_at D s" using cr(3) bt by simp
    show "bframe s (woken (ChanBufLock b) ?u)" by (rule fr)
  qed simp_all
qed

end
