(* ===== verification/Crash.thy ===== *)
theory Crash
  imports Log Bcache
begin

text \<open>
  The log makes the block writes of a transaction atomic with respect to crashes. A crash leaves the
  disk with the effect of a prefix of the writes that were issued; \<open>recover_disk\<close> is what recovery
  makes of a disk. \<open>commit\<close> writes the log blocks, then the header, then the home blocks, then the
  empty header: after any prefix, recovery gives the old content of every block or the new content
  of every block. \<open>recover_from_log\<close> computes \<open>recover_disk\<close>, and may itself crash and be run again.
\<close>

section \<open>Writes to the disk\<close>

primrec puts :: "(uint32 \<times> uint8 list) list \<Rightarrow> disk \<Rightarrow> disk" where
  "puts [] d = d"
| "puts (w # ws) d = puts ws (d(fst w := snd w))"

lemma puts_append [simp]: "puts (xs @ ys) d = puts ys (puts xs d)"
  by (induction xs arbitrary: d) simp_all

lemma puts_other: "k \<notin> fst ` set ws \<Longrightarrow> puts ws d k = d k"
  by (induction ws arbitrary: d) auto

lemma puts_in:
  assumes "\<And>x. (k, x) \<in> set ws \<Longrightarrow> x = v" and "k \<in> fst ` set ws"
  shows "puts ws d k = v"
  using assms
proof (induction ws arbitrary: d)
  case Nil
  then show ?case by simp
next
  case (Cons w ws)
  show ?case
  proof (cases "k \<in> fst ` set ws")
    case True
    with Cons show ?thesis by simp
  next
    case False
    with Cons.prems have "fst w = k" by auto
    then have "snd w = v" using Cons.prems(1) [of "snd w"] by (metis list.set_intros(1) prod.collapse)
    with False \<open>fst w = k\<close> show ?thesis by (simp add: puts_other)
  qed
qed

section \<open>One block of the log\<close>

lemma bframe_klog: "bframe s s' \<Longrightarrow> klog s' = klog s"
  unfolding bframe_def by auto

definition copy_block :: "uint32 \<Rightarrow> uint32 \<Rightarrow> uint32 \<Rightarrow> ('x logged_scheme, unit) kmonad" where
  "copy_block D lb k = bnd (bread D lb) (\<lambda>to. bnd (bread D k) (\<lambda>from. bnd (get_buf from) (\<lambda>r.
     sq (upd_buf to (\<lambda>d. d\<lparr>b_data := b_data r\<rparr>)) (sq (bwrite to) (sq (brelse from) (brelse to))))))"

lemma copy_block_ok:
  assumes c: "cache p D r {} s" and "r lb = 0" and "0 < r k" and "card {k. 0 < r k} < NBUF"
  obtains s' where "copy_block D lb k s = Ok ((), s')" "cache p D r {} s'" "bframe s s'"
    "view D s' = (view D s)(lb := view D s k)" "disk s' = (disk s)(lb := view D s k)"
    "dtrace s' = dtrace s @ [(lb, view D s k)]"
proof -
  have ne: "lb \<noteq> k" using assms by auto
  obtain b1 s1 where 1: "bread D lb s = Ok (b1, s1)" "cache p D (r(lb := 1)) {lb} s1" "buf_at D s1 b1 lb"
    "view D s1 = view D s" "disk s1 = disk s" "dtrace s1 = dtrace s" "bframe s s1"
    by (rule bread_ok [OF c, of lb]) (use assms in auto)
  obtain b2 s2 where 2: "bread D k s1 = Ok (b2, s2)" "cache p D (r(lb := 1, k := Suc (r k))) {k, lb} s2" "buf_at D s2 b2 k"
    "view D s2 = view D s1" "disk s2 = disk s1" "dtrace s2 = dtrace s1" "bframe s1 s2" "keeps_bufs D (r(lb := 1)) s1 s2"
    by (rule bread_ok [OF 1(2), of k]) (use assms ne in auto)
  have at1: "buf_at D s2 b1 lb" by (rule keeps_bufsD [OF 2(8) _ 1(3)]) simp
  have data: "b_data (bcache s2 b2) = view D s k"
    using buf_data [OF 2(2,3)] 1(4) 2(4) by simp
  have len: "length (view D s k) = BSIZE" by (rule length_view [OF c])
  define s3 where "s3 = s2\<lparr>bcache := (bcache s2)(b1 := (bcache s2 b1)\<lparr>b_data := view D s k\<rparr>)\<rparr>"
  note 3 = set_data_ok [OF 2(2) at1 _ len, folded s3_def]
  have c3: "cache p D (r(lb := 1, k := Suc (r k))) {k, lb} s3" and v3: "view D s3 = (view D s)(lb := view D s k)"
    and k3: "keeps_bufs D (r(lb := 1, k := Suc (r k))) s2 s3" and f3: "bframe s2 s3" and d3: "disk s3 = disk s" "dtrace s3 = dtrace s"
    using 3 1 2 by auto
  have at3: "buf_at D s3 b1 lb" "buf_at D s3 b2 k"
    using keeps_bufsD [OF k3 _ at1] keeps_bufsD [OF k3 _ 2(3)] by simp_all
  define s4 where "s4 = s3\<lparr>disk := (disk s3)(lb := view D s3 lb), dtrace := dtrace s3 @ [(lb, view D s3 lb)]\<rparr>"
  note 4 = bwrite_ok [OF c3 at3(1), folded s4_def]
  have r4: "bwrite b1 s3 = Ok ((), s4)" and c4: "cache p D (r(lb := 1, k := Suc (r k))) {k, lb} s4" and v4: "view D s4 = view D s3"
    and k4: "keeps_bufs D (r(lb := 1, k := Suc (r k))) s3 s4" and f4: "bframe s3 s4"
    and d4: "disk s4 = (disk s3)(lb := view D s3 lb)" "dtrace s4 = dtrace s3 @ [(lb, view D s3 lb)]"
    using 4 by simp_all
  have at4: "buf_at D s4 b1 lb" "buf_at D s4 b2 k"
    using keeps_bufsD [OF k4 _ at3(1)] keeps_bufsD [OF k4 _ at3(2)] by simp_all
  obtain s5 where 5: "brelse b2 s4 = Ok ((), s5)"
    "cache p D (r(lb := 1, k := r k)) {lb} s5" "view D s5 = view D s4" "buf_at D s5 = buf_at D s4" "bframe s4 s5"
    "disk s5 = disk s4" "dtrace s5 = dtrace s4"
    by (rule brelse_ok [OF c4 at4(2)]) (use assms ne in \<open>auto simp: insert_Diff_if\<close>)
  obtain s6 where 6: "brelse b1 s5 = Ok ((), s6)"
    "cache p D (r(lb := 1, k := r k, lb := 0)) {} s6" "view D s6 = view D s5" "bframe s5 s6"
    "disk s6 = disk s5" "dtrace s6 = dtrace s5"
    by (rule brelse_ok [OF 5(2)]) (use at4 5 v4 d4 ne in \<open>auto\<close>)
  have r: "r(lb := 1, k := r k, lb := 0) = r" using assms(2) ne by auto
  have run: "copy_block D lb k s = Ok ((), s6)"
    using 1(1) 2(1) data r4 5(1) 6(1)
    by (simp add: copy_block_def get_buf_def upd_buf_def flip: s3_def)
  show ?thesis
    using run
  proof (rule that)
    show "bframe s s6"
      using bframe_trans [OF bframe_trans [OF bframe_trans [OF bframe_trans [OF bframe_trans [OF 1(7) 2(7)] f3] f4] 5(5)] 6(4)] .
  qed (use 5 6 v3 v4 d3 d4 r in auto)
qed

lemma card_pos_upd: "card {j. 0 < (r(k := Suc m)) j} \<le> Suc (card {j. 0 < r j})" for r :: "'a \<Rightarrow> nat"
proof -
  have "{j. 0 < (r(k := Suc m)) j} = insert k {j. 0 < r j}" by auto
  then show ?thesis by (metis card.infinite card_insert_if finite_insert le_SucI order_refl zero_le)
qed

definition install_block :: "bool \<Rightarrow> uint32 \<Rightarrow> uint32 \<Rightarrow> uint32 \<Rightarrow> ('x logged_scheme, unit) kmonad" where
  "install_block recovering D lb k = bnd (bread D lb) (\<lambda>lbuf. bnd (bread D k) (\<lambda>dbuf. bnd (get_buf lbuf) (\<lambda>r.
     sq (upd_buf dbuf (\<lambda>d. d\<lparr>b_data := b_data r\<rparr>)) (sq (bwrite dbuf)
       (sq (if \<not> recovering then bunpin dbuf else ret ()) (sq (brelse lbuf) (brelse dbuf)))))))"

lemma install_block_ok:
  assumes c: "cache p D r {} s" and "r lb = 0" and rk: "r k = (if recovering then 0 else 1)" and ne: "lb \<noteq> k"
    and room: "card {k. 0 < r k} + (if recovering then 1 else 0) < NBUF"
  obtains s' where "install_block recovering D lb k s = Ok ((), s')" "cache p D (r(k := 0)) {} s'" "bframe s s'"
    "view D s' = (view D s)(k := view D s lb)" "disk s' = (disk s)(k := view D s lb)"
    "dtrace s' = dtrace s @ [(k, view D s lb)]"
proof -
  let ?r2 = "r(lb := 1, k := Suc (r k))"
  obtain b1 s1 where 1: "bread D lb s = Ok (b1, s1)" "cache p D (r(lb := 1)) {lb} s1" "buf_at D s1 b1 lb"
    "view D s1 = view D s" "disk s1 = disk s" "dtrace s1 = dtrace s" "bframe s s1"
    by (rule bread_ok [OF c, of lb]) (use assms in auto)
  have "0 < r k \<or> card {j. 0 < (r(lb := 1)) j} < NBUF"
    using card_pos_upd [of r lb 0] room rk ne by (cases recovering) (auto simp del: fun_upd_apply)
  then obtain b2 s2 where 2: "bread D k s1 = Ok (b2, s2)" "cache p D ?r2 {k, lb} s2" "buf_at D s2 b2 k"
    "view D s2 = view D s1" "disk s2 = disk s1" "dtrace s2 = dtrace s1" "bframe s1 s2" "keeps_bufs D (r(lb := 1)) s1 s2"
    by (rule_tac bread_ok [OF 1(2), of k]) (use assms ne in auto)
  have at1: "buf_at D s2 b1 lb" by (rule keeps_bufsD [OF 2(8) _ 1(3)]) simp
  have data: "b_data (bcache s2 b1) = view D s lb"
    using buf_data [OF 2(2) at1] 1(4) 2(4) ne by simp
  have len: "length (view D s lb) = BSIZE" by (rule length_view [OF c])
  define s3 where "s3 = s2\<lparr>bcache := (bcache s2)(b2 := (bcache s2 b2)\<lparr>b_data := view D s lb\<rparr>)\<rparr>"
  note 3 = set_data_ok [OF 2(2,3) _ len, folded s3_def]
  have c3: "cache p D ?r2 {k, lb} s3" and v3: "view D s3 = (view D s)(k := view D s lb)"
    and k3: "keeps_bufs D ?r2 s2 s3" and f3: "bframe s2 s3" and d3: "disk s3 = disk s" "dtrace s3 = dtrace s"
    using 3 1 2 by auto
  have at3: "buf_at D s3 b1 lb" "buf_at D s3 b2 k"
    using keeps_bufsD [OF k3 _ at1] keeps_bufsD [OF k3 _ 2(3)] ne by simp_all
  define s4 where "s4 = s3\<lparr>disk := (disk s3)(k := view D s3 k), dtrace := dtrace s3 @ [(k, view D s3 k)]\<rparr>"
  note 4 = bwrite_ok [OF c3 at3(2), folded s4_def]
  have r4: "bwrite b2 s3 = Ok ((), s4)" and c4: "cache p D ?r2 {k, lb} s4" and v4: "view D s4 = view D s3"
    and k4: "keeps_bufs D ?r2 s3 s4" and f4: "bframe s3 s4"
    and d4: "disk s4 = (disk s3)(k := view D s3 k)" "dtrace s4 = dtrace s3 @ [(k, view D s3 k)]"
    using 4 by simp_all
  have at4: "buf_at D s4 b1 lb" "buf_at D s4 b2 k"
    using keeps_bufsD [OF k4 _ at3(1)] keeps_bufsD [OF k4 _ at3(2)] ne by simp_all
  obtain s5 where 5: "(if \<not> recovering then bunpin b2 else ret ()) s4 = Ok ((), s5)"
    "cache p D (r(lb := 1, k := 1)) {k, lb} s5" "view D s5 = view D s4" "keeps_bufs D ?r2 s4 s5" "bframe s4 s5"
    "disk s5 = disk s4" "dtrace s5 = dtrace s4"
  proof (cases recovering)
    case True
    with c4 rk show ?thesis by (intro that [of s4]) (auto simp: keeps_bufs_def)
  next
    case False
    show ?thesis
      by (rule bunpin_ok [OF c4 at4(2)]) (use False rk in \<open>auto intro: that\<close>)
  qed
  have at5: "buf_at D s5 b1 lb" "buf_at D s5 b2 k"
    using keeps_bufsD [OF 5(4) _ at4(1)] keeps_bufsD [OF 5(4) _ at4(2)] ne by simp_all
  have clean: "view D s lb = disk s lb" by (rule view_clean [OF c]) (use assms in simp)
  obtain s6 where 6: "brelse b1 s5 = Ok ((), s6)"
    "cache p D (r(lb := 1, k := 1, lb := 0)) {k} s6" "view D s6 = view D s5" "buf_at D s6 = buf_at D s5" "bframe s5 s6"
    "disk s6 = disk s5" "dtrace s6 = dtrace s5"
    by (rule brelse_ok [OF 5(2) at5(1)]) (use 5 v4 d4 v3 d3 ne clean in \<open>auto simp: insert_Diff_if\<close>)
  obtain s7 where 7: "brelse b2 s6 = Ok ((), s7)"
    "cache p D (r(lb := 1, k := 1, lb := 0, k := 0)) {} s7" "view D s7 = view D s6" "bframe s6 s7"
    "disk s7 = disk s6" "dtrace s7 = dtrace s6"
    by (rule brelse_ok [OF 6(2)]) (use at5 5 6 v4 d4 ne in \<open>auto\<close>)
  have r: "r(lb := 1, k := 1, lb := 0, k := 0) = r(k := 0)" using assms(2) ne by auto
  have run: "install_block recovering D lb k s = Ok ((), s7)"
    using 1(1) 2(1) data r4 5(1) 6(1) 7(1)
    by (simp add: install_block_def get_buf_def upd_buf_def flip: s3_def)
  show ?thesis
    using run
  proof (rule that)
    show "bframe s s7"
      using bframe_trans [OF bframe_trans [OF bframe_trans [OF bframe_trans [OF bframe_trans [OF bframe_trans
        [OF 1(7) 2(7)] f3] f4] 5(5)] 6(5)] 7(4)] .
  qed (use 5 6 7 v3 v4 d3 d4 r in auto)
qed

section \<open>The header block\<close>

lemma length_header_fold:
  "4 + 4 * n \<le> length bs \<Longrightarrow> length (fold (\<lambda>i bs. put32 bs (4 + 4 * i) (f i)) [0..<n] bs) = length bs"
  by (induction n) auto

lemma length_header_bytes [simp]:
  "nat (lh_n h) \<le> LOGSIZE \<Longrightarrow> length bs = BSIZE \<Longrightarrow> length (header_bytes h bs) = BSIZE"
  unfolding header_bytes_def by (subst length_header_fold) (auto simp: LOGSIZE_def MAXOPBLOCKS_def BSIZE_def)

lemma get32_header_fold:
  "4 + 4 * n \<le> length bs \<Longrightarrow> get32 (fold (\<lambda>i bs. put32 bs (4 + 4 * i) (f i)) [0..<n] bs) 0 = get32 bs 0"
  "4 + 4 * n \<le> length bs \<Longrightarrow> i < n \<Longrightarrow> get32 (fold (\<lambda>i bs. put32 bs (4 + 4 * i) (f i)) [0..<n] bs) (4 + 4 * i) = f i"
proof (induction n)
  case (Suc n)
  have l: "length (fold (\<lambda>i bs. put32 bs (4 + 4 * i) (f i)) [0..<n] bs) = length bs"
    if "4 + 4 * Suc n \<le> length bs" using that by (intro length_header_fold) simp
  { case 1
    then show ?case using Suc.IH(1) l by (simp add: get32_put32_other) }
  { case 2
    then show ?case using Suc.IH(2) l
      by (cases "i = n") (simp_all add: get32_put32_other get32_put32_same) }
qed simp_all

lemma sint_word_small: "0 \<le> n \<Longrightarrow> n < 2 ^ 31 \<Longrightarrow> sint (word_of_int n :: uint32) = n"
  by (simp add: sint_sbintrunc' signed_take_bit_int_eq_self)

lemma get32_header_bytes:
  assumes "0 \<le> lh_n h" and "lh_n h \<le> int LOGSIZE" and "length bs = BSIZE"
  shows "sint (get32 (header_bytes h bs) 0) = lh_n h"
    and "int i < lh_n h \<Longrightarrow> get32 (header_bytes h bs) (4 + 4 * i) = lh_block h ! i"
  using assms unfolding header_bytes_def
  by (simp_all add: get32_header_fold get32_put32_same LOGSIZE_def MAXOPBLOCKS_def BSIZE_def sint_word_small zless_nat_eq_int_zless)

section \<open>The phases of a commit\<close>

text \<open>What a run that holds no buffer before or after it did: the disk writes \<open>ws\<close>, in this order.\<close>

definition wrote :: "nat \<Rightarrow> uint32 \<Rightarrow> (uint32 \<Rightarrow> nat) \<Rightarrow> (uint32 \<times> uint8 list) list \<Rightarrow>
    'x logged_scheme \<Rightarrow> 'x logged_scheme \<Rightarrow> bool" where
  "wrote p D r ws s s' \<longleftrightarrow> cache p D r {} s' \<and> bframe (s\<lparr>klog := klog s'\<rparr>) s' \<and> view D s' = puts ws (view D s) \<and>
     disk s' = puts ws (disk s) \<and> dtrace s' = dtrace s @ ws"

lemma bframe_klog_cong:
  assumes "bframe s t"
  shows "bframe (s\<lparr>klog := l\<rparr>) (t\<lparr>klog := l\<rparr>)"
proof -
  from assms obtain ps sl bc d tr where t: "t = s\<lparr>procs := ps, sleeplocks := sl, bcache := bc, disk := d, dtrace := tr\<rparr>"
    unfolding bframe_def by blast
  then have "t\<lparr>klog := l\<rparr> = (s\<lparr>klog := l\<rparr>)\<lparr>procs := ps, sleeplocks := sl, bcache := bc, disk := d, dtrace := tr\<rparr>" by simp
  then show ?thesis
    by (rule bframeI) (use assms t in \<open>auto simp: bframe_def\<close>)
qed

lemma wrote_trans:
  assumes "wrote p D r ws s t" and "wrote p D r' ws' t u"
  shows "wrote p D r' (ws @ ws') s u"
proof -
  have "bframe (s\<lparr>klog := klog u\<rparr>) (t\<lparr>klog := klog u\<rparr>)"
    using bframe_klog_cong [of "s\<lparr>klog := klog t\<rparr>" t "klog u"] assms(1) by (simp add: wrote_def)
  with assms show ?thesis by (auto simp: wrote_def intro: bframe_trans)
qed

lemma wrote_refl: "cache p D r {} s \<Longrightarrow> wrote p D r [] s s"
  by (simp add: wrote_def)

lemma wroteI:
  assumes "cache p D r {} s'" and "bframe s s'" and "view D s' = puts ws (view D s)" and "disk s' = puts ws (disk s)"
    and "dtrace s' = dtrace s @ ws"
  shows "wrote p D r ws s s'"
  using assms bframe_klog [OF assms(2)] by (simp add: wrote_def)

lemma wrote_cache: "wrote p D r ws s s' \<Longrightarrow> cache p D r {} s'"
  by (simp add: wrote_def)

lemma wrote_view: "wrote p D r ws s s' \<Longrightarrow> view D s' = puts ws (view D s)"
  by (simp add: wrote_def)

text \<open>The blocks named by the header, and those of the log itself.\<close>

definition logged_blocks :: "logst \<Rightarrow> uint32 list" where
  "logged_blocks l = take (nat (lh_n (lh l))) (lh_block (lh l))"

definition log_region :: "logst \<Rightarrow> uint32 set" where
  "log_region l = (\<lambda>j. log_start l + of_nat j) ` {..<nat (log_size l)}"

definition log_ready :: "logst \<Rightarrow> bool" where
  "log_ready l \<longleftrightarrow> 0 \<le> lh_n (lh l) \<and> lh_n (lh l) < log_size l \<and> log_size l \<le> int LOGSIZE \<and>
     length (lh_block (lh l)) = LOGSIZE \<and> distinct (logged_blocks l) \<and> set (logged_blocks l) \<inter> log_region l = {}"

definition pins :: "uint32 list \<Rightarrow> uint32 \<Rightarrow> nat" where
  "pins bs k = (if k \<in> set bs then 1 else 0)"

lemma pins_card: "distinct bs \<Longrightarrow> card {k. 0 < pins bs k} = length bs"
  by (simp add: pins_def distinct_card)

lemma log_readyD:
  assumes "log_ready l"
  shows "length (logged_blocks l) = nat (lh_n (lh l))" "nat (lh_n (lh l)) < LOGSIZE" "distinct (logged_blocks l)"
    "i < nat (lh_n (lh l)) \<Longrightarrow> lh_block (lh l) ! i = logged_blocks l ! i"
    "i < nat (lh_n (lh l)) \<Longrightarrow> log_block l i \<in> log_region l"
    "log_start l \<in> log_region l" "k \<in> set (logged_blocks l) \<Longrightarrow> k \<notin> log_region l"
proof -
  note a = assms [unfolded log_ready_def]
  show "length (logged_blocks l) = nat (lh_n (lh l))" "nat (lh_n (lh l)) < LOGSIZE" "distinct (logged_blocks l)"
    "k \<in> set (logged_blocks l) \<Longrightarrow> k \<notin> log_region l"
    using a by (auto simp: logged_blocks_def)
  show "i < nat (lh_n (lh l)) \<Longrightarrow> lh_block (lh l) ! i = logged_blocks l ! i"
    by (simp add: logged_blocks_def)
  show "i < nat (lh_n (lh l)) \<Longrightarrow> log_block l i \<in> log_region l"
    using a by (auto simp: log_block_def log_region_def intro!: image_eqI [of _ _ "Suc i"])
  show "log_start l \<in> log_region l"
    using a by (auto simp: log_region_def intro!: image_eqI [of _ _ 0])
qed

lemma log_block_inj: "i < LOGSIZE \<Longrightarrow> j < LOGSIZE \<Longrightarrow> log_block l i = log_block l j \<longleftrightarrow> i = j"
  by (auto simp: log_block_def LOGSIZE_def MAXOPBLOCKS_def of_nat_inverse
      dest!: arg_cong [of "of_nat i" _ unat] simp: unat_of_nat)

lemma log_block_start: "i < LOGSIZE \<Longrightarrow> log_block l i \<noteq> log_start l"
proof
  assume i: "i < LOGSIZE" and "log_block l i = log_start l"
  then have "(of_nat (Suc i) :: uint32) = 0" by (simp add: log_block_def add.commute add.left_commute)
  then have "unat (of_nat (Suc i) :: uint32) = 0" by simp
  with i show False by (simp add: unat_of_nat LOGSIZE_def MAXOPBLOCKS_def del: of_nat_Suc)
qed

definition log_writes :: "logst \<Rightarrow> disk \<Rightarrow> (uint32 \<times> uint8 list) list" where
  "log_writes l v = map (\<lambda>i. (log_block l i, v (logged_blocks l ! i))) [0..<nat (lh_n (lh l))]"

definition home_writes :: "logst \<Rightarrow> disk \<Rightarrow> (uint32 \<times> uint8 list) list" where
  "home_writes l v = map (\<lambda>i. (logged_blocks l ! i, v (log_block l i))) [0..<nat (lh_n (lh l))]"

lemma write_log_ok:
  assumes l: "klog s = l" "log_dev l = D" "log_ready l" and c: "cache p D (pins (logged_blocks l)) {} s"
  obtains s' where "write_log s = Ok ((), s')" "wrote p D (pins (logged_blocks l)) (log_writes l (view D s)) s s'" "klog s' = l"
proof -
  note ready = log_readyD [OF l(3)]
  let ?n = "nat (lh_n (lh l))" and ?bs = "logged_blocks l"
  let ?I = "\<lambda>i t. wrote p D (pins ?bs) (map (\<lambda>i. (log_block l i, view D s (?bs ! i))) [0..<i]) s t \<and> klog t = l"
  have step: "\<exists>t'. copy_block D (log_block l i) (lh_block (lh l) ! i) t = Ok ((), t') \<and> ?I (Suc i) t'"
    if i: "i < ?n" and I: "?I i t" for i t
  proof -
    have c: "cache p D (pins ?bs) {} t" using I by (simp add: wrote_def)
    have mem: "?bs ! i \<in> set ?bs" using i ready(1) by simp
    have "fst ` set (map (\<lambda>i. (log_block l i, view D s (?bs ! i))) [0..<i]) \<subseteq> log_region l"
      using ready(5) i by force
    then have "?bs ! i \<notin> fst ` set (map (\<lambda>i. (log_block l i, view D s (?bs ! i))) [0..<i])"
      using ready(7) [OF mem] by blast
    then have v: "view D t (?bs ! i) = view D s (?bs ! i)"
      using wrote_view [OF conjunct1 [OF I]] by (simp add: puts_other)
    obtain t' where t': "copy_block D (log_block l i) (?bs ! i) t = Ok ((), t')" "cache p D (pins ?bs) {} t'" "bframe t t'"
      "view D t' = (view D t)(log_block l i := view D t (?bs ! i))" "disk t' = (disk t)(log_block l i := view D t (?bs ! i))"
      "dtrace t' = dtrace t @ [(log_block l i, view D t (?bs ! i))]"
      by (rule copy_block_ok [OF c, of "log_block l i" "?bs ! i"])
        (use ready i pins_card [OF ready(3)] in \<open>auto simp: pins_def LOGSIZE_def MAXOPBLOCKS_def NBUF_def\<close>)
    have "wrote p D (pins ?bs) [(log_block l i, view D s (?bs ! i))] t t'"
      by (rule wroteI) (use t' v in simp_all)
    from wrote_trans [OF conjunct1 [OF I] this] show ?thesis
      using t'(1) bframe_klog [OF t'(3)] I ready(4) [OF i] by auto
  qed
  have "\<exists>s'. for_each [0..<?n] (\<lambda>i. copy_block D (log_block l i) (lh_block (lh l) ! i)) s = Ok ((), s') \<and> ?I ?n s'"
    by (rule for_each_upt) (use step wrote_refl [OF c] l in auto)
  moreover have "write_log s = for_each [0..<?n] (\<lambda>i. copy_block D (log_block l i) (lh_block (lh l) ! i)) s"
    by (simp add: write_log_def get_log_def copy_block_def l)
  ultimately show ?thesis using that by (auto simp: log_writes_def)
qed

lemma write_head_ok:
  assumes l: "klog s = l" "log_dev l = D" and "nat (lh_n (lh l)) \<le> LOGSIZE"
    and c: "cache p D r {} s" and "r (log_start l) = 0" and "card {k. 0 < r k} < NBUF"
  obtains s' where "write_head s = Ok ((), s')"
    "wrote p D r [(log_start l, header_bytes (lh l) (view D s (log_start l)))] s s'" "klog s' = l"
proof -
  let ?k = "log_start l"
  obtain b s1 where 1: "bread D ?k s = Ok (b, s1)" "cache p D (r(?k := 1)) {?k} s1" "buf_at D s1 b ?k"
    "view D s1 = view D s" "disk s1 = disk s" "dtrace s1 = dtrace s" "bframe s s1"
    by (rule bread_ok [OF c, of ?k]) (use assms in auto)
  let ?x = "header_bytes (lh l) (view D s ?k)"
  have data: "b_data (bcache s1 b) = view D s ?k" using buf_data [OF 1(2,3)] 1(4) by simp
  have len: "length ?x = BSIZE" using length_view [OF c] assms by simp
  define s2 where "s2 = s1\<lparr>bcache := (bcache s1)(b := (bcache s1 b)\<lparr>b_data := ?x\<rparr>)\<rparr>"
  note 2 = set_data_ok [OF 1(2,3) _ len, folded s2_def, simplified]
  have at2: "buf_at D s2 b ?k" by (rule keeps_bufsD [OF 2(3) _ 1(3)]) simp
  define s3 where "s3 = s2\<lparr>disk := (disk s2)(?k := view D s2 ?k), dtrace := dtrace s2 @ [(?k, view D s2 ?k)]\<rparr>"
  note 3 = bwrite_ok [OF 2(1) at2, folded s3_def, simplified]
  have at3: "buf_at D s3 b ?k" by (rule keeps_bufsD [OF 3(4) _ at2]) simp
  obtain s4 where 4: "brelse b s3 = Ok ((), s4)" "cache p D (r(?k := 1, ?k := 0)) {} s4" "view D s4 = view D s3"
    "bframe s3 s4" "disk s4 = disk s3" "dtrace s4 = dtrace s3"
    by (rule brelse_ok [OF 3(2) at3]) (use 3 in auto)
  have r: "r(?k := 0) = r" using assms(5) by auto
  have run: "write_head s = Ok ((), s4)"
    using 1(1) data 3(1) 4(1) by (simp add: write_head_def get_log_def l upd_buf_def flip: s2_def)
  have "bframe s s4" using bframe_trans [OF bframe_trans [OF bframe_trans [OF 1(7) 2(4)] 3(5)] 4(4)] .
  moreover from this have "wrote p D r [(?k, ?x)] s s4"
    by (intro wroteI) (use 1 2 3 4 r in auto)
  ultimately show ?thesis using run that l bframe_klog by blast
qed

lemma install_trans_ok:
  assumes l: "klog s = l" "log_dev l = D" "log_ready l"
    and c: "cache p D (pins (if recovering then [] else logged_blocks l)) {} s"
  obtains s' where "install_trans recovering s = Ok ((), s')" "wrote p D (\<lambda>_. 0) (home_writes l (view D s)) s s'" "klog s' = l"
proof -
  note ready = log_readyD [OF l(3)]
  let ?n = "nat (lh_n (lh l))" and ?bs = "logged_blocks l"
  let ?r = "\<lambda>i. pins (if recovering then [] else drop i ?bs)"
  let ?I = "\<lambda>i t. wrote p D (?r i) (map (\<lambda>i. (?bs ! i, view D s (log_block l i))) [0..<i]) s t \<and> klog t = l"
  have step: "\<exists>t'. install_block recovering D (log_block l i) (lh_block (lh l) ! i) t = Ok ((), t') \<and> ?I (Suc i) t'"
    if i: "i < ?n" and I: "?I i t" for i t
  proof -
    have c: "cache p D (?r i) {} t" using I by (simp add: wrote_def)
    have mem: "?bs ! i \<in> set ?bs" using i ready(1) by simp
    have "fst ` set (map (\<lambda>i. (?bs ! i, view D s (log_block l i))) [0..<i]) \<subseteq> set ?bs"
      using ready(1) i by auto
    then have "log_block l i \<notin> fst ` set (map (\<lambda>i. (?bs ! i, view D s (log_block l i))) [0..<i])"
      using ready(5) [OF i] ready(7) by blast
    then have v: "view D t (log_block l i) = view D s (log_block l i)"
      using wrote_view [OF conjunct1 [OF I]] by (simp add: puts_other)
    have split: "drop i ?bs = ?bs ! i # drop (Suc i) ?bs" using i ready(1) by (simp add: Cons_nth_drop_Suc)
    have d: "distinct (drop i ?bs)" using ready(3) by simp
    have ri: "(?r i)(?bs ! i := 0) = ?r (Suc i)"
      using d by (auto simp: pins_def split fun_eq_iff)
    have room: "card {k. 0 < ?r i k} + (if recovering then 1 else 0) < NBUF"
      using pins_card [OF d] ready(1,2) i by (auto simp: pins_def LOGSIZE_def MAXOPBLOCKS_def NBUF_def)
    have lb: "log_block l i \<notin> set ?bs" using ready(5) [OF i] ready(7) by blast
    obtain t' where t': "install_block recovering D (log_block l i) (?bs ! i) t = Ok ((), t')"
      "cache p D ((?r i)(?bs ! i := 0)) {} t'" "bframe t t'"
      "view D t' = (view D t)(?bs ! i := view D t (log_block l i))" "disk t' = (disk t)(?bs ! i := view D t (log_block l i))"
      "dtrace t' = dtrace t @ [(?bs ! i, view D t (log_block l i))]"
      by (rule install_block_ok [OF c _ _ _ room, of "log_block l i" "?bs ! i"])
        (use lb mem in \<open>auto simp: pins_def split dest: in_set_dropD\<close>)
    have "wrote p D (?r (Suc i)) [(?bs ! i, view D s (log_block l i))] t t'"
      by (rule wroteI) (use t' v ri in simp_all)
    from wrote_trans [OF conjunct1 [OF I] this] show ?thesis
      using t'(1) bframe_klog [OF t'(3)] I ready(4) [OF i] by auto
  qed
  have "\<exists>s'. for_each [0..<?n] (\<lambda>i. install_block recovering D (log_block l i) (lh_block (lh l) ! i)) s = Ok ((), s') \<and> ?I ?n s'"
    by (rule for_each_upt) (use step wrote_refl [of p D "?r 0" s] c l in auto)
  moreover have "install_trans recovering s =
      for_each [0..<?n] (\<lambda>i. install_block recovering D (log_block l i) (lh_block (lh l) ! i)) s"
    by (simp add: install_trans_def get_log_def install_block_def l)
  moreover have "?r ?n = (\<lambda>_. 0)" using ready(1) by (auto simp: pins_def)
  ultimately show ?thesis using that by (auto simp: home_writes_def)
qed

section \<open>Recovery of a disk\<close>

text \<open>The blocks named by the header on the disk get the content of their log blocks.\<close>

definition recover_disk :: "logst \<Rightarrow> disk \<Rightarrow> disk" where
  "recover_disk l d = puts (map (\<lambda>i. (get32 (d (log_start l)) (4 + 4 * i), d (log_block l i)))
     [0..<nat (sint (get32 (d (log_start l)) 0))]) d"

lemma recover_empty: "sint (get32 (d (log_start l)) 0) = 0 \<Longrightarrow> recover_disk l d = d"
  by (simp add: recover_disk_def)

text \<open>The new content of the logged blocks, as home writes.\<close>

definition new_home :: "logst \<Rightarrow> disk \<Rightarrow> (uint32 \<times> uint8 list) list" where
  "new_home l v = map (\<lambda>k. (k, v k)) (logged_blocks l)"

lemma fst_new_home [simp]: "fst ` set (new_home l v) = set (logged_blocks l)"
  by (force simp: new_home_def)

lemma puts_new_home: "puts (new_home l v) d k = (if k \<in> set (logged_blocks l) then v k else d k)"
proof (cases "k \<in> set (logged_blocks l)")
  case True
  have "puts (new_home l v) d k = v k"
    by (rule puts_in) (use True in \<open>force simp: new_home_def\<close>)+
  with True show ?thesis by simp
next
  case False
  then show ?thesis by (simp add: puts_other)
qed

lemma puts_take_other: "k \<notin> fst ` set ws \<Longrightarrow> puts (take m ws) d k = d k"
  by (rule puts_other) (auto dest: in_set_takeD)

lemma fst_log_writes:
  assumes "log_ready l"
  shows "fst ` set (log_writes l v) \<subseteq> log_region l - {log_start l}"
proof -
  have "log_block l i \<in> log_region l - {log_start l}" if "i < nat (lh_n (lh l))" for i
    using log_readyD(2,5) [OF assms] log_block_start [of i l] that by auto
  then show ?thesis by (auto simp: log_writes_def)
qed

lemma puts_log_writes:
  assumes "log_ready l" and i: "i < nat (lh_n (lh l))"
  shows "puts (log_writes l v) d (log_block l i) = v (logged_blocks l ! i)"
proof (rule puts_in)
  show "log_block l i \<in> fst ` set (log_writes l v)" using i by (force simp: log_writes_def)
  show "x = v (logged_blocks l ! i)" if "(log_block l i, x) \<in> set (log_writes l v)" for x
    using that i log_readyD(2) [OF assms(1)] by (auto simp: log_writes_def log_block_inj)
qed

lemma recover_committed:
  assumes ready: "log_ready l"
    and n: "sint (get32 (d (log_start l)) 0) = lh_n (lh l)"
    and ks: "\<And>i. int i < lh_n (lh l) \<Longrightarrow> get32 (d (log_start l)) (4 + 4 * i) = lh_block (lh l) ! i"
    and lbs: "\<And>i. i < nat (lh_n (lh l)) \<Longrightarrow> d (log_block l i) = v (logged_blocks l ! i)"
  shows "recover_disk l d = puts (new_home l v) d"
proof -
  have "map (\<lambda>i. (get32 (d (log_start l)) (4 + 4 * i), d (log_block l i))) [0..<nat (lh_n (lh l))] = new_home l v"
    by (rule nth_equalityI)
      (use log_readyD(1,4) [OF ready] ks lbs in \<open>auto simp: new_home_def zless_nat_eq_int_zless\<close>)
  with n show ?thesis by (simp add: recover_disk_def)
qed

lemma crash_point:
  assumes ready: "log_ready l" and len: "\<And>k. length (d k) = BSIZE"
    and empty: "sint (get32 (d (log_start l)) 0) = 0"
    and clean: "\<And>k. k \<notin> set (logged_blocks l) \<Longrightarrow> v k = d k"
    and empty': "sint (get32 h' 0) = 0"
  defines "ws \<equiv> log_writes l v @ [(log_start l, header_bytes (lh l) (d (log_start l)))] @ new_home l v @ [(log_start l, h')]"
  shows "(\<forall>k. k \<notin> log_region l \<longrightarrow> recover_disk l (puts (take m ws) d) k = d k) \<or>
    (\<forall>k. k \<notin> log_region l \<longrightarrow> recover_disk l (puts (take m ws) d) k = v k)"
proof -
  let ?n = "nat (lh_n (lh l))" and ?st = "log_start l"
  let ?h = "header_bytes (lh l) (d ?st)"
  note r = log_readyD [OF ready] and lw = fst_log_writes [OF ready, of v]
  have st: "?st \<notin> set (logged_blocks l)" using r(6,7) by blast
  have n: "length (log_writes l v) = ?n" "length (new_home l v) = ?n" using r(1) by (simp_all add: log_writes_def new_home_def)
  have old: "puts (log_writes l v) d k = d k" if "k \<notin> log_region l" for k
    by (rule puts_other) (use that lw in blast)
  consider "m \<le> ?n" | "?n < m" "m \<le> ?n + 1 + ?n" | "?n + 1 + ?n < m" by linarith
  then show ?thesis
  proof cases
    case 1
    then have t: "take m ws = take m (log_writes l v)" using n by (simp add: ws_def)
    have "puts (take m ws) d ?st = d ?st" unfolding t by (rule puts_take_other) (use lw in blast)
    then have "recover_disk l (puts (take m ws) d) = puts (take m ws) d" using empty by (simp add: recover_empty)
    moreover have "puts (take m ws) d k = d k" if "k \<notin> log_region l" for k
      unfolding t by (rule puts_take_other) (use that lw in blast)
    ultimately show ?thesis by simp
  next
    case 2
    define j where "j = m - ?n - 1"
    have m: "m = ?n + (1 + j)" "j \<le> ?n" using 2 by (simp_all add: j_def)
    then have t: "take m ws = log_writes l v @ [(?st, ?h)] @ take j (new_home l v)" using n by (simp add: ws_def)
    define d' where "d' = puts (take m ws) d"
    have d': "d' k = ((puts (log_writes l v) d)(?st := ?h)) k" if "k \<in> log_region l" for k
      unfolding d'_def t puts_append
      by (subst puts_take_other) (use r(7) that in auto)
    have hd: "d' ?st = ?h" using d' [OF r(6)] by simp
    have "recover_disk l d' = puts (new_home l v) d'"
    proof (rule recover_committed [OF ready])
      show "sint (get32 (d' ?st) 0) = lh_n (lh l)"
        unfolding hd by (rule get32_header_bytes) (use ready len in \<open>auto simp: log_ready_def\<close>)
      show "get32 (d' ?st) (4 + 4 * i) = lh_block (lh l) ! i" if "int i < lh_n (lh l)" for i
        unfolding hd by (rule get32_header_bytes) (use ready len that in \<open>auto simp: log_ready_def\<close>)
      show "d' (log_block l i) = v (logged_blocks l ! i)" if "i < ?n" for i
        using d' [OF r(5) [OF that]] puts_log_writes [OF ready that] log_block_start [of i l] r(2) that by simp
    qed
    moreover have "puts (new_home l v) d' k = v k" if k: "k \<notin> log_region l" for k
    proof (cases "k \<in> set (logged_blocks l)")
      case False
      have "d' k = puts (log_writes l v) d k"
        unfolding d'_def t using False k r(6) by (auto simp: puts_take_other)
      with False k old clean show ?thesis by (simp add: puts_new_home)
    qed (simp add: puts_new_home)
    ultimately show ?thesis by (simp add: d'_def)
  next
    case 3
    then have t: "take m ws = ws" using n by (simp add: ws_def)
    have "recover_disk l (puts ws d) = puts ws d"
      by (rule recover_empty) (simp add: ws_def empty')
    moreover have "puts ws d k = v k" if "k \<notin> log_region l" for k
      using that r(6) old clean by (auto simp: ws_def puts_new_home)
    ultimately show ?thesis by (simp add: t)
  qed
qed

section \<open>Commit\<close>

lemma bframe_set_klog [simp]: "bframe (s\<lparr>klog := l\<rparr>) (s\<lparr>klog := l\<rparr>)"
  by (rule bframe_refl)

lemma buf_at_klog [simp]: "buf_at D (s\<lparr>klog := l\<rparr>) = buf_at D s"
  by (simp add: buf_at_def fun_eq_iff)

lemma view_klog [simp]: "view D (s\<lparr>klog := l\<rparr>) = view D s"
  by (simp add: view_def fun_eq_iff split: option.split)

lemma quiet_klog [simp]: "quiet p (s\<lparr>klog := l\<rparr>) = quiet p s"
  by (simp add: quiet_def settled_def cur_def this_cpu_def this_hart_def)

lemma cache_klog [simp]: "cache p D r h (s\<lparr>klog := l\<rparr>) = cache p D r h s"
  by (simp add: cache_def)

lemma wrote_set_klog: "cache p D r {} s \<Longrightarrow> wrote p D r [] s (s\<lparr>klog := l\<rparr>)"
  by (simp add: wrote_def)

lemma log_block_lh [simp]: "log_block (l\<lparr>lh := h\<rparr>) i = log_block l i"
  by (simp add: log_block_def)

lemma log_region_lh [simp]: "log_region (l\<lparr>lh := h\<rparr>) = log_region l"
  by (simp add: log_region_def)

text \<open>\<open>set_lh_n 0\<close> and \<open>write_head\<close>: the last step of a commit and of recovery.\<close>

lemma clear_head_ok:
  assumes l: "klog s = l" "log_dev l = D" and c: "cache p D (\<lambda>_. 0) {} s"
  obtains s' where "sq (set_lh_n 0) write_head s = Ok ((), s')"
    "wrote p D (\<lambda>_. 0) [(log_start l, header_bytes ((lh l)\<lparr>lh_n := 0\<rparr>) (view D s (log_start l)))] s s'"
    "klog s' = l\<lparr>lh := (lh l)\<lparr>lh_n := 0\<rparr>\<rparr>"
proof -
  let ?l = "l\<lparr>lh := (lh l)\<lparr>lh_n := 0\<rparr>\<rparr>"
  let ?t = "s\<lparr>klog := ?l\<rparr>"
  obtain s' where s': "write_head ?t = Ok ((), s')"
    "wrote p D (\<lambda>_. 0) [(log_start ?l, header_bytes (lh ?l) (view D ?t (log_start ?l)))] ?t s'" "klog s' = ?l"
    by (rule write_head_ok [of ?t ?l D p "\<lambda>_. 0"]) (use l c in \<open>auto simp: NBUF_def MAXOPBLOCKS_def\<close>)
  have "sq (set_lh_n 0) write_head s = Ok ((), s')"
    using s'(1) l by (simp add: set_lh_n_def upd_log_def)
  then show ?thesis
    by (rule that) (use wrote_trans [OF wrote_set_klog [OF c] s'(2)] s'(3) in simp_all)
qed

definition commit_writes :: "logst \<Rightarrow> disk \<Rightarrow> disk \<Rightarrow> (uint32 \<times> uint8 list) list" where
  "commit_writes l v d = log_writes l v @ [(log_start l, header_bytes (lh l) (d (log_start l)))] @ new_home l v @
     [(log_start l, header_bytes ((lh l)\<lparr>lh_n := 0\<rparr>) (header_bytes (lh l) (d (log_start l))))]"

lemma commit_ok:
  assumes l: "klog s = l" "log_dev l = D" "log_ready l" "0 < lh_n (lh l)" and c: "cache p D (pins (logged_blocks l)) {} s"
  obtains s' where "commit s = Ok ((), s')" "wrote p D (\<lambda>_. 0) (commit_writes l (view D s) (disk s)) s s'"
    "klog s' = l\<lparr>lh := (lh l)\<lparr>lh_n := 0\<rparr>\<rparr>"
proof -
  note r = log_readyD [OF l(3)] and lw = fst_log_writes [OF l(3), of "view D s"]
  let ?bs = "logged_blocks l" and ?st = "log_start l" and ?v = "view D s"
  have st: "pins ?bs ?st = 0" using r(6,7) by (auto simp: pins_def)
  have vst: "?v ?st = disk s ?st" by (rule view_clean [OF c st])
  let ?h = "header_bytes (lh l) (disk s ?st)"
  obtain s1 where 1: "write_log s = Ok ((), s1)" "wrote p D (pins ?bs) (log_writes l ?v) s s1" "klog s1 = l"
    by (rule write_log_ok [OF l(1-3) c])
  have v1: "view D s1 ?st = disk s ?st"
    using wrote_view [OF 1(2)] lw vst puts_other [of ?st "log_writes l ?v" ?v] by auto
  obtain s2 where 2: "write_head s1 = Ok ((), s2)" "wrote p D (pins ?bs) [(?st, ?h)] s1 s2" "klog s2 = l"
    by (rule write_head_ok [OF 1(3) l(2) _ wrote_cache [OF 1(2)] st])
      (use r(1,2) pins_card [OF r(3)] v1 in \<open>auto simp: LOGSIZE_def MAXOPBLOCKS_def NBUF_def\<close>)
  obtain s3 where 3: "install_trans False s2 = Ok ((), s3)" "wrote p D (\<lambda>_. 0) (home_writes l (view D s2)) s2 s3" "klog s3 = l"
    by (rule install_trans_ok [OF 2(3) l(2,3), of p False]) (use wrote_cache [OF 2(2)] in simp_all)
  have "view D s2 (log_block l i) = ?v (?bs ! i)" if "i < nat (lh_n (lh l))" for i
    using wrote_view [OF 2(2)] wrote_view [OF 1(2)] puts_log_writes [OF l(3) that] log_block_start [of i l] r(2) that by simp
  then have hw: "home_writes l (view D s2) = new_home l ?v"
    by (intro nth_equalityI) (simp_all add: home_writes_def new_home_def r(1))
  have "?st \<notin> fst ` set (new_home l ?v)" using r(6,7) by auto
  then have v3: "view D s3 ?st = ?h"
    using wrote_view [OF 3(2), unfolded hw] wrote_view [OF 2(2)] by (simp add: puts_other)
  obtain s4 where 4: "sq (set_lh_n 0) write_head s3 = Ok ((), s4)"
    "wrote p D (\<lambda>_. 0) [(?st, header_bytes ((lh l)\<lparr>lh_n := 0\<rparr>) ?h)] s3 s4" "klog s4 = l\<lparr>lh := (lh l)\<lparr>lh_n := 0\<rparr>\<rparr>"
    by (rule clear_head_ok [OF 3(3) l(2) wrote_cache [OF 3(2)]]) (simp add: v3)
  have "commit s = Ok ((), s4)"
    using 1(1) 2(1) 3(1) 4(1) l by (simp add: commit_def get_log_def)
  then show ?thesis
    by (rule that)
      (use wrote_trans [OF wrote_trans [OF wrote_trans [OF 1(2) 2(2)] 3(2)] 4(2)] 4(3) in \<open>simp_all add: commit_writes_def hw\<close>)
qed

section \<open>Recovery\<close>

definition disk_header :: "logst \<Rightarrow> disk \<Rightarrow> logheader" where
  "disk_header l d = (let n = sint (get32 (d (log_start l)) 0) in
     \<lparr>lh_n = n, lh_block = map (\<lambda>i. get32 (d (log_start l)) (4 + 4 * i)) [0..<nat n] @ drop (nat n) (lh_block (lh l))\<rparr>)"

lemma read_head_ok:
  assumes l: "klog s = l" "log_dev l = D" and "sint (get32 (view D s (log_start l)) 0) \<le> int LOGSIZE"
    and c: "cache p D (\<lambda>_. 0) {} s"
  obtains s' where "read_head s = Ok ((), s')" "wrote p D (\<lambda>_. 0) [] s s'" "klog s' = l\<lparr>lh := disk_header l (view D s)\<rparr>"
proof -
  let ?k = "log_start l" and ?l = "l\<lparr>lh := disk_header l (view D s)\<rparr>"
  obtain b s1 where 1: "bread D ?k s = Ok (b, s1)" "cache p D ((\<lambda>_. 0)(?k := 1)) {?k} s1" "buf_at D s1 b ?k"
    "view D s1 = view D s" "disk s1 = disk s" "dtrace s1 = dtrace s" "bframe s s1"
    by (rule bread_ok [OF c, of ?k]) (auto simp: NBUF_def MAXOPBLOCKS_def)
  have data: "b_data (bcache s1 b) = view D s ?k" using buf_data [OF 1(2,3)] 1(4) by simp
  have k1: "klog s1 = l" using bframe_klog [OF 1(7)] l by simp
  have clean: "view D s ?k = disk s ?k" by (rule view_clean [OF c]) simp
  let ?t = "s1\<lparr>klog := ?l\<rparr>"
  have ct: "cache p D ((\<lambda>_. 0)(?k := 1)) {?k} ?t" "buf_at D ?t b ?k" using 1 by simp_all
  obtain s2 where 2: "brelse b ?t = Ok ((), s2)" "cache p D ((\<lambda>_. 0)(?k := 1, ?k := 0)) {} s2" "view D s2 = view D ?t"
    "bframe ?t s2" "disk s2 = disk ?t" "dtrace s2 = dtrace ?t"
    by (rule brelse_ok [OF ct]) (use 1 clean in auto)
  have r: "(\<lambda>_. 0)(?k := 0) = (\<lambda>_. 0 :: nat)" by auto
  have k2: "klog s2 = ?l" using bframe_klog [OF 2(4)] by simp
  have run: "read_head s = Ok ((), s2)"
    using 1(1) 2(1) assms(3) k1
    by (simp add: read_head_def get_log_def l get_buf_def upd_log_def data Let_def disk_header_def)
  have "bframe (s\<lparr>klog := ?l\<rparr>) s2"
    using bframe_trans [OF bframe_klog_cong [OF 1(7)] 2(4)] .
  then have "wrote p D (\<lambda>_. 0) [] s s2"
    using 1 2 r k2 by (simp add: wrote_def)
  with run k2 show ?thesis by (rule_tac that)
qed

text \<open>The log of a disk can be recovered: its header is one that a commit may have left there.\<close>

definition recoverable :: "logst \<Rightarrow> disk \<Rightarrow> bool" where
  "recoverable l d \<longleftrightarrow> log_ready (l\<lparr>lh := disk_header l d\<rparr>)"

definition recovery_writes :: "logst \<Rightarrow> disk \<Rightarrow> (uint32 \<times> uint8 list) list" where
  "recovery_writes l d = home_writes (l\<lparr>lh := disk_header l d\<rparr>) d @
     [(log_start l, header_bytes ((disk_header l d)\<lparr>lh_n := 0\<rparr>) (d (log_start l)))]"

lemma nth_logged_disk:
  "i < nat (lh_n (disk_header l d)) \<Longrightarrow>
     logged_blocks (l\<lparr>lh := disk_header l d\<rparr>) ! i = get32 (d (log_start l)) (4 + 4 * i)"
  by (simp add: logged_blocks_def disk_header_def Let_def nth_append)

lemma home_writes_disk:
  "home_writes (l\<lparr>lh := disk_header l d\<rparr>) d =
     map (\<lambda>i. (get32 (d (log_start l)) (4 + 4 * i), d (log_block l i))) [0..<nat (sint (get32 (d (log_start l)) 0))]"
  unfolding home_writes_def by (rule nth_equalityI) (auto simp: nth_logged_disk, simp_all add: disk_header_def Let_def)

lemma recover_disk_home: "recover_disk l d = puts (home_writes (l\<lparr>lh := disk_header l d\<rparr>) d) d"
  by (simp add: recover_disk_def home_writes_disk)

text \<open>Recovery depends on the log blocks only.\<close>

lemma recover_disk_log:
  assumes rec: "recoverable l d" and same: "\<And>j. j \<in> log_region l \<Longrightarrow> d' j = d j"
  shows "recover_disk l d' = puts (home_writes (l\<lparr>lh := disk_header l d\<rparr>) d) d'"
proof -
  note r = log_readyD [OF rec [unfolded recoverable_def]]
  have st: "d' (log_start l) = d (log_start l)" using same r(6) by simp
  have "d' (log_block l i) = d (log_block l i)" if "i < nat (sint (get32 (d (log_start l)) 0))" for i
    using same r(5) [of i] that by (simp add: disk_header_def Let_def)
  then have "map (\<lambda>i. (get32 (d' (log_start l)) (4 + 4 * i), d' (log_block l i))) [0..<nat (sint (get32 (d' (log_start l)) 0))] =
      home_writes (l\<lparr>lh := disk_header l d\<rparr>) d"
    by (simp add: home_writes_disk st)
  then show ?thesis by (simp add: recover_disk_def)
qed

lemma fst_home_writes:
  assumes "recoverable l d"
  shows "fst ` set (home_writes (l\<lparr>lh := disk_header l d\<rparr>) d) \<inter> log_region l = {}"
  using log_readyD(1,7) [OF assms [unfolded recoverable_def]] by (force simp: home_writes_def)

lemma recover_from_log_ok:
  assumes l: "klog s = l" "log_dev l = D" and rec: "recoverable l (disk s)" and c: "cache p D (\<lambda>_. 0) {} s"
  obtains s' where "recover_from_log s = Ok ((), s')" "wrote p D (\<lambda>_. 0) (recovery_writes l (disk s)) s s'"
    "lh_n (lh (klog s')) = 0"
proof -
  let ?h = "disk_header l (disk s)" and ?st = "log_start l"
  let ?l = "l\<lparr>lh := ?h\<rparr>"
  have ready: "log_ready ?l" using rec by (simp add: recoverable_def)
  note v = view_all_clean [OF c] and r = log_readyD [OF ready]
  have "lh_n ?h \<le> int LOGSIZE" using ready by (simp add: log_ready_def)
  then have "sint (get32 (view D s ?st) 0) \<le> int LOGSIZE" by (simp add: disk_header_def Let_def v)
  then obtain s1 where 1: "read_head s = Ok ((), s1)" "wrote p D (\<lambda>_. 0) [] s s1" "klog s1 = ?l"
    by (rule_tac read_head_ok [OF l _ c]) (auto simp: v)
  have p0: "pins [] = (\<lambda>_. 0)" by (auto simp: pins_def)
  have v1: "view D s1 = disk s" using wrote_view [OF 1(2)] v by simp
  obtain s2 where 2: "install_trans True s1 = Ok ((), s2)" "wrote p D (\<lambda>_. 0) (home_writes ?l (disk s)) s1 s2" "klog s2 = ?l"
    by (rule install_trans_ok [OF 1(3) _ ready, of D p True]) (use wrote_cache [OF 1(2)] l v1 in \<open>simp_all add: p0\<close>)
  have "?st \<notin> fst ` set (home_writes ?l (disk s))" using fst_home_writes [OF rec] r(6) by auto
  then have v2: "view D s2 ?st = disk s ?st" using wrote_view [OF 2(2)] v1 by (simp add: puts_other)
  obtain s3 where 3: "sq (set_lh_n 0) write_head s2 = Ok ((), s3)"
    "wrote p D (\<lambda>_. 0) [(?st, header_bytes (?h\<lparr>lh_n := 0\<rparr>) (disk s ?st))] s2 s3" "lh_n (lh (klog s3)) = 0"
    by (rule clear_head_ok [OF 2(3) _ wrote_cache [OF 2(2)]]) (use l in \<open>auto simp: v2\<close>)
  have "recover_from_log s = Ok ((), s3)"
    using 1(1) 2(1) 3(1) by (simp add: recover_from_log_def)
  then show ?thesis
    by (rule that) (use wrote_trans [OF wrote_trans [OF 1(2) 2(2)] 3(2)] 3(3) in \<open>simp_all add: recovery_writes_def\<close>)
qed

lemma puts_same_in: "k \<in> fst ` set ws \<Longrightarrow> puts ws d k = puts ws d' k"
proof (induction ws arbitrary: d d')
  case (Cons w ws)
  show ?case
  proof (cases "k \<in> fst ` set ws")
    case True
    then show ?thesis using Cons.IH by simp
  next
    case False
    then show ?thesis using Cons.prems by (simp add: puts_other)
  qed
qed simp

lemma puts_again: "puts ws (puts (take m ws) d) = puts ws d"
proof
  fix k
  show "puts ws (puts (take m ws) d) k = puts ws d k"
  proof (cases "k \<in> fst ` set ws")
    case True
    then show ?thesis by (rule puts_same_in)
  next
    case False
    then show ?thesis by (simp add: puts_other puts_take_other)
  qed
qed

lemma empty_header [simp]:
  "length bs = BSIZE \<Longrightarrow> sint (get32 (header_bytes (h\<lparr>lh_n := 0\<rparr>) bs) 0) = 0"
  by (subst get32_header_bytes) simp_all

text \<open>A crash during recovery does no harm: recovering again gives the same disk.\<close>

lemma recovery_crash_point:
  assumes rec: "recoverable l d" and len: "\<And>k. length (d k) = BSIZE" and k: "k \<notin> log_region l"
  shows "recover_disk l (puts (take m (recovery_writes l d)) d) k = recover_disk l d k"
proof -
  let ?l = "l\<lparr>lh := disk_header l d\<rparr>" and ?st = "log_start l"
  let ?hw = "home_writes ?l d"
  note r = log_readyD [OF rec [unfolded recoverable_def]] and disj = fst_home_writes [OF rec]
  show ?thesis
  proof (cases "m \<le> length ?hw")
    case True
    then have t: "take m (recovery_writes l d) = take m ?hw" by (simp add: recovery_writes_def)
    have same: "puts (take m ?hw) d j = d j" if "j \<in> log_region l" for j
      by (rule puts_take_other) (use disj that in blast)
    have "recover_disk l (puts (take m ?hw) d) = puts ?hw (puts (take m ?hw) d)"
      by (rule recover_disk_log [OF rec same])
    then show ?thesis by (simp add: t puts_again recover_disk_home)
  next
    case False
    then have t: "take m (recovery_writes l d) = recovery_writes l d" by (simp add: recovery_writes_def)
    have "recover_disk l (puts (recovery_writes l d) d) = puts (recovery_writes l d) d"
      by (rule recover_empty) (simp add: recovery_writes_def len)
    moreover have "puts (recovery_writes l d) d k = recover_disk l d k"
      using k r(6) by (auto simp: recovery_writes_def recover_disk_home)
    ultimately show ?thesis by (simp only: t)
  qed
qed

section \<open>A transaction is atomic\<close>

text \<open>At every crash point of a commit the disk can be recovered.\<close>

lemma disk_header_empty:
  "sint (get32 (d (log_start l)) 0) = 0 \<Longrightarrow> disk_header l d = (lh l)\<lparr>lh_n := 0\<rparr>"
  by (simp add: disk_header_def)

lemma log_ready_empty: "log_ready l \<Longrightarrow> log_ready (l\<lparr>lh := (lh l)\<lparr>lh_n := 0\<rparr>\<rparr>)"
  by (simp add: log_ready_def logged_blocks_def)

lemma log_ready_cong:
  assumes "log_ready l" and "log_size l' = log_size l" and "log_start l' = log_start l"
    and "length (lh_block (lh l')) = LOGSIZE" and "logged_blocks l' = logged_blocks l" and "lh_n (lh l') = lh_n (lh l)"
  shows "log_ready l'"
  using assms by (simp add: log_ready_def log_region_def)

lemma crash_header:
  assumes ready: "log_ready l"
  shows "puts (take m (commit_writes l v d)) d (log_start l) \<in>
    {d (log_start l), header_bytes (lh l) (d (log_start l)),
     header_bytes ((lh l)\<lparr>lh_n := 0\<rparr>) (header_bytes (lh l) (d (log_start l)))}"
proof -
  have "puts (take m (xs @ (st, a) # ys @ [(st, b)])) d st \<in> {d st, a, b}"
    if "st \<notin> fst ` set xs" "st \<notin> fst ` set ys" for xs ys m and st :: uint32 and a b and d :: disk
    using that by (auto simp: take_Cons' puts_take_other puts_other)
  moreover have "log_start l \<notin> fst ` set (log_writes l v)" "log_start l \<notin> fst ` set (new_home l v)"
    using fst_log_writes [OF ready, of v] log_readyD(6,7) [OF ready] by auto
  ultimately show ?thesis unfolding commit_writes_def append_Cons append_Nil by blast
qed

lemma crash_recoverable:
  assumes ready: "log_ready l" and len: "\<And>k. length (d k) = BSIZE"
    and empty: "sint (get32 (d (log_start l)) 0) = 0"
    and l0: "log_start l0 = log_start l" "log_size l0 = log_size l" "length (lh_block (lh l0)) = LOGSIZE"
  shows "recoverable l0 (puts (take m (commit_writes l v d)) d)"
proof -
  let ?d = "puts (take m (commit_writes l v d)) d" and ?st = "log_start l"
  let ?h = "header_bytes (lh l) (d ?st)"
  have n: "0 \<le> lh_n (lh l)" "lh_n (lh l) \<le> int LOGSIZE" and ll: "length (lh_block (lh l)) = LOGSIZE"
    using ready by (simp_all add: log_ready_def)
  consider "sint (get32 (?d ?st) 0) = 0" | "?d ?st = ?h"
    using crash_header [OF ready, of m v d] empty n len by auto
  then show ?thesis
  proof cases
    case 1
    then have "disk_header l0 ?d = (lh l0)\<lparr>lh_n := 0\<rparr>" by (simp add: disk_header_empty l0)
    then show ?thesis using ready l0 by (simp add: recoverable_def log_ready_def logged_blocks_def)
  next
    case 2
    have c: "sint (get32 ?h 0) = lh_n (lh l)" by (rule get32_header_bytes) (use n len in simp_all)
    have e: "get32 ?h (4 + 4 * i) = lh_block (lh l) ! i" if "i < nat (lh_n (lh l))" for i
      by (rule get32_header_bytes) (use n len that in simp_all)
    have "logged_blocks (l0\<lparr>lh := disk_header l0 ?d\<rparr>) = logged_blocks l"
      by (rule nth_equalityI) (use ll n c e in \<open>auto simp: logged_blocks_def disk_header_def Let_def l0 2 nth_append\<close>)
    then show ?thesis
      unfolding recoverable_def
      by (intro log_ready_cong [OF ready]) (use l0 n in \<open>simp_all add: disk_header_def Let_def 2 c\<close>)
  qed
qed

text \<open>
  C1. Crash safety of the log. A transaction has put blocks in the log and the log on the disk is
  empty. \<open>commit\<close> returns and brings every block outside the log to its new content. If the machine
  stops after any number \<open>m\<close> of the disk writes of the commit, and \<open>recover_from_log\<close> runs in a fresh
  kernel on what the disk then holds, it returns, and either every block outside the log has its
  content from before the transaction or every block has its new content. If that recovery is cut
  short in turn after \<open>m'\<close> writes, recovering again gives the same disk.
\<close>

theorem commit_crash_safe:
  assumes l: "klog s = l" "log_dev l = D" "log_ready l" "0 < lh_n (lh l)"
    and c: "cache p D (pins (logged_blocks l)) {} s" and empty: "sint (get32 (disk s (log_start l)) 0) = 0"
  shows "\<exists>s' ws. commit s = Ok ((), s') \<and> dtrace s' = dtrace s @ ws \<and> disk s' = puts ws (disk s) \<and>
    (\<forall>k. k \<notin> log_region l \<longrightarrow> disk s' k = view D s k) \<and>
    (\<forall>m q t. disk t = puts (take m ws) (disk s) \<and> cache q D (\<lambda>_. 0) {} t \<and> log_dev (klog t) = D \<and>
        log_start (klog t) = log_start l \<and> log_size (klog t) = log_size l \<and> length (lh_block (lh (klog t))) = LOGSIZE \<longrightarrow>
      (\<exists>t' ws'. recover_from_log t = Ok ((), t') \<and> dtrace t' = dtrace t @ ws' \<and>
        ((\<forall>k. k \<notin> log_region l \<longrightarrow> disk t' k = disk s k) \<or> (\<forall>k. k \<notin> log_region l \<longrightarrow> disk t' k = view D s k)) \<and>
        (\<forall>m' k. k \<notin> log_region l \<longrightarrow> recover_disk l (puts (take m' ws') (disk t)) k = disk t' k)))"
proof -
  let ?v = "view D s" and ?d = "disk s" and ?ws = "commit_writes l (view D s) (disk s)"
  note r = log_readyD [OF l(3)]
  have len: "length (?d k) = BSIZE" for k by (rule cache_disk [OF c])
  have n: "nat (lh_n (lh l)) \<le> LOGSIZE" using r(2) by simp
  have clean: "?v k = ?d k" if "k \<notin> set (logged_blocks l)" for k
    by (rule view_clean [OF c]) (use that in \<open>simp add: pins_def\<close>)
  obtain s' where s': "commit s = Ok ((), s')" "wrote p D (\<lambda>_. 0) ?ws s s'" by (rule commit_ok [OF l c])
  have fin: "disk s' k = ?v k" if "k \<notin> log_region l" for k
  proof -
    have "k \<notin> fst ` set (log_writes l ?v)" using that fst_log_writes [OF l(3), of ?v] by blast
    then have "puts (log_writes l ?v) ?d k = ?d k" by (rule puts_other)
    then show ?thesis using s'(2) that r(6) clean by (auto simp: wrote_def commit_writes_def puts_new_home)
  qed
  have rec: "\<exists>t' ws'. recover_from_log t = Ok ((), t') \<and> dtrace t' = dtrace t @ ws' \<and>
      ((\<forall>k. k \<notin> log_region l \<longrightarrow> disk t' k = disk s k) \<or> (\<forall>k. k \<notin> log_region l \<longrightarrow> disk t' k = view D s k)) \<and>
      (\<forall>m' k. k \<notin> log_region l \<longrightarrow> recover_disk l (puts (take m' ws') (disk t)) k = disk t' k)"
    if t: "disk t = puts (take m ?ws) ?d" "cache q D (\<lambda>_. 0) {} t" "log_dev (klog t) = D"
      "log_start (klog t) = log_start l" "log_size (klog t) = log_size l" "length (lh_block (lh (klog t))) = LOGSIZE" for m q t
  proof -
    have ok: "recoverable (klog t) (disk t)"
      unfolding t(1) by (rule crash_recoverable [OF l(3)]) (use t len empty in simp_all)
    obtain t' where t': "recover_from_log t = Ok ((), t')" "wrote q D (\<lambda>_. 0) (recovery_writes (klog t) (disk t)) t t'"
      by (rule recover_from_log_ok [OF refl t(3) ok t(2)])
    have lb: "log_block (klog t) = log_block l" and reg: "log_region (klog t) = log_region l"
      using t by (simp_all add: log_block_def log_region_def fun_eq_iff)
    have rd: "recover_disk (klog t) = recover_disk l" using t(4) lb by (simp add: recover_disk_def fun_eq_iff)
    have at: "disk t' k = recover_disk l (disk t) k" if "k \<notin> log_region l" for k
      using t'(2) that r(6) by (auto simp: wrote_def recovery_writes_def recover_disk_home t simp flip: rd)
    have "(\<forall>k. k \<notin> log_region l \<longrightarrow> recover_disk l (disk t) k = ?d k) \<or> (\<forall>k. k \<notin> log_region l \<longrightarrow> recover_disk l (disk t) k = ?v k)"
      unfolding t(1) commit_writes_def by (rule crash_point [OF l(3)]) (use len n empty clean in simp_all)
    moreover have "recover_disk l (puts (take m' (recovery_writes (klog t) (disk t))) (disk t)) k = disk t' k"
      if "k \<notin> log_region l" for m' k
      using recovery_crash_point [OF ok, of k m'] cache_disk [OF t(2)] that at by (simp add: rd reg)
    ultimately show ?thesis using t' at by (auto simp: wrote_def)
  qed
  show ?thesis
  proof (intro exI conjI)
    show "commit s = Ok ((), s')" "dtrace s' = dtrace s @ ?ws" "disk s' = puts ?ws ?d"
      "\<forall>k. k \<notin> log_region l \<longrightarrow> disk s' k = ?v k"
      using s' fin by (simp_all add: wrote_def)
  qed (intro allI impI, elim conjE, rule rec)
qed

end
