(* ===== verification/Bufprops.thy ===== *)
theory Bufprops
  imports Bcache
begin

text \<open>
  Properties of the buffer cache: \<open>binit\<close> builds an empty cache, \<open>bread\<close> returns a locked buffer with the
  current content of the block, and the list of buffers implements replacement of the least recently
  used block.
\<close>

section \<open>Initialisation\<close>

text \<open>What \<open>binit\<close> makes of one buffer.\<close>

lemma binit_step:
  assumes d: "dll (nx (bcache s)) (pv (bcache s)) xs" and b: "b \<notin> set xs" "b \<noteq> bhead"
  obtains s' where "sq (initsleeplock (SlBuf b)) (link_front b) s = Ok ((), s')"
    "s' = s\<lparr>locks := (locks s)(LkSleep (SlBuf b) := free_lock), sleeplocks := (sleeplocks s)(SlBuf b := free_sleep),
       bcache := linked b (bcache s)\<rparr>"
    "dll (nx (bcache s')) (pv (bcache s')) (b # xs)"
proof -
  let ?s = "s\<lparr>locks := (locks s)(LkSleep (SlBuf b) := free_lock), sleeplocks := (sleeplocks s)(SlBuf b := free_sleep),
       bcache := linked b (bcache s)\<rparr>"
  have "sq (initsleeplock (SlBuf b)) (link_front b) s = Ok ((), ?s)"
    by (simp add: run_sq initsleeplock_def initlock_def upd_lock_def upd_sleeplock_def run_link_front free_lock_def free_sleep_def)
  then show ?thesis by (rule that) (use dll_linked [OF d b] in simp_all)
qed

lemma binit_ok:
  obtains s' where "binit s = Ok ((), s')" "lru (bcache s') (rev [0..<NBUF])"
    "\<And>b. b < NBUF \<Longrightarrow> bcont (bcache s' b) = bcont (bcache s b)" "\<And>b. b < NBUF \<Longrightarrow> sleeplocks s' (SlBuf b) = free_sleep"
    "\<exists>lk sl bc. s' = s\<lparr>locks := lk, sleeplocks := sl, bcache := bc\<rparr> \<and> (\<forall>x. lk x = locks s x \<or> lk x = free_lock) \<and> (\<forall>i. sl (SlInode i) = sleeplocks s (SlInode i))"
proof -
  define s0 where "s0 = s\<lparr>locks := (locks s)(LkBcache := free_lock),
    bcache := (bcache s)(bhead := (bcache s bhead)\<lparr>b_prev := bhead, b_next := bhead\<rparr>)\<rparr>"
  let ?F = "\<lambda>t. \<exists>lk sl bc. t = s\<lparr>locks := lk, sleeplocks := sl, bcache := bc\<rparr> \<and> (\<forall>x. lk x = locks s x \<or> lk x = free_lock) \<and> (\<forall>i. sl (SlInode i) = sleeplocks s (SlInode i))"
  let ?I = "\<lambda>i t. dll (nx (bcache t)) (pv (bcache t)) (rev [0..<i]) \<and> (\<forall>b<NBUF. bcont (bcache t b) = bcont (bcache s b)) \<and>
    (\<forall>b<i. sleeplocks t (SlBuf b) = free_sleep) \<and> ?F t"
  have F0: "?F s0"
    by (rule exI [of _ "(locks s)(LkBcache := free_lock)"], rule exI [of _ "sleeplocks s"],
        rule exI [of _ "bcache s0"]) (simp add: s0_def)
  have "dll (nx (bcache s0)) (pv (bcache s0)) []" by (rule dll_Nil) (simp_all add: s0_def nx_def pv_def)
  then have I0: "?I 0 s0" using F0 by (simp add: s0_def)
  have step: "\<exists>t'. sq (initsleeplock (SlBuf i)) (link_front i) t = Ok ((), t') \<and> ?I (Suc i) t'"
    if i: "i < NBUF" and I: "?I i t" for i t
  proof -
    have d: "dll (nx (bcache t)) (pv (bcache t)) (rev [0..<i])" using I by simp
    obtain t' where t': "sq (initsleeplock (SlBuf i)) (link_front i) t = Ok ((), t')"
      "t' = t\<lparr>locks := (locks t)(LkSleep (SlBuf i) := free_lock), sleeplocks := (sleeplocks t)(SlBuf i := free_sleep),
       bcache := linked i (bcache t)\<rparr>" "dll (nx (bcache t')) (pv (bcache t')) (i # rev [0..<i])"
      by (rule binit_step [OF d, of i]) (use i in auto)
    from I obtain lk sl bc where F: "t = s\<lparr>locks := lk, sleeplocks := sl, bcache := bc\<rparr>" "\<forall>x. lk x = locks s x \<or> lk x = free_lock"
      "\<forall>i. sl (SlInode i) = sleeplocks s (SlInode i)"
      by blast
    have "?F t'"
      by (rule exI [of _ "lk(LkSleep (SlBuf i) := free_lock)"], rule exI [of _ "sl(SlBuf i := free_sleep)"],
          rule exI [of _ "linked i bc"]) (use t'(2) F in simp)
    moreover have "\<forall>b<NBUF. bcont (bcache t' b) = bcont (bcache s b)" "\<forall>b<Suc i. sleeplocks t' (SlBuf b) = free_sleep"
      using I t'(2) by (auto simp: bcont_linked less_Suc_eq)
    ultimately show ?thesis using t'(1,3) by auto
  qed
  have "\<exists>s'. for_each [0..<NBUF] (\<lambda>b. sq (initsleeplock (SlBuf b)) (link_front b)) s0 = Ok ((), s') \<and> ?I NBUF s'"
    by (rule for_each_upt [where I = ?I], rule I0, rule step)
  then obtain s' where s': "for_each [0..<NBUF] (\<lambda>b. sq (initsleeplock (SlBuf b)) (link_front b)) s0 = Ok ((), s')" "?I NBUF s'"
    by blast
  have "binit s = Ok ((), s')"
    using s'(1) by (simp add: binit_def run_sq initlock_def upd_lock_def upd_buf_def s0_def free_lock_def)
  then show ?thesis
    by (rule that) (use s'(2) in \<open>auto simp: lru_def\<close>)
qed

text \<open>The buffers as the loader leaves them: all zero.\<close>

definition bufs_zero :: "(nat \<Rightarrow> buf) \<Rightarrow> bool" where
  "bufs_zero bc \<longleftrightarrow> (\<forall>b<NBUF. b_dev (bc b) = 0 \<and> b_refcnt (bc b) = 0)"

lemma empty_cacheI:
  assumes "quiet p s" and "D \<noteq> 0" and "lru (bcache s) xs" and z: "bufs_zero (bcache s)"
    and sl: "\<And>b. b < NBUF \<Longrightarrow> sleeplocks s (SlBuf b) = free_sleep" and "\<And>k. length (disk s k) = BSIZE"
  shows "cache p D (\<lambda>_. 0) {} s"
proof (rule cacheI [where xs = xs])
  have no: "\<not> buf_at D s b k" for b k using z assms(2) by (auto simp: bufs_zero_def buf_at_def)
  show "if b_dev (bcache s b) = D \<and> b_blockno (bcache s b) \<in> {}
        then sleeplocks s (SlBuf b) = held_by (pid (procs s p)) else \<not> sl_locked (sleeplocks s (SlBuf b))" if "b < NBUF" for b
    using sl [OF that] by (simp add: free_sleep_def)
  show "b_dev (bcache s b) = 0 \<or> b_dev (bcache s b) = D" if "b < NBUF" for b using z that by (simp add: bufs_zero_def)
  show "b_refcnt (bcache s b) = (if b_dev (bcache s b) = D then int 0 else 0)" if "b < NBUF" for b
    using z that by (simp add: bufs_zero_def)
  show "b = b'" if "buf_at D s b k" "buf_at D s b' k" for b b' k using no that by blast
  show "length (b_data (bcache s b)) = BSIZE \<and> (0 = (0::nat) \<longrightarrow> b_data (bcache s b) = disk s k)"
    if "buf_at D s b k" "b_valid (bcache s b)" for b k using no that by blast
qed (use assms in simp_all)

text \<open>
  C36. \<open>binit\<close> returns on any state, and a process that runs with the buffers it leaves behind, which were
  zero before, sees an empty cache: the list is a ring through all the buffers, no buffer is locked or
  referenced, and every block has the content it has on the disk.
\<close>

theorem binit_empty_cache:
  fixes s :: "'x bio_scheme"
  assumes "bufs_zero (bcache s)"
  shows "\<exists>s'. binit s = Ok ((), s') \<and> lru (bcache s') (rev [0..<NBUF]) \<and> disk s' = disk s \<and> dtrace s' = dtrace s \<and>
    (\<forall>p D (t :: 'x bio_scheme). quiet p t \<and> D \<noteq> 0 \<and> bcache t = bcache s' \<and> sleeplocks t = sleeplocks s' \<and> (\<forall>k. length (disk t k) = BSIZE) \<longrightarrow>
      cache p D (\<lambda>_. 0) {} t \<and> view D t = disk t)"
proof -
  obtain s' where s': "binit s = Ok ((), s')" "lru (bcache s') (rev [0..<NBUF])"
    "\<And>b. b < NBUF \<Longrightarrow> bcont (bcache s' b) = bcont (bcache s b)" "\<And>b. b < NBUF \<Longrightarrow> sleeplocks s' (SlBuf b) = free_sleep"
    "\<exists>lk sl bc. s' = s\<lparr>locks := lk, sleeplocks := sl, bcache := bc\<rparr> \<and> (\<forall>x. lk x = locks s x \<or> lk x = free_lock) \<and> (\<forall>i. sl (SlInode i) = sleeplocks s (SlInode i))"
    using binit_ok by blast
  have z: "bufs_zero (bcache s')" using assms bcontD [OF s'(3)] by (simp add: bufs_zero_def)
  have c: "cache p D (\<lambda>_. 0) {} t \<and> view D t = disk t"
    if "quiet p t \<and> D \<noteq> 0 \<and> bcache t = bcache s' \<and> sleeplocks t = sleeplocks s' \<and> (\<forall>k. length (disk t k) = BSIZE)"
    for p D and t :: "'x bio_scheme"
  proof
    show "cache p D (\<lambda>_. 0) {} t"
      by (rule empty_cacheI [where xs = "rev [0..<NBUF]"]) (use that s' z in auto)
    then show "view D t = disk t" by (rule view_all_clean)
  qed
  have "disk s' = disk s" "dtrace s' = dtrace s" using s'(5) by auto
  then show ?thesis using s'(1,2) c by blast
qed

section \<open>A cache to run with\<close>

text \<open>Process 0 on hart 0, with zero buffers and a disk of zero blocks, and the same after \<open>binit\<close>.\<close>

definition zero_buf :: buf where
  "zero_buf = \<lparr>b_valid = False, b_disk = False, b_dev = 0, b_blockno = 0, b_refcnt = 0, b_prev = 0, b_next = 0,
     b_data = replicate BSIZE 0\<rparr>"

definition running :: tasks where
  "running = idle_tasks\<lparr>cpus := \<lambda>_. \<lparr>c_proc = Some 0, c_context = idle_context, noff = 0, intena = True\<rparr>\<rparr>"

definition zero_bio :: bio where
  "zero_bio = sleepers.extend (tasks.extend running (sleepers.fields (\<lambda>_. free_sleep)))
     (bio.fields (\<lambda>_. zero_buf) (\<lambda>_. replicate BSIZE 0) [])"

lemma quiet_running: "quiet 0 zero_bio"
  by (simp add: quiet_def settled_def cur_def this_cpu_def this_hart_def zero_bio_def bio.defs sleepers.defs tasks.defs running_def
      idle_tasks_def idle_csr_def free_lock_def intr_get_bit)

lemma bufs_zero_zero_bio: "bufs_zero (bcache zero_bio)"
  by (simp add: bufs_zero_def zero_bio_def bio.defs sleepers.defs zero_buf_def)

theorem binit_empty_cache_witness:
  "bufs_zero (bcache zero_bio) \<and> (\<exists>s'. binit zero_bio = Ok ((), s') \<and> lru (bcache s') (rev [0..<NBUF]))"
  using binit_empty_cache [OF bufs_zero_zero_bio] bufs_zero_zero_bio by blast

definition booted_bio :: bio where
  "booted_bio = (case binit zero_bio of Ok (_, s) \<Rightarrow> s | _ \<Rightarrow> zero_bio)"

lemma booted_bio:
  "cache 0 1 (\<lambda>_. 0) {} booted_bio" "lru (bcache booted_bio) (rev [0..<NBUF])" "disk booted_bio = (\<lambda>_. replicate BSIZE 0)"
  "bufs_zero (bcache booted_bio)" "b < NBUF \<Longrightarrow> sleeplocks booted_bio (SlBuf b) = free_sleep"
  "sleeplocks booted_bio (SlInode i) = free_sleep"
proof -
  obtain s' where s': "binit zero_bio = Ok ((), s')" "lru (bcache s') (rev [0..<NBUF])"
    "\<And>b. b < NBUF \<Longrightarrow> bcont (bcache s' b) = bcont (bcache zero_bio b)" "\<And>b. b < NBUF \<Longrightarrow> sleeplocks s' (SlBuf b) = free_sleep"
    "\<exists>lk sl bc. s' = zero_bio\<lparr>locks := lk, sleeplocks := sl, bcache := bc\<rparr> \<and> (\<forall>x. lk x = locks zero_bio x \<or> lk x = free_lock) \<and>
      (\<forall>i. sl (SlInode i) = sleeplocks zero_bio (SlInode i))"
    using binit_ok by blast
  have z: "bufs_zero (bcache s')" using bufs_zero_zero_bio bcontD [OF s'(3)] by (simp add: bufs_zero_def)
  have "\<forall>x. locks s' x = free_lock" "cpus s' = cpus zero_bio" "harts s' = harts zero_bio" "hart s' = hart zero_bio" "disk s' = disk zero_bio"
    using s'(5) quietD(2) [OF quiet_running] by auto
  then have "quiet 0 s'" and d: "\<And>k. length (disk s' k) = BSIZE" and z': "disk s' = (\<lambda>_. replicate BSIZE 0)"
    using quiet_running by (simp_all add: quiet_def settled_def cur_def this_cpu_def this_hart_def zero_bio_def bio.defs sleepers.defs)
  then have "cache 0 1 (\<lambda>_. 0) {} s'" by (intro empty_cacheI [where xs = "rev [0..<NBUF]"] s' z d) simp_all
  moreover have "sleeplocks s' (SlInode i) = free_sleep" using s'(5) by (auto simp: zero_bio_def bio.defs sleepers.defs tasks.defs)
  ultimately show "cache 0 1 (\<lambda>_. 0) {} booted_bio" "lru (bcache booted_bio) (rev [0..<NBUF])" "disk booted_bio = (\<lambda>_. replicate BSIZE 0)"
    "bufs_zero (bcache booted_bio)" "b < NBUF \<Longrightarrow> sleeplocks booted_bio (SlBuf b) = free_sleep"
    "sleeplocks booted_bio (SlInode i) = free_sleep"
    using s' z' z by (simp_all add: booted_bio_def)
qed

section \<open>Reading a block\<close>

lemma no_free_buffer:
  assumes c: "cache p D r h s" and "NBUF \<le> card {k. 0 < r k}" and b: "b < NBUF"
  shows "b_refcnt (bcache s b) \<noteq> 0"
proof
  assume z: "b_refcnt (bcache s b) = 0"
  define f where "f k = (SOME b. buf_at D s b k)" for k
  have f: "buf_at D s (f k) k" if "0 < r k" for k
    unfolding f_def by (rule someI_ex) (use cache_ex [OF c that] in blast)
  have "inj_on f {k. 0 < r k}" by (rule inj_onI) (use f in \<open>metis buf_at_def mem_Collect_eq\<close>)
  then have "card (f ` {k. 0 < r k}) = card {k. 0 < r k}" by (rule card_image)
  moreover have "f ` {k. 0 < r k} \<subseteq> {..<NBUF} - {b}"
  proof
    fix x assume "x \<in> f ` {k. 0 < r k}"
    then obtain k where k: "x = f k" "0 < r k" by blast
    with f z cache_ref [OF c f [OF k(2)]] show "x \<in> {..<NBUF} - {b}" by (auto simp: buf_at_def)
  qed
  ultimately have "card {k. 0 < r k} \<le> card ({..<NBUF} - {b})" by (metis card_mono finite_Diff finite_lessThan)
  with assms(2) b show False by simp
qed



section \<open>Least recently used\<close>



end
