(* ===== verification/Txn.thy ===== *)
theory Txn
  imports Crash Bufprops
begin

text \<open>
  What the log promises to the file system. Between \<open>begin_op\<close> and \<open>end_op\<close> a process changes blocks in
  the cache and records them with \<open>log_write\<close>; the cache keeps them until the commit, which \<open>end_op\<close>
  of the last process in the transaction runs.
\<close>

section \<open>log_write\<close>

lemma log_slot_cases:
  assumes "length (lh_block h) = LOGSIZE" and "nat (lh_n h) \<le> LOGSIZE"
  shows "log_slot h k = nat (lh_n h) \<and> k \<notin> set (take (nat (lh_n h)) (lh_block h)) \<or>
    log_slot h k < nat (lh_n h) \<and> lh_block h ! log_slot h k = k"
proof (cases "find (\<lambda>i. lh_block h ! i = k) [0..<nat (lh_n h)]")
  case None
  then have "log_slot h k = nat (lh_n h)" by (simp add: log_slot_def)
  moreover have "lh_block h ! i \<noteq> k" if "i < nat (lh_n h)" for i
    using None that by (simp add: find_None_iff)
  ultimately show ?thesis using assms by (auto simp: in_set_conv_nth)
next
  case (Some i)
  then have "log_slot h k = i" by (simp add: log_slot_def)
  with find_Some_set [OF Some] show ?thesis by auto
qed

text \<open>The state that \<open>log_write\<close> leaves for block \<open>k\<close> in buffer \<open>b\<close>.\<close>

definition log_added :: "nat \<Rightarrow> 'x logged_scheme \<Rightarrow> 'x logged_scheme" where
  "log_added b s = (let h = lh (klog s); k = b_blockno (bcache s b); i = log_slot h k in
     if int i = lh_n h
     then s\<lparr>bcache := (bcache s)(b := (bcache s b)\<lparr>b_refcnt := b_refcnt (bcache s b) + 1\<rparr>),
       klog := (klog s)\<lparr>lh := h\<lparr>lh_block := (lh_block h)[i := k], lh_n := lh_n h + 1\<rparr>\<rparr>\<rparr>
     else s\<lparr>klog := (klog s)\<lparr>lh := h\<lparr>lh_block := (lh_block h)[i := k]\<rparr>\<rparr>\<rparr>)"

lemma run_log_write:
  assumes q: "quiet p s"
  shows "log_write b s =
    (if lh_n (lh (klog s)) \<ge> int LOGSIZE \<or> lh_n (lh (klog s)) \<ge> log_size (klog s) - 1 then Panic ''too big a transaction''
     else if outstanding (klog s) < 1 then Panic ''log_write outside of trans''
     else Ok ((), log_added b s))"
proof -
  let ?u = "lockd LkLog s" and ?h = "lh (klog s)" and ?k = "b_blockno (bcache s b)"
  let ?i = "log_slot ?h ?k"
  let ?l = "(klog s)\<lparr>lh := ?h\<lparr>lh_block := (lh_block ?h)[?i := ?k]\<rparr>\<rparr>"
  let ?v = "?u\<lparr>klog := ?l\<rparr>"
  have f: "klog ?u = klog s" "bcache ?u = bcache s" by (simp_all add: lockd_def)
  have st: "settled ?v" "locks ?v LkBcache = free_lock"
    using quietD(1,2) [OF q] settled_lockd [of s LkLog] by (simp_all add: settled_def this_cpu_def this_hart_def)
  have pin: "bpin b ?v = Ok ((), ?v\<lparr>bcache := (bcache s)(b := (bcache s b)\<lparr>b_refcnt := b_refcnt (bcache s b) + 1\<rparr>)\<rparr>)"
    unfolding bpin_def using run_upd_section [OF st, of b] by (simp add: f)
  have rel: "release LkLog t = Ok ((), t\<lparr>cpus := cpus s, harts := harts s, locks := locks s\<rparr>)"
    if "cpus t = cpus ?u" "harts t = harts ?u" "hart t = hart s" "locks t = locks ?u" for t
    by (rule run_release) (use q that in auto)
  have "release LkLog (?v\<lparr>bcache := (bcache s)(b := (bcache s b)\<lparr>b_refcnt := b_refcnt (bcache s b) + 1\<rparr>),
      klog := (klog s)\<lparr>lh := ?h\<lparr>lh_block := (lh_block ?h)[?i := ?k], lh_n := lh_n ?h + 1\<rparr>\<rparr>\<rparr>) = Ok ((), log_added b s)"
    if "int ?i = lh_n ?h"
    using that by (subst rel) (simp_all add: log_added_def lockd_def Let_def)
  moreover have "release LkLog ?v = Ok ((), log_added b s)" if "int ?i \<noteq> lh_n ?h"
    using that by (subst rel) (simp_all add: log_added_def lockd_def Let_def)
  ultimately show ?thesis
    using run_acquire [OF quietD(2) [OF q, of LkLog]] pin
    by (auto simp: log_write_def run_sq run_bnd get_log_def get_buf_def upd_log_def set_lh_n_def f Let_def)
qed

section \<open>The state inside a transaction\<close>

text \<open>Every logged block is pinned once, and every block the process holds has one more reference.\<close>

definition txrefs :: "uint32 list \<Rightarrow> uint32 set \<Rightarrow> uint32 \<Rightarrow> nat" where
  "txrefs bs h k = (if k \<in> set bs then 1 else 0) + (if k \<in> h then 1 else 0)"

definition intx :: "nat \<Rightarrow> uint32 \<Rightarrow> uint32 set \<Rightarrow> 'x logged_scheme \<Rightarrow> bool" where
  "intx p D h s \<longleftrightarrow> log_ready (klog s) \<and> log_dev (klog s) = D \<and> 0 < outstanding (klog s) \<and> \<not> committing (klog s) \<and>
     cache p D (txrefs (logged_blocks (klog s)) h) h s"

lemma intxD:
  assumes "intx p D h s"
  shows intx_ready: "log_ready (klog s)" and intx_dev: "log_dev (klog s) = D" and intx_out: "0 < outstanding (klog s)"
    and intx_cache: "cache p D (txrefs (logged_blocks (klog s)) h) h s" and intx_comm: "\<not> committing (klog s)"
  using assms by (simp_all add: intx_def)

text \<open>What a run inside the transaction leaves alone.\<close>

definition lframe :: "'x logged_scheme \<Rightarrow> 'x logged_scheme \<Rightarrow> bool" where
  "lframe s s' \<longleftrightarrow> bframe (s\<lparr>klog := klog s'\<rparr>) s' \<and> (\<exists>h. klog s' = (klog s)\<lparr>lh := h\<rparr>)"

lemma lframe_refl [simp]: "lframe s s"
proof -
  have "klog s = (klog s)\<lparr>lh := lh (klog s)\<rparr>" by simp
  then have "\<exists>h. klog s = (klog s)\<lparr>lh := h\<rparr>" by blast
  then show ?thesis by (simp add: lframe_def)
qed

lemma bframe_lframe: "bframe s s' \<Longrightarrow> lframe s s'"
proof -
  assume b: "bframe s s'"
  then have "klog s' = (klog s)\<lparr>lh := lh (klog s)\<rparr>" using bframe_klog by simp
  then have "\<exists>h. klog s' = (klog s)\<lparr>lh := h\<rparr>" by blast
  with b bframe_klog [OF b] show ?thesis by (simp add: lframe_def)
qed

lemma lframe_trans [trans]:
  assumes "lframe s t" and "lframe t u"
  shows "lframe s u"
proof -
  have "bframe (s\<lparr>klog := klog u\<rparr>) (t\<lparr>klog := klog u\<rparr>)"
    using bframe_klog_cong [of "s\<lparr>klog := klog t\<rparr>" t "klog u"] assms(1) by (simp add: lframe_def)
  then have "bframe (s\<lparr>klog := klog u\<rparr>) u" using assms(2) by (auto simp: lframe_def intro: bframe_trans)
  moreover obtain h h' where "klog t = (klog s)\<lparr>lh := h\<rparr>" "klog u = (klog t)\<lparr>lh := h'\<rparr>" using assms by (auto simp: lframe_def)
  then have "klog u = (klog s)\<lparr>lh := h'\<rparr>" by simp
  ultimately show ?thesis unfolding lframe_def by blast
qed

lemma logged_added:
  assumes r: "log_ready l" and "lh_n (lh l) < log_size l - 1" and k: "k \<notin> log_region l"
  defines "i \<equiv> log_slot (lh l) k"
  defines "l' \<equiv> l\<lparr>lh := (if int i = lh_n (lh l) then (lh l)\<lparr>lh_block := (lh_block (lh l))[i := k], lh_n := lh_n (lh l) + 1\<rparr>
     else (lh l)\<lparr>lh_block := (lh_block (lh l))[i := k]\<rparr>)\<rparr>"
  shows "log_ready l'"
    and "logged_blocks l' = (if k \<in> set (logged_blocks l) then logged_blocks l else logged_blocks l @ [k])"
    and "int i = lh_n (lh l) \<longleftrightarrow> k \<notin> set (logged_blocks l)"
proof -
  note rd = log_readyD [OF r]
  have ll: "length (lh_block (lh l)) = LOGSIZE" "0 \<le> lh_n (lh l)" "nat (lh_n (lh l)) < LOGSIZE" "log_size l \<le> int LOGSIZE"
    using r rd(2) by (simp_all add: log_ready_def)
  have c: "i = nat (lh_n (lh l)) \<and> k \<notin> set (logged_blocks l) \<or> i < nat (lh_n (lh l)) \<and> lh_block (lh l) ! i = k"
    using log_slot_cases [of "lh l" k] ll by (auto simp: i_def logged_blocks_def)
  have mem: "k \<in> set (logged_blocks l)" if "i < nat (lh_n (lh l))" "lh_block (lh l) ! i = k"
    using that ll by (auto simp: logged_blocks_def in_set_conv_nth)
  show e: "int i = lh_n (lh l) \<longleftrightarrow> k \<notin> set (logged_blocks l)" using c mem ll by auto
  show b: "logged_blocks l' = (if k \<in> set (logged_blocks l) then logged_blocks l else logged_blocks l @ [k])"
  proof (cases "int i = lh_n (lh l)")
    case True
    then have "i = nat (lh_n (lh l))" by simp
    then show ?thesis using True e ll
      by (simp add: l'_def logged_blocks_def nat_add_distrib take_Suc_conv_app_nth)
  next
    case False
    with c have "lh_block (lh l) ! i = k" using ll by auto
    then have "(lh_block (lh l))[i := k] = lh_block (lh l)" by auto
    then show ?thesis using False e by (simp add: l'_def logged_blocks_def)
  qed
  show "log_ready l'"
    using r b e assms(2) ll k unfolding log_ready_def l'_def by auto
qed

lemma log_write_ok:
  assumes t: "intx p D h s" and at: "buf_at D s b k" and k: "k \<in> h" "k \<notin> log_region (klog s)"
    and room: "lh_n (lh (klog s)) < log_size (klog s) - 1"
  obtains s' where "log_write b s = Ok ((), s')" "intx p D h s'" "view D s' = view D s" "disk s' = disk s" "dtrace s' = dtrace s"
    "lframe s s'" "buf_at D s' = buf_at D s"
    "logged_blocks (klog s') = (if k \<in> set (logged_blocks (klog s)) then logged_blocks (klog s) else logged_blocks (klog s) @ [k])"
proof -
  let ?l = "klog s" and ?bs = "logged_blocks (klog s)"
  let ?i = "log_slot (lh ?l) k"
  note c = intx_cache [OF t] and r = intx_ready [OF t] and add = logged_added [OF intx_ready [OF t] room k(2)]
  have bk: "b_blockno (bcache s b) = k" using at by (simp add: buf_at_def)
  have "log_size ?l \<le> int LOGSIZE" using r by (simp add: log_ready_def)
  then have run: "log_write b s = Ok ((), log_added b s)"
    using run_log_write [OF cache_quiet [OF c], of b] room intx_out [OF t] by simp
  show ?thesis
  proof (cases "int ?i = lh_n (lh ?l)")
    case True
    define s1 where "s1 = s\<lparr>bcache := (bcache s)(b := (bcache s b)\<lparr>b_refcnt := int (Suc (txrefs ?bs h k))\<rparr>)\<rparr>"
    define l' where "l' = ?l\<lparr>lh := (lh ?l)\<lparr>lh_block := (lh_block (lh ?l))[?i := k], lh_n := lh_n (lh ?l) + 1\<rparr>\<rparr>"
    have nin: "k \<notin> set ?bs" using add(3) True by simp
    have pos: "0 < txrefs ?bs h k" using k by (simp add: txrefs_def)
    note ref = set_ref_ok [OF c at pos, of "Suc (txrefs ?bs h k)", folded s1_def, simplified]
    have "(txrefs ?bs h)(k := Suc (txrefs ?bs h k)) = txrefs (?bs @ [k]) h" using nin by (auto simp: txrefs_def)
    then have c1: "cache p D (txrefs (?bs @ [k]) h) h s1" using ref(1) by simp
    have s': "log_added b s = s1\<lparr>klog := l'\<rparr>"
      using True cache_ref [OF c at] by (simp add: log_added_def Let_def bk s1_def l'_def add.commute)
    have l': "log_ready l'" "logged_blocks l' = ?bs @ [k]" using add True nin by (simp_all add: l'_def)
    have at1: "buf_at D s1 = buf_at D s" by (auto simp: s1_def buf_at_def fun_eq_iff)
    have fr: "lframe s (s1\<lparr>klog := l'\<rparr>)"
      using bframe_klog_cong [OF ref(4)] by (auto simp: lframe_def l'_def)
    show ?thesis
      using run unfolding s'
      by (rule that) (use t c1 l' ref nin fr at1 in \<open>auto simp: intx_def l'_def\<close>)
  next
    case False
    define l' where "l' = ?l\<lparr>lh := (lh ?l)\<lparr>lh_block := (lh_block (lh ?l))[?i := k]\<rparr>\<rparr>"
    have s': "log_added b s = s\<lparr>klog := l'\<rparr>" using False by (simp add: log_added_def Let_def bk l'_def)
    have inn: "k \<in> set ?bs" using add(3) False by simp
    have l': "log_ready l'" "logged_blocks l' = ?bs" using add False inn by (simp_all add: l'_def)
    have fr: "lframe s (s\<lparr>klog := l'\<rparr>)" by (auto simp: lframe_def l'_def)
    show ?thesis
      using run unfolding s'
      by (rule that) (use t c l' inn fr in \<open>auto simp: intx_def l'_def\<close>)
  qed
qed

section \<open>begin_op and end_op\<close>

lemma sq_ret_unit: "sq m (ret ()) = m"
proof -
  have "(\<lambda>_. ret ()) = ret" by auto
  then show ?thesis by (simp add: sq_def bnd_ret_right)
qed

lemma run_begin_op:
  assumes q: "quiet p s"
  shows "begin_op s = (if committing (klog s) \<or>
      lh_n (lh (klog s)) + (outstanding (klog s) + 1) * int MAXOPBLOCKS > int LOGSIZE then Sleep ChanLog
    else Ok ((), s\<lparr>klog := (klog s)\<lparr>outstanding := outstanding (klog s) + 1\<rparr>\<rparr>))"
proof -
  let ?u = "lockd LkLog s" and ?l = "(klog s)\<lparr>outstanding := outstanding (klog s) + 1\<rparr>"
  have f: "klog ?u = klog s" by (simp add: lockd_def)
  have "release LkLog (?u\<lparr>klog := ?l\<rparr>) = Ok ((), ?u\<lparr>klog := ?l\<rparr>\<lparr>cpus := cpus s, harts := harts s, locks := locks s\<rparr>)"
    by (rule run_release) (use q in auto)
  moreover have "?u\<lparr>klog := ?l\<rparr>\<lparr>cpus := cpus s, harts := harts s, locks := locks s\<rparr> = s\<lparr>klog := ?l\<rparr>"
    by (simp add: lockd_def)
  ultimately show ?thesis
    using run_acquire [OF quietD(2) [OF q, of LkLog]]
    by (simp add: begin_op_def run_sq run_bnd get_log_def upd_log_def f)
qed

lemma woken_klog [simp]: "klog (woken ch s) = klog s" "woken ch (s\<lparr>klog := l\<rparr>) = (woken ch s)\<lparr>klog := l\<rparr>"
  by (simp_all add: woken_def cur_def this_cpu_def)

text \<open>A section of the log lock that changes the log and may wake the processes waiting for it.\<close>

lemma log_section:
  assumes q: "quiet p s"
  shows "sq (acquire LkLog) (sq (upd_log f) (sq (wakeup ChanLog) (release LkLog))) s =
      Ok ((), woken ChanLog (s\<lparr>klog := f (klog s)\<rparr>))"
proof -
  let ?u = "lockd LkLog s" and ?l = "f (klog s)"
  let ?v = "?u\<lparr>klog := ?l\<rparr>"
  have f: "klog ?u = klog s" by (simp add: lockd_def)
  have "settled ?v" using settled_lockd [OF quietD(1) [OF q], of LkLog] by (simp add: settled_def this_cpu_def this_hart_def)
  then have w: "wakeup ChanLog ?v = Ok ((), woken ChanLog ?v)" by (rule run_wakeup) (use q in auto)
  have "release LkLog (woken ChanLog ?v) = Ok ((), (woken ChanLog ?v)\<lparr>cpus := cpus s, harts := harts s, locks := locks s\<rparr>)"
    by (rule run_release) (use q in \<open>auto simp: woken_def\<close>)
  moreover have "(woken ChanLog ?v)\<lparr>cpus := cpus s, harts := harts s, locks := locks s\<rparr> = woken ChanLog (s\<lparr>klog := ?l\<rparr>)"
    by (simp add: woken_def cur_def this_cpu_def lockd_def pushed_def)
  ultimately show ?thesis
    using run_acquire [OF quietD(2) [OF q, of LkLog]] w by (simp add: run_sq upd_log_def f)
qed

lemma run_end_op:
  assumes q: "quiet p s" and nc: "\<not> committing (klog s)"
  shows "end_op s = (let l = (klog s)\<lparr>outstanding := outstanding (klog s) - 1\<rparr> in
     if outstanding l = 0
     then sq commit (sq (acquire LkLog) (sq (upd_log (\<lambda>l. l\<lparr>committing := False\<rparr>)) (sq (wakeup ChanLog) (release LkLog))))
       (s\<lparr>klog := l\<lparr>committing := True\<rparr>\<rparr>)
     else Ok ((), woken ChanLog (s\<lparr>klog := l\<rparr>)))"
proof -
  let ?u = "lockd LkLog s" and ?l = "(klog s)\<lparr>outstanding := outstanding (klog s) - 1\<rparr>"
  have f: "klog ?u = klog s" by (simp add: lockd_def)
  note a = run_acquire [OF quietD(2) [OF q, of LkLog]]
  show ?thesis
  proof (cases "outstanding ?l = 0")
    case True
    let ?v = "?u\<lparr>klog := ?l\<lparr>committing := True\<rparr>\<rparr>"
    have "release LkLog ?v = Ok ((), ?v\<lparr>cpus := cpus s, harts := harts s, locks := locks s\<rparr>)"
      by (rule run_release) (use q in auto)
    moreover have "?v\<lparr>cpus := cpus s, harts := harts s, locks := locks s\<rparr> = s\<lparr>klog := ?l\<lparr>committing := True\<rparr>\<rparr>"
      by (simp add: lockd_def)
    ultimately show ?thesis
      using a nc True by (simp add: end_op_def run_sq run_bnd get_log_def upd_log_def f Let_def)
  next
    case False
    have "end_op s = sq (acquire LkLog) (sq (upd_log (\<lambda>l. l\<lparr>outstanding := outstanding l - 1\<rparr>)) (sq (wakeup ChanLog) (release LkLog))) s"
      using a nc False by (simp add: end_op_def run_sq run_bnd get_log_def upd_log_def f Let_def sq_ret_unit)
    also have "\<dots> = Ok ((), woken ChanLog (s\<lparr>klog := ?l\<rparr>))" by (rule log_section [OF q])
    finally show ?thesis using False by simp
  qed
qed

text \<open>No transaction is open, and the cache holds nothing that the disk does not.\<close>

definition notx :: "nat \<Rightarrow> uint32 \<Rightarrow> 'x logged_scheme \<Rightarrow> bool" where
  "notx p D s \<longleftrightarrow> log_ready (klog s) \<and> log_dev (klog s) = D \<and> lh_n (lh (klog s)) = 0 \<and> outstanding (klog s) = 0 \<and>
     \<not> committing (klog s) \<and> sint (get32 (disk s (log_start (klog s))) 0) = 0 \<and> cache p D (\<lambda>_. 0) {} s"

lemma begin_op_ok:
  assumes n: "notx p D s"
  shows "begin_op s = Ok ((), s\<lparr>klog := (klog s)\<lparr>outstanding := 1\<rparr>\<rparr>)"
    and "intx p D {} (s\<lparr>klog := (klog s)\<lparr>outstanding := 1\<rparr>\<rparr>)"
proof -
  have c: "cache p D (\<lambda>_. 0) {} s" using n by (simp add: notx_def)
  show "begin_op s = Ok ((), s\<lparr>klog := (klog s)\<lparr>outstanding := 1\<rparr>\<rparr>)"
    using run_begin_op [OF cache_quiet [OF c]] n by (simp add: notx_def LOGSIZE_def MAXOPBLOCKS_def)
  have "logged_blocks ((klog s)\<lparr>outstanding := 1\<rparr>) = []" "txrefs [] {} = (\<lambda>_. 0)"
    using n by (auto simp: notx_def logged_blocks_def txrefs_def)
  then show "intx p D {} (s\<lparr>klog := (klog s)\<lparr>outstanding := 1\<rparr>\<rparr>)"
    using n by (simp add: notx_def intx_def log_ready_def log_region_def logged_blocks_def)
qed

lemma cache_cong:
  assumes c: "cache p D r h s" and "bcache t = bcache s" "sleeplocks t = sleeplocks s" "disk t = disk s" "quiet p t" "pid (procs t p) = pid (procs s p)"
  shows "cache p D r h t"
  using assms unfolding cache_def buf_at_def by simp

lemma end_op_ok:
  assumes t: "intx p D {} s" and one: "outstanding (klog s) = 1"
    and empty: "sint (get32 (disk s (log_start (klog s))) 0) = 0"
  obtains s' where "end_op s = Ok ((), s')" "notx p D s'" "\<And>k. k \<notin> log_region (klog s) \<Longrightarrow> disk s' k = view D s k"
    "dtrace s' = dtrace s @ (if lh_n (lh (klog s)) = 0 then [] else commit_writes (klog s) (view D s) (disk s))"
    "log_start (klog s') = log_start (klog s)" "log_size (klog s') = log_size (klog s)" "bframe (s\<lparr>klog := klog s'\<rparr>) s'"
proof -
  let ?l = "(klog s)\<lparr>outstanding := 0, committing := True\<rparr>"
  let ?s = "s\<lparr>klog := ?l\<rparr>"
  let ?ws = "if lh_n (lh (klog s)) = 0 then [] else commit_writes (klog s) (view D s) (disk s)"
  note c = intx_cache [OF t] and r = intx_ready [OF t]
  have lb: "logged_blocks ?l = logged_blocks (klog s)" "log_region ?l = log_region (klog s)" "log_block ?l = log_block (klog s)"
    by (simp_all add: logged_blocks_def log_region_def log_block_def fun_eq_iff)
  have rl: "log_ready ?l" using r by (simp add: log_ready_def lb)
  have n0: "0 \<le> lh_n (lh (klog s))" using r by (simp add: log_ready_def)
  have tx: "txrefs bs {} = pins bs" for bs by (auto simp: txrefs_def pins_def)
  have cw: "commit_writes ?l = commit_writes (klog s)"
    by (simp add: commit_writes_def log_writes_def new_home_def lb fun_eq_iff)
  have cs: "cache p D (pins (logged_blocks (klog s))) {} ?s" using c by (simp add: tx)
  obtain s1 where 1: "commit ?s = Ok ((), s1)" "wrote p D (\<lambda>_. 0) ?ws ?s s1" "klog s1 = ?l\<lparr>lh := (lh ?l)\<lparr>lh_n := 0\<rparr>\<rparr>"
  proof (cases "lh_n (lh (klog s)) = 0")
    case True
    then have "pins (logged_blocks (klog s)) = (\<lambda>_. 0)" by (auto simp: pins_def logged_blocks_def)
    then have "wrote p D (\<lambda>_. 0) ?ws ?s ?s" using cs True by (simp add: wrote_refl)
    moreover have "(lh (klog s))\<lparr>lh_n := 0\<rparr> = lh (klog s)" using True by (metis logheader.surjective logheader.update_convs(1))
    moreover have "commit ?s = Ok ((), ?s)" using True by (simp add: commit_def get_log_def)
    ultimately show ?thesis by (intro that [of ?s]) simp_all
  next
    case False
    show ?thesis
      by (rule commit_ok [of ?s ?l D p]) (use False n0 cs rl intx_dev [OF t] that in \<open>auto simp: lb cw\<close>)
  qed
  define l2 where "l2 = (klog s1)\<lparr>committing := False\<rparr>"
  define s2 where "s2 = woken ChanLog (s1\<lparr>klog := l2\<rparr>)"
  note c1 = wrote_cache [OF 1(2)]
  have run: "end_op s = Ok ((), s2)"
    using run_end_op [OF cache_quiet [OF c] intx_comm [OF t]] 1(1) one log_section [OF cache_quiet [OF c1], of "\<lambda>l. l\<lparr>committing := False\<rparr>"]
    by (simp add: run_sq s2_def l2_def)
  have l2: "l2 = (klog s)\<lparr>outstanding := 0, lh := (lh (klog s))\<lparr>lh_n := 0\<rparr>\<rparr>"
    using intx_comm [OF t] by (simp add: l2_def 1(3))
  have c2: "cache p D (\<lambda>_. 0) {} s2" unfolding s2_def by (rule cache_woken) (use c1 in simp)
  have d2: "disk s2 = puts ?ws (disk s)" "dtrace s2 = dtrace s @ ?ws" using 1(2) by (simp_all add: s2_def wrote_def)
  have clean: "view D s k = disk s k" if "k \<notin> set (logged_blocks (klog s))" for k
    by (rule view_clean [OF c]) (use that in \<open>simp add: txrefs_def\<close>)
  have fin: "disk s2 k = view D s k" if k: "k \<notin> log_region (klog s)" for k
  proof (cases "lh_n (lh (klog s)) = 0")
    case True
    then show ?thesis using clean [of k] d2 by (simp add: logged_blocks_def)
  next
    case False
    have "k \<notin> fst ` set (log_writes (klog s) (view D s))" using k fst_log_writes [OF r, of "view D s"] by blast
    then have "puts (log_writes (klog s) (view D s)) (disk s) k = disk s k" by (rule puts_other)
    then show ?thesis using False d2 k log_readyD(6) [OF r] clean by (auto simp: commit_writes_def puts_new_home)
  qed
  have len: "length (disk s k) = BSIZE" for k by (rule cache_disk [OF c])
  have hd: "sint (get32 (disk s2 (log_start (klog s))) 0) = 0"
    using d2(1) empty len log_readyD(2) [OF r] by (auto simp: commit_writes_def)
  have nt: "notx p D s2"
    using c2 hd r intx_dev [OF t] log_ready_empty [OF r]
    by (simp add: notx_def s2_def l2 intx_comm [OF t] log_ready_def logged_blocks_def log_region_def)
  have "bframe (s\<lparr>klog := l2\<rparr>) (s1\<lparr>klog := l2\<rparr>)"
    using 1(2) bframe_klog_cong [of "?s\<lparr>klog := klog s1\<rparr>" s1 l2] by (simp add: wrote_def)
  then have fr: "bframe (s\<lparr>klog := l2\<rparr>) s2" unfolding s2_def using bframe_woken by (rule bframe_trans)
  show ?thesis
    using run by (rule that) (use nt fin d2 fr in \<open>simp_all add: s2_def, simp_all add: l2\<close>)
qed

section \<open>Blocks inside a transaction\<close>

lemma txrefs_card:
  assumes "finite h"
  shows "card {k. 0 < txrefs bs h k} \<le> length bs + card h"
proof -
  have "{k. 0 < txrefs bs h k} \<subseteq> set bs \<union> h" by (auto simp: txrefs_def split: if_splits)
  then have "card {k. 0 < txrefs bs h k} \<le> card (set bs \<union> h)" by (rule card_mono [rotated]) (use assms in simp)
  also have "\<dots> \<le> card (set bs) + card h" by (rule card_Un_le)
  also have "card (set bs) \<le> length bs" by (rule card_length)
  finally show ?thesis by simp
qed

lemma txrefs_logged: "k \<in> set bs \<Longrightarrow> 0 < txrefs bs h k"
  by (simp add: txrefs_def)

lemma tx_bread:
  assumes t: "intx p D h s" and k: "k \<notin> h" and h: "finite h"
    and room: "k \<in> set (logged_blocks (klog s)) \<or> length (logged_blocks (klog s)) + card h < NBUF"
  obtains b s' where "bread D k s = Ok (b, s')" "intx p D (insert k h) s'" "buf_at D s' b k" "b_data (bcache s' b) = view D s k"
    "view D s' = view D s" "disk s' = disk s" "dtrace s' = dtrace s" "bframe s s'"
    "\<And>b' k'. k' \<in> h \<Longrightarrow> buf_at D s b' k' \<Longrightarrow> buf_at D s' b' k'"
proof -
  note c = intx_cache [OF t]
  have "0 < txrefs (logged_blocks (klog s)) h k \<or> card {k. 0 < txrefs (logged_blocks (klog s)) h k} < NBUF"
    using room txrefs_card [OF h, of "logged_blocks (klog s)"] txrefs_logged [of k _ h] by (meson le_less_trans)
  then obtain b s' where s': "bread D k s = Ok (b, s')"
    "cache p D ((txrefs (logged_blocks (klog s)) h)(k := Suc (txrefs (logged_blocks (klog s)) h k))) (insert k h) s'" "buf_at D s' b k"
    "view D s' = view D s" "disk s' = disk s" "dtrace s' = dtrace s" "bframe s s'" "keeps_bufs D (txrefs (logged_blocks (klog s)) h) s s'"
    by (rule_tac bread_ok [OF c k])
  have "(txrefs bs h)(k := Suc (txrefs bs h k)) = txrefs bs (insert k h)" for bs using k by (auto simp: txrefs_def)
  then have t': "intx p D (insert k h) s'" using t s'(2) bframe_klog [OF s'(7)] by (simp add: intx_def)
  have keep: "buf_at D s' b' k'" if "k' \<in> h" "buf_at D s b' k'" for b' k'
    by (rule keeps_bufsD [OF s'(8) _ that(2)]) (use that in \<open>simp add: txrefs_def\<close>)
  have "b_data (bcache s' b) = view D s k" using buf_data [OF s'(2,3)] s'(4) by simp
  then show ?thesis using that s' t' keep by blast
qed

lemma tx_set_data:
  assumes t: "intx p D h s" and at: "buf_at D s b k" and k: "k \<in> h" and len: "length (f (view D s k)) = BSIZE"
  obtains s' where "upd_buf b (\<lambda>r. r\<lparr>b_data := f (b_data r)\<rparr>) s = Ok ((), s')" "intx p D h s'"
    "view D s' = (view D s)(k := f (view D s k))" "disk s' = disk s" "dtrace s' = dtrace s" "bframe s s'" "buf_at D s' = buf_at D s"
proof -
  note c = intx_cache [OF t]
  have pos: "0 < txrefs (logged_blocks (klog s)) h k" using k by (simp add: txrefs_def)
  have d: "b_data (bcache s b) = view D s k" by (rule buf_data [OF c at pos])
  define s' where "s' = s\<lparr>bcache := (bcache s)(b := (bcache s b)\<lparr>b_data := f (view D s k)\<rparr>)\<rparr>"
  note set = set_data_ok [OF c at k len, folded s'_def]
  have "buf_at D s' = buf_at D s" by (auto simp: s'_def buf_at_def fun_eq_iff)
  moreover have "upd_buf b (\<lambda>r. r\<lparr>b_data := f (b_data r)\<rparr>) s = Ok ((), s')" by (simp add: upd_buf_def s'_def d)
  moreover have "intx p D h s'" using t set(1) by (simp add: intx_def s'_def)
  ultimately show ?thesis using set that by blast
qed

lemma tx_brelse:
  assumes t: "intx p D h s" and at: "buf_at D s b k" and k: "k \<in> h"
    and clean: "k \<in> set (logged_blocks (klog s)) \<or> view D s k = disk s k"
  obtains s' where "brelse b s = Ok ((), s')" "intx p D (h - {k}) s'"
    "view D s' = view D s" "disk s' = disk s" "dtrace s' = dtrace s" "bframe s s'" "buf_at D s' = buf_at D s"
proof -
  note c = intx_cache [OF t]
  have "txrefs (logged_blocks (klog s)) h k = 1 \<longrightarrow> view D s k = disk s k" using clean k by (auto simp: txrefs_def)
  then obtain s' where s': "brelse b s = Ok ((), s')"
    "cache p D ((txrefs (logged_blocks (klog s)) h)(k := txrefs (logged_blocks (klog s)) h k - 1)) (h - {k}) s'" "view D s' = view D s"
    "buf_at D s' = buf_at D s" "bframe s s'" "disk s' = disk s" "dtrace s' = dtrace s"
    by (rule brelse_ok [OF c at k])
  have "(txrefs bs h)(k := txrefs bs h k - 1) = txrefs bs (h - {k})" for bs using k by (auto simp: txrefs_def)
  then have "intx p D (h - {k}) s'" using t s'(2) bframe_klog [OF s'(5)] by (simp add: intx_def)
  then show ?thesis using that s' by blast
qed

text \<open>The list of logged blocks after \<open>k\<close> has been logged.\<close>

definition add_block :: "uint32 \<Rightarrow> uint32 list \<Rightarrow> uint32 list" where
  "add_block k bs = (if k \<in> set bs then bs else bs @ [k])"

text \<open>Reading a block and changing a block, as the file system does it.\<close>

lemma tx_read_block:
  assumes t: "intx p D h s" and k: "k \<notin> h" and h: "finite h"
    and room: "k \<in> set (logged_blocks (klog s)) \<or> length (logged_blocks (klog s)) + card h < NBUF"
  obtains b s1 s2 where "bread D k s = Ok (b, s1)" "b_data (bcache s1 b) = view D s k" "bframe s s1" "intx p D (insert k h) s1"
    "buf_at D s1 b k" "brelse b s1 = Ok ((), s2)" "intx p D h s2" "view D s2 = view D s" "disk s2 = disk s" "dtrace s2 = dtrace s"
    "bframe s s2"
proof -
  obtain b s1 where 1: "bread D k s = Ok (b, s1)" "intx p D (insert k h) s1" "buf_at D s1 b k" "b_data (bcache s1 b) = view D s k"
    "view D s1 = view D s" "disk s1 = disk s" "dtrace s1 = dtrace s" "bframe s s1"
    by (rule tx_bread [OF t k h room])
  have clean: "k \<in> set (logged_blocks (klog s)) \<or> view D s k = disk s k"
    using view_clean [OF intx_cache [OF t], of k] k by (cases "k \<in> set (logged_blocks (klog s))") (simp_all add: txrefs_def)
  obtain s2 where 2: "brelse b s1 = Ok ((), s2)" "intx p D (insert k h - {k}) s2"
    "view D s2 = view D s1" "disk s2 = disk s1" "dtrace s2 = dtrace s1" "bframe s1 s2"
    by (rule tx_brelse [OF 1(2,3)]) (use clean 1 bframe_klog [OF 1(8)] in auto)
  have "insert k h - {k} = h" using k by auto
  with 1 2 show ?thesis by (intro that [of b s1 s2]) (auto intro: bframe_trans)
qed

lemma tx_update_block:
  assumes t: "intx p D h s" and k: "k \<notin> h" "k \<notin> log_region (klog s)" and h: "finite h"
    and room: "k \<in> set (logged_blocks (klog s)) \<or> length (logged_blocks (klog s)) + card h < NBUF"
    and space: "lh_n (lh (klog s)) < log_size (klog s) - 1" and len: "length (f (view D s k)) = BSIZE"
  obtains b s1 s2 s3 s4 where "bread D k s = Ok (b, s1)" "b_data (bcache s1 b) = view D s k" "bframe s s1"
    "upd_buf b (\<lambda>r. r\<lparr>b_data := f (b_data r)\<rparr>) s1 = Ok ((), s2)" "log_write b s2 = Ok ((), s3)" "brelse b s3 = Ok ((), s4)"
    "intx p D h s4" "view D s4 = (view D s)(k := f (view D s k))" "disk s4 = disk s" "dtrace s4 = dtrace s" "lframe s s4"
    "logged_blocks (klog s4) = add_block k (logged_blocks (klog s))" "intx p D (insert k h) s1"
proof -
  obtain b s1 where 1: "bread D k s = Ok (b, s1)" "intx p D (insert k h) s1" "buf_at D s1 b k" "b_data (bcache s1 b) = view D s k"
    "view D s1 = view D s" "disk s1 = disk s" "dtrace s1 = dtrace s" "bframe s s1"
    by (rule tx_bread [OF t k(1) h room])
  obtain s2 where 2: "upd_buf b (\<lambda>r. r\<lparr>b_data := f (b_data r)\<rparr>) s1 = Ok ((), s2)" "intx p D (insert k h) s2"
    "view D s2 = (view D s1)(k := f (view D s1 k))" "disk s2 = disk s1" "dtrace s2 = dtrace s1" "bframe s1 s2" "buf_at D s2 = buf_at D s1"
    by (rule tx_set_data [OF 1(2,3), of f]) (use len 1 in auto)
  note fr = bframe_trans [OF 1(8) 2(6)]
  have k2: "klog s2 = klog s" by (rule bframe_klog [OF fr])
  have at2: "buf_at D s2 b k" using 1(3) 2(7) by simp
  obtain s3 where 3: "log_write b s2 = Ok ((), s3)" "intx p D (insert k h) s3" "view D s3 = view D s2" "disk s3 = disk s2" "dtrace s3 = dtrace s2"
    "lframe s2 s3" "buf_at D s3 = buf_at D s2"
    "logged_blocks (klog s3) = (if k \<in> set (logged_blocks (klog s2)) then logged_blocks (klog s2) else logged_blocks (klog s2) @ [k])"
    by (rule log_write_ok [OF 2(2) at2]) (use k space k2 in simp_all)
  have l3: "logged_blocks (klog s3) = add_block k (logged_blocks (klog s))" using 3(8) k2 by (simp add: add_block_def)
  have at3: "buf_at D s3 b k" using at2 3(7) by simp
  obtain s4 where 4: "brelse b s3 = Ok ((), s4)" "intx p D (insert k h - {k}) s4"
    "view D s4 = view D s3" "disk s4 = disk s3" "dtrace s4 = dtrace s3" "bframe s3 s4"
    by (rule tx_brelse [OF 3(2) at3]) (auto simp: l3 add_block_def)
  have "insert k h - {k} = h" using k by auto
  moreover have "lframe s s4" using lframe_trans [OF lframe_trans [OF bframe_lframe [OF fr] 3(6)] bframe_lframe [OF 4(6)]] .
  ultimately show ?thesis
    using 1 2 3 4 l3 bframe_klog [OF 4(6)] by (intro that [of b s1 s2 s3 s4]) simp_all
qed

section \<open>A transaction to run with\<close>

text \<open>The log of a freshly made file system, and a transaction that writes block 50.\<close>

definition mklog :: "disk \<Rightarrow> logged" where
  "mklog d = bio.extend (booted_bio\<lparr>disk := d\<rparr>) (logged.fields \<lparr>log_start = 2, log_size = 30, outstanding = 0, committing = False,
     log_dev = 1, lh = \<lparr>lh_n = 0, lh_block = replicate LOGSIZE 0\<rparr>\<rparr>)"

abbreviation demo_log :: logged where
  "demo_log \<equiv> mklog (\<lambda>_. replicate BSIZE 0)"

definition demo_tx :: logged where
  "demo_tx = (case sq begin_op (bnd (bread 1 50) (\<lambda>b. sq (upd_buf b (\<lambda>r. r\<lparr>b_data := replicate BSIZE 7\<rparr>))
     (sq (log_write b) (brelse b)))) demo_log of Ok (_, s) \<Rightarrow> s | _ \<Rightarrow> demo_log)"

lemma bio_extend [simp]:
  "bcache (bio.extend s m) = bcache s" "disk (bio.extend s m) = disk s" "sleeplocks (bio.extend s m) = sleeplocks s"
  "cpus (bio.extend s m) = cpus s" "harts (bio.extend s m) = harts s" "hart (bio.extend s m) = hart s"
  "locks (bio.extend s m) = locks s" "procs (bio.extend s m) = procs s"
  by (simp_all add: bio.defs)

lemma cache_extend: "cache p D r h (bio.extend s m) = cache p D r h s"
  by (simp add: cache_def buf_at_def quiet_def settled_def cur_def this_cpu_def this_hart_def)

lemma klog_mklog [simp]:
  "klog (mklog d) = \<lparr>log_start = 2, log_size = 30, outstanding = 0, committing = False, log_dev = 1,
     lh = \<lparr>lh_n = 0, lh_block = replicate LOGSIZE 0\<rparr>\<rparr>"
  by (simp add: mklog_def bio.defs logged.defs)

lemma disk_mklog [simp]: "disk (mklog d) = d"
  by (simp add: mklog_def)

lemma notx_mklog:
  assumes len: "\<And>k. length (d k) = BSIZE" and "sint (get32 (d 2) 0) = 0"
  shows "notx 0 1 (mklog d)"
proof -
  have "cache 0 1 (\<lambda>_. 0) {} (booted_bio\<lparr>disk := d\<rparr>)"
  proof (rule empty_cacheI)
    show "quiet 0 (booted_bio\<lparr>disk := d\<rparr>)" using cache_quiet [OF booted_bio(1)]
      by (simp add: quiet_def settled_def cur_def this_cpu_def this_hart_def)
  qed (use booted_bio len in simp_all)
  with assms(2) show ?thesis
    by (simp add: notx_def log_ready_def logged_blocks_def LOGSIZE_def MAXOPBLOCKS_def) (simp add: mklog_def cache_extend)
qed

lemma get32_zeros [simp]: "get32 (replicate BSIZE 0) 0 = 0"
  by (simp add: get32_def slice_def BSIZE_def numeral_eq_Suc)

lemma notx_demo_log: "notx 0 1 demo_log"
  by (rule notx_mklog) simp_all

lemma demo_tx:
  "intx 0 1 {} demo_tx" "logged_blocks (klog demo_tx) = [50]" "outstanding (klog demo_tx) = 1" "log_start (klog demo_tx) = 2"
  "log_size (klog demo_tx) = 30" "disk demo_tx = (\<lambda>_. replicate BSIZE 0)" "view 1 demo_tx 50 = replicate BSIZE 7"
proof -
  let ?t = "demo_log\<lparr>klog := (klog demo_log)\<lparr>outstanding := 1\<rparr>\<rparr>"
  have k: "klog ?t = \<lparr>log_start = 2, log_size = 30, outstanding = 1, committing = False, log_dev = 1,
     lh = \<lparr>lh_n = 0, lh_block = replicate LOGSIZE 0\<rparr>\<rparr>"
    by simp
  have reg: "(50 :: uint32) \<notin> log_region (klog ?t)"
  proof
    assume "(50 :: uint32) \<in> log_region (klog ?t)"
    then obtain j where "j < 30" "(50 :: uint32) = 2 + of_nat j" unfolding k by (auto simp: log_region_def)
    then have "unat (50 :: uint32) = unat (of_nat (2 + j) :: uint32)" by simp
    with \<open>j < 30\<close> show False unfolding unat_of_nat by simp
  qed
  obtain b s1 s2 s3 s4 where s: "bread 1 50 ?t = Ok (b, s1)"
    "upd_buf b (\<lambda>r. r\<lparr>b_data := replicate BSIZE 7\<rparr>) s1 = Ok ((), s2)" "log_write b s2 = Ok ((), s3)" "brelse b s3 = Ok ((), s4)"
    "intx 0 1 {} s4" "view 1 s4 = (view 1 ?t)(50 := replicate BSIZE 7)" "disk s4 = disk ?t" "lframe ?t s4"
    "logged_blocks (klog s4) = add_block 50 (logged_blocks (klog ?t))"
    by (rule tx_update_block [OF begin_op_ok(2) [OF notx_demo_log], of 50 "\<lambda>_. replicate BSIZE 7"])
      (use reg k in \<open>auto simp: NBUF_def MAXOPBLOCKS_def logged_blocks_def\<close>)
  have d: "demo_tx = s4" using begin_op_ok(1) [OF notx_demo_log] s by (simp add: demo_tx_def run_sq run_bnd)
  have "logged_blocks (klog ?t) = []" unfolding k by (simp add: logged_blocks_def)
  then show "logged_blocks (klog demo_tx) = [50]" using s(9) by (simp add: d add_block_def)
  obtain h where "klog s4 = (klog ?t)\<lparr>lh := h\<rparr>" using s(8) unfolding lframe_def by blast
  then show "outstanding (klog demo_tx) = 1" "log_start (klog demo_tx) = 2" "log_size (klog demo_tx) = 30"
    unfolding d k by simp_all
  show "disk demo_tx = (\<lambda>_. replicate BSIZE 0)" using s(7) by (simp add: d)
  show "intx 0 1 {} demo_tx" "view 1 demo_tx 50 = replicate BSIZE 7" using s(5,6) by (simp_all add: d)
qed

theorem commit_crash_safe_witness:
  "\<exists>s' ws. view 1 demo_tx 50 = replicate BSIZE 7 \<and> disk demo_tx 50 = replicate BSIZE 0 \<and>
     commit demo_tx = Ok ((), s') \<and> disk s' = puts ws (disk demo_tx) \<and> disk s' 50 = replicate BSIZE 7"
proof -
  have reg: "(50 :: uint32) \<notin> log_region (klog demo_tx)"
    using log_readyD(7) [OF intx_ready [OF demo_tx(1)]] by (simp add: demo_tx(2))
  have n: "0 < lh_n (lh (klog demo_tx))"
    using log_readyD(1) [OF intx_ready [OF demo_tx(1)]] by (simp add: demo_tx(2))
  have "txrefs [50] {} = pins [50]" by (auto simp: txrefs_def pins_def)
  then have c: "cache 0 1 (pins (logged_blocks (klog demo_tx))) {} demo_tx"
    using intx_cache [OF demo_tx(1)] by (simp add: demo_tx(2))
  have e: "sint (get32 (disk demo_tx (log_start (klog demo_tx))) 0) = 0"
    by (simp add: demo_tx(6))
  from commit_crash_safe [OF refl intx_dev [OF demo_tx(1)] intx_ready [OF demo_tx(1)] n c e]
  obtain s' ws where "commit demo_tx = Ok ((), s')" "disk s' = puts ws (disk demo_tx)"
    "\<forall>k. k \<notin> log_region (klog demo_tx) \<longrightarrow> disk s' k = view 1 demo_tx k" by blast
  with reg demo_tx(6,7) show ?thesis by (metis (no_types))
qed

section \<open>Properties\<close>







end
