(* ===== verification/Fsblocks.thy ===== *)
theory Fsblocks
  imports Fs Txn
begin

unbundle bit_operations_syntax

text \<open>
  Blocks and inodes of the file system inside a transaction: what \<open>bzero\<close>, \<open>balloc\<close>, \<open>bfree\<close>, \<open>iupdate\<close> and
  \<open>ilock\<close> do to the content of the blocks, on top of the contracts of the log.
\<close>

section \<open>Frames\<close>

lemma lframe_fs: "lframe s s' \<Longrightarrow> sb s' = sb s" "lframe s s' \<Longrightarrow> itable s' = itable s"
  unfolding lframe_def bframe_def by auto

lemma bframe_fs: "bframe s s' \<Longrightarrow> sb s' = sb s" "bframe s s' \<Longrightarrow> itable s' = itable s"
  unfolding bframe_def by auto

lemma intx_room:
  assumes "intx p D h s"
  shows "length (logged_blocks (klog s)) < NBUF"
  using log_readyD(1,2) [OF intx_ready [OF assms]] by (simp add: LOGSIZE_def NBUF_def)

lemma lframe_region: "lframe s s' \<Longrightarrow> log_region (klog s') = log_region (klog s)"
  by (auto simp: lframe_def)

lemma lframe_size: "lframe s s' \<Longrightarrow> log_size (klog s') = log_size (klog s)"
  by (auto simp: lframe_def)

lemma intx_lh_n:
  assumes "intx p D h s"
  shows "lh_n (lh (klog s)) = int (length (logged_blocks (klog s)))"
  using log_readyD(1) [OF intx_ready [OF assms]] assms by (simp add: intx_def log_ready_def)

lemma length_add_block: "length (add_block k bs) \<le> Suc (length bs)"
  by (simp add: add_block_def)

text \<open>The space left in the log, in blocks.\<close>

definition log_space :: "'x logged_scheme \<Rightarrow> int" where
  "log_space s = log_size (klog s) - 1 - int (length (logged_blocks (klog s)))"

lemma bzero_ok:
  assumes t: "intx p D {} s" and k: "k \<notin> log_region (klog s)" and space: "0 < log_space s"
  obtains s' where "bzero D k s = Ok ((), s')" "intx p D {} s'" "view D s' = (view D s)(k := replicate BSIZE 0)"
    "disk s' = disk s" "dtrace s' = dtrace s" "lframe s s'" "logged_blocks (klog s') = add_block k (logged_blocks (klog s))"
proof -
  have sp: "lh_n (lh (klog s)) < log_size (klog s) - 1" using space intx_lh_n [OF t] by (simp add: log_space_def)
  obtain b s1 s2 s3 s4 where s: "bread D k s = Ok (b, s1)"
    "upd_buf b (\<lambda>r. r\<lparr>b_data := replicate BSIZE 0\<rparr>) s1 = Ok ((), s2)" "log_write b s2 = Ok ((), s3)" "brelse b s3 = Ok ((), s4)"
    "intx p D {} s4" "view D s4 = (view D s)(k := replicate BSIZE 0)" "disk s4 = disk s" "dtrace s4 = dtrace s" "lframe s s4"
    "logged_blocks (klog s4) = add_block k (logged_blocks (klog s))"
    by (rule tx_update_block [OF t, of k "\<lambda>_. replicate BSIZE 0"]) (use k sp intx_room [OF t] in auto)
  then have "bzero D k s = Ok ((), s4)" by (simp add: bzero_def run_bnd run_sq)
  then show ?thesis using s that by blast
qed

section \<open>The bitmap\<close>

lemma bit_mask_bit: "bit (bit_mask bi) n \<longleftrightarrow> n = bi mod 8"
  by (auto simp: bit_mask_def bit_exp_iff possible_bit_word)

lemma bit_uint8: "bit (w :: uint8) n \<Longrightarrow> n < 8"
  using bit_imp_le_length [of w n] by simp

lemma bit_free_bit: "bit_free data bi \<longleftrightarrow> \<not> bit (data ! (bi div 8)) (bi mod 8)"
proof -
  have "data ! (bi div 8) AND bit_mask bi = 0 \<longleftrightarrow> (\<forall>n. \<not> (bit (data ! (bi div 8)) n \<and> bit (bit_mask bi) n))"
    by (auto simp: bit_eq_iff bit_and_iff dest: bit_uint8)
  then show ?thesis by (auto simp: bit_free_def bit_mask_bit)
qed

lemma div_mod_8_eq: "bi div 8 = bj div 8 \<Longrightarrow> bi mod 8 = bj mod 8 \<Longrightarrow> bi = (bj :: nat)"
  by (metis mult_div_mod_eq)

lemma set_bit_used_free:
  assumes "bi div 8 < length data"
  shows "bit_free (set_bit_used data bi) bj \<longleftrightarrow> bj \<noteq> bi \<and> bit_free data bj"
  using assms div_mod_8_eq [of bi bj]
  by (cases "bi div 8 = bj div 8") (auto simp: bit_free_bit set_bit_used_def bit_or_iff bit_mask_bit)

lemma set_bit_free_free:
  assumes "bi div 8 < length data"
  shows "bit_free (set_bit_free data bi) bj \<longleftrightarrow> bj = bi \<or> bit_free data bj"
  using assms div_mod_8_eq [of bi bj]
  by (cases "bi div 8 = bj div 8")
    (auto simp: bit_free_bit set_bit_free_def bit_and_iff bit_not_iff_eq bit_mask_bit dest: bit_uint8)

lemma length_set_bit [simp]: "length (set_bit_used data bi) = length data" "length (set_bit_free data bi) = length data"
  by (simp_all add: set_bit_used_def set_bit_free_def)

lemma set_bit_free_used:
  assumes "bit_free data bi"
  shows "set_bit_free (set_bit_used data bi) bi = data"
proof (rule nth_equalityI)
  fix i assume i: "i < length (set_bit_free (set_bit_used data bi) bi)"
  show "set_bit_free (set_bit_used data bi) bi ! i = data ! i"
  proof (cases "i = bi div 8")
    case True
    have "(data ! i OR bit_mask bi) AND NOT (bit_mask bi) = data ! i"
      by (rule bit_word_eqI) (use assms True in \<open>auto simp: bit_and_iff bit_or_iff bit_not_iff bit_mask_bit bit_free_bit\<close>)
    then show ?thesis using True i by (simp add: set_bit_free_def set_bit_used_def)
  qed (use i in \<open>simp add: set_bit_free_def set_bit_used_def\<close>)
qed simp

text \<open>Block \<open>b\<close> is free, in a disk of content \<open>v\<close>.\<close>

definition blk_free :: "disk \<Rightarrow> superblock \<Rightarrow> nat \<Rightarrow> bool" where
  "blk_free v sbk b \<longleftrightarrow> bit_free (v (BBLOCK (of_nat b) sbk)) (b mod BPB)"

lemma find_append: "find P (xs @ ys) = (case find P xs of Some x \<Rightarrow> Some x | None \<Rightarrow> find P ys)"
  by (induction xs) auto

lemma find_map: "find P (map f xs) = map_option f (find (\<lambda>x. P (f x)) xs)"
  by (induction xs) auto

lemma BBLOCK_of_nat:
  assumes "k * BPB + bi < 2 ^ 32" and "bi < BPB"
  shows "BBLOCK (of_nat (k * BPB + bi)) sbk = BBLOCK (of_nat (k * BPB)) sbk" "(k * BPB + bi) mod BPB = bi"
proof -
  have d: "(of_nat m :: uint32) div of_nat BPB = of_nat (m div BPB)" if "m < 2 ^ 32" for m
    using that by (simp add: BPB_def BSIZE_def word_unat_eq_iff unat_div unat_of_nat)
  have "(k * BPB + bi) div BPB = k" using assms(2) by simp
  moreover have "(k * BPB) div BPB = k" by (simp add: BPB_def BSIZE_def)
  ultimately show "BBLOCK (of_nat (k * BPB + bi)) sbk = BBLOCK (of_nat (k * BPB)) sbk"
    unfolding BBLOCK_def using assms d [of "k * BPB + bi"] d [of "k * BPB"] by simp
  show "(k * BPB + bi) mod BPB = bi" using assms(2) by simp
qed

text \<open>The bits of bitmap block \<open>k\<close> below \<open>size\<close>.\<close>

lemma find_bitmap_block:
  assumes "nb < 2 ^ 32" and k: "k * BPB < nb"
  shows "find (blk_free v sbk) [k * BPB..<nb] =
    (case find (bit_free (v (BBLOCK (of_nat (k * BPB)) sbk))) [0..<min BPB (nb - k * BPB)] of
       Some bi \<Rightarrow> Some (k * BPB + bi) | None \<Rightarrow> find (blk_free v sbk) [Suc k * BPB..<nb])"
proof -
  let ?m = "min BPB (nb - k * BPB)"
  have "[k * BPB..<nb] = [k * BPB..<k * BPB + ?m] @ [k * BPB + ?m..<nb]"
    using upt_add_eq_append [of "k * BPB" "k * BPB + ?m" "nb - (k * BPB + ?m)"] k by simp
  also have "[k * BPB..<k * BPB + ?m] = map (\<lambda>i. k * BPB + i) [0..<?m]"
    by (rule nth_equalityI) simp_all
  also have "[k * BPB + ?m..<nb] = [Suc k * BPB..<nb]"
    by (cases "BPB \<le> nb - k * BPB") (auto simp: min_def add.commute)
  finally have l: "[k * BPB..<nb] = map (\<lambda>i. k * BPB + i) [0..<?m] @ [Suc k * BPB..<nb]" .
  have "blk_free v sbk (k * BPB + bi) = bit_free (v (BBLOCK (of_nat (k * BPB)) sbk)) bi" if "bi < ?m" for bi
  proof -
    have "k * BPB + bi < 2 ^ 32" "bi < BPB" using that assms by linarith+
    then show ?thesis by (simp add: blk_free_def BBLOCK_of_nat del: of_nat_add of_nat_mult)
  qed
  then have "find (\<lambda>i. blk_free v sbk (k * BPB + i)) [0..<?m] = find (bit_free (v (BBLOCK (of_nat (k * BPB)) sbk))) [0..<?m]"
    by (intro find_cong) auto
  then show ?thesis unfolding l find_append find_map by (simp split: option.split)
qed

section \<open>balloc and bfree\<close>

text \<open>
  The free blocks are blocks of files: outside the log and the bitmap. The bitmap is outside the log.
\<close>

definition bitmap_ok :: "uint32 set \<Rightarrow> superblock \<Rightarrow> disk \<Rightarrow> bool" where
  "bitmap_ok reg sbk v \<longleftrightarrow> (\<forall>b < unat (sb_size sbk). BBLOCK (of_nat b) sbk \<notin> reg \<and>
     (blk_free v sbk b \<longrightarrow> of_nat b \<notin> reg \<and> (\<forall>c < unat (sb_size sbk). BBLOCK (of_nat c) sbk \<noteq> of_nat b)))"

definition allocated :: "superblock \<Rightarrow> nat \<Rightarrow> disk \<Rightarrow> disk" where
  "allocated sbk b v = v(BBLOCK (of_nat b) sbk := set_bit_used (v (BBLOCK (of_nat b) sbk)) (b mod BPB), of_nat b := replicate BSIZE 0)"

lemma balloc_loop_ok:
  assumes t: "intx p D {} s" and sbk: "sb s = sbk" and ok: "bitmap_ok (log_region (klog s)) sbk (view D s)" and space: "1 < log_space s"
    and K: "K = (unat (sb_size sbk) + BPB - 1) div BPB" and k: "k \<le> K"
  shows "case find (blk_free (view D s) sbk) [k * BPB..<unat (sb_size sbk)] of
      None \<Rightarrow> balloc_loop D [k..<K] s = Panic ''balloc: out of blocks''
    | Some b \<Rightarrow> \<exists>s'. balloc_loop D [k..<K] s = Ok (of_nat b, s') \<and> intx p D {} s' \<and> view D s' = allocated sbk b (view D s) \<and>
        disk s' = disk s \<and> dtrace s' = dtrace s \<and> lframe s s' \<and>
        logged_blocks (klog s') = add_block (of_nat b) (add_block (BBLOCK (of_nat b) sbk) (logged_blocks (klog s)))"
  using t sbk ok space k
proof (induction "K - k" arbitrary: k s)
  case 0
  then have "unat (sb_size sbk) \<le> k * BPB"
    using K by (simp add: BPB_def BSIZE_def)
  with 0 show ?case by simp
next
  case (Suc j)
  let ?v = "view D s" and ?kb = "BBLOCK (of_nat (k * BPB)) sbk" and ?n = "unat (sb_size sbk)"
  let ?m = "min BPB (?n - k * BPB)"
  have kK: "k < K" using Suc.hyps(2) by simp
  then have kn: "k * BPB < ?n"
    using K by (simp add: BPB_def BSIZE_def)
  have n32: "?n < 2 ^ 32" using unat_less_exp [of "sb_size sbk"] by simp
  note fnd = find_bitmap_block [OF n32 kn, of ?v sbk]
  have kb: "?kb \<notin> log_region (klog s)" using Suc.prems(3) kn unfolding bitmap_ok_def by blast
  note room = intx_room [OF Suc.prems(1)]
  have len: "length (?v ?kb) = BSIZE" by (rule length_view [OF intx_cache [OF Suc.prems(1)]])
  have loop: "balloc_loop D [k..<K] s = (bnd (bread D ?kb) (\<lambda>bp. bnd (get_buf bp) (\<lambda>r.
      case find (bit_free (b_data r)) [0..<?m] of
        Some bi \<Rightarrow> sq (upd_buf bp (\<lambda>r. r\<lparr>b_data := set_bit_used (b_data r) bi\<rparr>)) (sq (log_write bp) (sq (brelse bp)
          (sq (bzero D (of_nat (k * BPB + bi))) (ret (of_nat (k * BPB + bi))))))
      | None \<Rightarrow> sq (brelse bp) (balloc_loop D [Suc k..<K])))) s"
    using Suc.prems(2) by (simp add: upt_conv_Cons [OF kK] Let_def)
  show ?case
  proof (cases "find (bit_free (?v ?kb)) [0..<?m]")
    case None
    obtain b s1 s2 where s: "bread D ?kb s = Ok (b, s1)" "b_data (bcache s1 b) = ?v ?kb" "brelse b s1 = Ok ((), s2)"
      "intx p D {} s2" "view D s2 = ?v" "disk s2 = disk s" "dtrace s2 = dtrace s" "bframe s s2"
      by (rule tx_read_block [OF Suc.prems(1), of ?kb]) (use room in auto)
    have kl: "klog s2 = klog s" by (rule bframe_klog [OF s(8)])
    have lp: "balloc_loop D [k..<K] s = balloc_loop D [Suc k..<K] s2"
      using s(1-3) None by (simp add: loop run_bnd run_sq get_buf_def)
    have "case find (blk_free (view D s2) sbk) [Suc k * BPB..<?n] of
        None \<Rightarrow> balloc_loop D [Suc k..<K] s2 = Panic ''balloc: out of blocks''
      | Some b \<Rightarrow> \<exists>s'. balloc_loop D [Suc k..<K] s2 = Ok (of_nat b, s') \<and> intx p D {} s' \<and> view D s' = allocated sbk b (view D s2) \<and>
          disk s' = disk s2 \<and> dtrace s' = dtrace s2 \<and> lframe s2 s' \<and>
          logged_blocks (klog s') = add_block (of_nat b) (add_block (BBLOCK (of_nat b) sbk) (logged_blocks (klog s2)))"
      by (rule Suc.hyps(1))
        (use Suc.hyps(2) Suc.prems s kK kl bframe_fs [OF s(8)] in \<open>auto simp: log_space_def\<close>)
    then show ?thesis
      using s lframe_trans [OF bframe_lframe [OF s(8)]] unfolding lp fnd None
      by (auto simp: kl split: option.splits)
  next
    case (Some bi)
    from find_Some_set [OF Some] have bi: "bi < BPB" "k * BPB + bi < ?n" "bit_free (?v ?kb) bi" by auto
    let ?b = "k * BPB + bi"
    have bb: "BBLOCK (of_nat ?b) sbk = ?kb" "?b mod BPB = bi" using BBLOCK_of_nat(1) [of k bi sbk] BBLOCK_of_nat(2) [of k bi] bi n32 by (simp_all del: of_nat_add of_nat_mult)
    have free: "blk_free ?v sbk ?b" using bi bb by (simp add: blk_free_def)
    with Suc.prems(3) bi have nb: "of_nat ?b \<notin> log_region (klog s)" "?kb \<noteq> of_nat ?b"
      unfolding bitmap_ok_def using bb kn by blast+
    have sp: "lh_n (lh (klog s)) < log_size (klog s) - 1" using Suc.prems(4) intx_lh_n [OF Suc.prems(1)] by (simp add: log_space_def)
    obtain b s1 s2 s3 s4 where s: "bread D ?kb s = Ok (b, s1)" "b_data (bcache s1 b) = ?v ?kb"
      "upd_buf b (\<lambda>r. r\<lparr>b_data := set_bit_used (b_data r) bi\<rparr>) s1 = Ok ((), s2)" "log_write b s2 = Ok ((), s3)" "brelse b s3 = Ok ((), s4)"
      "intx p D {} s4" "view D s4 = ?v(?kb := set_bit_used (?v ?kb) bi)" "disk s4 = disk s" "dtrace s4 = dtrace s" "lframe s s4"
      "logged_blocks (klog s4) = add_block ?kb (logged_blocks (klog s))"
      by (rule tx_update_block [OF Suc.prems(1), of ?kb "\<lambda>d. set_bit_used d bi"]) (use kb sp room len in auto)
    have "0 < log_space s4"
      using Suc.prems(4) length_add_block [of ?kb "logged_blocks (klog s)"] lframe_size [OF s(10)] by (simp add: log_space_def s(11))
    then obtain s5 where s5: "bzero D (of_nat ?b) s4 = Ok ((), s5)" "intx p D {} s5"
      "view D s5 = (view D s4)(of_nat ?b := replicate BSIZE 0)" "disk s5 = disk s4" "dtrace s5 = dtrace s4" "lframe s4 s5"
      "logged_blocks (klog s5) = add_block (of_nat ?b) (logged_blocks (klog s4))"
      by (rule_tac bzero_ok [OF s(6)]) (use nb lframe_region [OF s(10)] in auto)
    have "balloc_loop D [k..<K] s = Ok (of_nat ?b, s5)"
      using s(1-5) s5(1) Some by (simp add: loop run_bnd run_sq get_buf_def)
    then show ?thesis
      using s s5 lframe_trans [OF s(10) s5(6)] unfolding fnd Some by (simp add: allocated_def bb bi(1) del: of_nat_add of_nat_mult)
  qed
qed

lemma bfree_ok:
  assumes t: "intx p D {} s" and kb: "BBLOCK b (sb s) \<notin> log_region (klog s)" and space: "0 < log_space s"
    and used: "\<not> bit_free (view D s (BBLOCK b (sb s))) (unat b mod BPB)"
  obtains s' where "bfree D b s = Ok ((), s')" "intx p D {} s'"
    "view D s' = (view D s)(BBLOCK b (sb s) := set_bit_free (view D s (BBLOCK b (sb s))) (unat b mod BPB))"
    "disk s' = disk s" "dtrace s' = dtrace s" "lframe s s'" "logged_blocks (klog s') = add_block (BBLOCK b (sb s)) (logged_blocks (klog s))"
proof -
  let ?k = "BBLOCK b (sb s)" and ?bi = "unat b mod BPB"
  have sp: "lh_n (lh (klog s)) < log_size (klog s) - 1" using space intx_lh_n [OF t] by (simp add: log_space_def)
  have len: "length (view D s ?k) = BSIZE" by (rule length_view [OF intx_cache [OF t]])
  obtain bp s1 s2 s3 s4 where s: "bread D ?k s = Ok (bp, s1)" "b_data (bcache s1 bp) = view D s ?k"
    "upd_buf bp (\<lambda>r. r\<lparr>b_data := set_bit_free (b_data r) ?bi\<rparr>) s1 = Ok ((), s2)" "log_write bp s2 = Ok ((), s3)" "brelse bp s3 = Ok ((), s4)"
    "intx p D {} s4" "view D s4 = (view D s)(?k := set_bit_free (view D s ?k) ?bi)" "disk s4 = disk s" "dtrace s4 = dtrace s" "lframe s s4"
    "logged_blocks (klog s4) = add_block ?k (logged_blocks (klog s))"
    by (rule tx_update_block [OF t, of ?k "\<lambda>d. set_bit_free d ?bi"]) (use kb sp len intx_room [OF t] in auto)
  then have "bfree D b s = Ok ((), s4)" using used by (simp add: bfree_def run_bnd run_sq get_buf_def Let_def)
  then show ?thesis using s that by blast
qed

text \<open>
  C23. \<open>balloc\<close> returns the lowest-numbered free block. It marks it used in the bitmap and fills it with
  zeros, logs these two blocks and changes no other block; when no block is free it panics.
\<close>

theorem balloc_takes_first_free:
  assumes t: "intx p D {} s" and ok: "bitmap_ok (log_region (klog s)) (sb s) (view D s)" and space: "1 < log_space s"
  shows "case find (blk_free (view D s) (sb s)) [0..<unat (sb_size (sb s))] of
      None \<Rightarrow> balloc D s = Panic ''balloc: out of blocks''
    | Some b \<Rightarrow> \<exists>s'. balloc D s = Ok (of_nat b, s') \<and> intx p D {} s' \<and> view D s' = allocated (sb s) b (view D s) \<and> disk s' = disk s \<and>
        logged_blocks (klog s') = add_block (of_nat b) (add_block (BBLOCK (of_nat b) (sb s)) (logged_blocks (klog s))) \<and>
        (\<forall>c < unat (sb_size (sb s)). blk_free (view D s') (sb s) c \<longleftrightarrow> c \<noteq> b \<and> blk_free (view D s) (sb s) c)"
proof (cases "find (blk_free (view D s) (sb s)) [0..<unat (sb_size (sb s))]")
  case None
  then show ?thesis
    using balloc_loop_ok [OF t refl ok space refl, of 0] by (simp add: balloc_def run_bnd)
next
  case (Some b)
  from find_Some_set [OF Some] have b: "b < unat (sb_size (sb s))" "blk_free (view D s) (sb s) b" by auto
  from balloc_loop_ok [OF t refl ok space refl, of 0] Some
  obtain s' where s': "balloc D s = Ok (of_nat b, s')" "intx p D {} s'" "view D s' = allocated (sb s) b (view D s)" "disk s' = disk s"
    "logged_blocks (klog s') = add_block (of_nat b) (add_block (BBLOCK (of_nat b) (sb s)) (logged_blocks (klog s)))"
    by (auto simp: balloc_def run_bnd)
  have len: "length (view D s k) = BSIZE" for k by (rule length_view [OF intx_cache [OF t]])
  have free: "blk_free (view D s') (sb s) c \<longleftrightarrow> c \<noteq> b \<and> blk_free (view D s) (sb s) c" if c: "c < unat (sb_size (sb s))" for c
  proof -
    have ne: "BBLOCK (of_nat c) (sb s) \<noteq> of_nat b" using ok b c unfolding bitmap_ok_def by blast
    have bi: "b mod BPB div 8 < length (view D s k)" for k by (simp add: len BPB_def BSIZE_def less_mult_imp_div_less)
    have same: "c = b" if "BBLOCK (of_nat c) (sb s) = BBLOCK (of_nat b) (sb s)" "c mod BPB = b mod BPB"
    proof -
      have "(of_nat c :: uint32) div of_nat BPB = of_nat b div of_nat BPB" using that(1) by (simp add: BBLOCK_def)
      then have "unat ((of_nat c :: uint32) div of_nat BPB) = unat ((of_nat b :: uint32) div of_nat BPB)" by simp
      then have "c div BPB = b div BPB"
        using b c unat_less_exp [of "sb_size (sb s)"] by (simp add: unat_div unat_of_nat BPB_def BSIZE_def)
      with that(2) show ?thesis by (metis mult_div_mod_eq)
    qed
    show ?thesis
      unfolding s'(3) allocated_def blk_free_def
      using ne same set_bit_used_free [OF bi [of "BBLOCK (of_nat b) (sb s)"], of "c mod BPB"] by auto
  qed
  show ?thesis unfolding Some using s' free by auto
qed

text \<open>
  C35. \<open>bfree\<close> undoes \<open>balloc\<close>: it clears the bit of the block and changes no other block, so the bitmap is what
  it was before the allocation; freeing a block that is free already panics.
\<close>

theorem bfree_clears_bit:
  assumes t: "intx p D {} s" and kb: "BBLOCK b (sb s) \<notin> log_region (klog s)" and space: "0 < log_space s"
  shows "if bit_free (view D s (BBLOCK b (sb s))) (unat b mod BPB) then bfree D b s = Panic ''freeing free block''
    else \<exists>s'. bfree D b s = Ok ((), s') \<and> intx p D {} s' \<and> disk s' = disk s \<and>
      view D s' = (view D s)(BBLOCK b (sb s) := set_bit_free (view D s (BBLOCK b (sb s))) (unat b mod BPB)) \<and>
      (\<forall>old. view D s (BBLOCK b (sb s)) = set_bit_used old (unat b mod BPB) \<and> bit_free old (unat b mod BPB) \<longrightarrow>
        view D s' (BBLOCK b (sb s)) = old)"
proof (cases "bit_free (view D s (BBLOCK b (sb s))) (unat b mod BPB)")
  case True
  obtain bp s1 where "bread D (BBLOCK b (sb s)) s = Ok (bp, s1)" "b_data (bcache s1 bp) = view D s (BBLOCK b (sb s))"
    by (rule tx_bread [OF t, of "BBLOCK b (sb s)"]) (use intx_room [OF t] in auto)
  with True show ?thesis by (simp add: bfree_def run_bnd get_buf_def Let_def)
next
  case False
  obtain s' where s': "bfree D b s = Ok ((), s')" "intx p D {} s'"
    "view D s' = (view D s)(BBLOCK b (sb s) := set_bit_free (view D s (BBLOCK b (sb s))) (unat b mod BPB))" "disk s' = disk s"
    by (rule bfree_ok [OF t kb space False])
  with False show ?thesis by (auto simp: set_bit_free_used)
qed

section \<open>A file system to run with\<close>

text \<open>
  The layout \<open>mkfs\<close> gives a disk of 1000 blocks: the log at 2, the inodes at 32, the bitmap at 45. The first 46
  blocks are in use.
\<close>

definition demo_sb :: superblock where
  "demo_sb = \<lparr>magic = FSMAGIC, sb_size = 1000, nblocks = 954, ninodes = 200, nlog = 30, logstart = 2, inodestart = 32, bmapstart = 45\<rparr>"

definition demo_disk :: disk where
  "demo_disk = (\<lambda>_. replicate BSIZE 0)(45 := replicate 5 255 @ [63] @ replicate (BSIZE - 6) 0)"

definition demo_inode :: inode where
  "demo_inode = \<lparr>i_dev = 1, i_inum = 7, i_ref = 1, i_valid = True, i_type = T_FILE, i_major = 0, i_minor = 0, i_nlink = 1,
     i_size = 5, i_addrs = replicate 13 0\<rparr>"

definition mkfs_state :: "disk \<Rightarrow> (nat \<Rightarrow> inode) \<Rightarrow> fsys" where
  "mkfs_state d tab = logged.extend (mklog d\<lparr>klog := (klog (mklog d))\<lparr>outstanding := 1\<rparr>\<rparr>) (fsys.fields demo_sb tab)"

lemma logged_extend [simp]:
  "bcache (logged.extend s m) = bcache s" "disk (logged.extend s m) = disk s" "sleeplocks (logged.extend s m) = sleeplocks s"
  "cpus (logged.extend s m) = cpus s" "harts (logged.extend s m) = harts s" "hart (logged.extend s m) = hart s"
  "locks (logged.extend s m) = locks s" "procs (logged.extend s m) = procs s" "klog (logged.extend s m) = klog s"
  by (simp_all add: logged.defs)

lemma mkfs_state_simps [simp]:
  "sb (mkfs_state d tab) = demo_sb" "itable (mkfs_state d tab) = tab" "disk (mkfs_state d tab) = d"
  "klog (mkfs_state d tab) = \<lparr>log_start = 2, log_size = 30, outstanding = 1, committing = False, log_dev = 1,
     lh = \<lparr>lh_n = 0, lh_block = replicate LOGSIZE 0\<rparr>\<rparr>"
  by (simp_all add: mkfs_state_def) (simp_all add: logged.defs fsys.defs)

lemma intx_mkfs:
  assumes "\<And>k. length (d k) = BSIZE" and "sint (get32 (d 2) 0) = 0"
  shows "intx 0 1 {} (mkfs_state d tab)" "view 1 (mkfs_state d tab) = d" "log_space (mkfs_state d tab) = 29"
proof -
  have n: "notx 0 1 (mklog d)" by (rule notx_mklog) (use assms in simp_all)
  have i: "intx 0 1 {} (mklog d\<lparr>klog := (klog (mklog d))\<lparr>outstanding := 1\<rparr>\<rparr>)" by (rule begin_op_ok(2) [OF n])
  have c: "cache 0 1 r h (logged.extend s m) = cache 0 1 r h s" for r h s and m :: "\<lparr>sb :: superblock, itable :: nat \<Rightarrow> inode\<rparr>"
    by (simp add: cache_def buf_at_def quiet_def settled_def cur_def this_cpu_def this_hart_def)
  show i: "intx 0 1 {} (mkfs_state d tab)" using i by (simp add: intx_def mkfs_state_def c)
  then show "log_space (mkfs_state d tab) = 29" by (simp add: log_space_def logged_blocks_def)
  show "view 1 (mkfs_state d tab) = d"
    using view_clean [OF intx_cache [OF i]] by (simp add: txrefs_def logged_blocks_def fun_eq_iff)
qed

lemma demo_disk_ok: "length (demo_disk k) = BSIZE" "sint (get32 (demo_disk 2) 0) = 0"
  by (simp_all add: demo_disk_def) (simp add: BSIZE_def)

lemma demo_region: "k \<in> log_region (klog (mkfs_state d tab)) \<longleftrightarrow> 2 \<le> unat k \<and> unat k < 32"
proof
  assume "k \<in> log_region (klog (mkfs_state d tab))"
  then obtain j where "j < 30" "k = 2 + of_nat j" by (auto simp: log_region_def)
  moreover have "unat (of_nat (2 + j) :: uint32) = 2 + j" using \<open>j < 30\<close> by (subst unat_of_nat) simp
  ultimately show "2 \<le> unat k \<and> unat k < 32" by simp
next
  assume k: "2 \<le> unat k \<and> unat k < 32"
  then have "k = of_nat (2 + (unat k - 2))" by simp
  then have "k = 2 + of_nat (unat k - 2)" by (simp only: of_nat_add of_nat_numeral)
  with k show "k \<in> log_region (klog (mkfs_state d tab))"
    by (auto simp: log_region_def intro!: image_eqI [of _ _ "unat k - 2"])
qed

lemma demo_BBLOCK: "b < 1000 \<Longrightarrow> BBLOCK (of_nat b) demo_sb = 45"
  by (simp add: BBLOCK_def demo_sb_def BPB_def BSIZE_def word_unat_eq_iff unat_div unat_of_nat unat_word_ariths)

lemma demo_bit:
  assumes "b < 1000"
  shows "blk_free demo_disk demo_sb b \<longleftrightarrow> 46 \<le> b"
proof -
  let ?l = "replicate 5 255 @ [63] @ replicate (BSIZE - 6) (0 :: uint8)"
  have b8: "b mod BPB = b" using assms by (simp add: BPB_def BSIZE_def)
  have e: "?l ! (b div 8) = (if b div 8 < 5 then 255 else if b div 8 = 5 then 63 else 0)"
    using assms by (auto simp: nth_append BSIZE_def nth_Cons' less_mult_imp_div_less)
  have full: "bit (255 :: uint8) n" if "n < 8" for n using that by (simp add: less_Suc_eq numeral_eq_Suc) (elim disjE; simp)
  have part: "bit (63 :: uint8) n \<longleftrightarrow> n < 6" if "n < 8" for n using that by (simp add: less_Suc_eq numeral_eq_Suc) (elim disjE; simp)
  have "blk_free demo_disk demo_sb b \<longleftrightarrow> \<not> bit (?l ! (b div 8)) (b mod 8)"
    by (simp add: blk_free_def demo_BBLOCK [OF assms] bit_free_bit b8 demo_disk_def)
  then show ?thesis using full [of "b mod 8"] part [of "b mod 8"] unfolding e by auto presburger+
qed

lemma bitmap_ok_demo: "bitmap_ok (log_region (klog (mkfs_state demo_disk tab))) demo_sb demo_disk"
proof -
  have s: "unat (sb_size demo_sb) = 1000" by (simp add: demo_sb_def)
  show ?thesis
    unfolding bitmap_ok_def s
  proof (intro allI impI conjI)
    fix b :: nat assume b: "b < 1000"
    show "BBLOCK (of_nat b) demo_sb \<notin> log_region (klog (mkfs_state demo_disk tab))"
      by (simp add: demo_BBLOCK [OF b] demo_region del: mkfs_state_simps)
    assume f: "blk_free demo_disk demo_sb b"
    then have "46 \<le> b" using demo_bit [OF b] by simp
    then have u: "46 \<le> unat (of_nat b :: uint32)" using b by (simp add: unat_of_nat)
    then show "of_nat b \<notin> log_region (klog (mkfs_state demo_disk tab))" by (simp add: demo_region del: mkfs_state_simps)
    fix c :: nat assume c: "c < 1000"
    show "BBLOCK (of_nat c) demo_sb \<noteq> of_nat b" using u by (auto simp: demo_BBLOCK [OF c] simp flip: word_unat_eq_iff)
  qed
qed

lemmas demo_intx = intx_mkfs [of demo_disk, OF demo_disk_ok]

lemma find_demo: "find (blk_free demo_disk demo_sb) [0..<1000] = Some 46"
  by (auto simp: find_Some_iff demo_bit intro!: exI [of _ 46])

theorem balloc_takes_first_free_witness:
  "\<exists>s'. balloc 1 (mkfs_state demo_disk (\<lambda>_. demo_inode)) = Ok (46, s') \<and> blk_free (view 1 s') demo_sb 47 \<and> \<not> blk_free (view 1 s') demo_sb 46"
proof -
  have s: "unat (sb_size demo_sb) = 1000" by (simp add: demo_sb_def)
  have "bitmap_ok (log_region (klog (mkfs_state demo_disk (\<lambda>_. demo_inode)))) (sb (mkfs_state demo_disk (\<lambda>_. demo_inode)))
      (view 1 (mkfs_state demo_disk (\<lambda>_. demo_inode)))"
    using bitmap_ok_demo demo_intx(2) by simp
  from balloc_takes_first_free [OF demo_intx(1) this] show ?thesis
    using demo_bit [of 47] by (auto simp: demo_intx find_demo s)
qed

theorem bfree_clears_bit_witness:
  "\<exists>s'. bfree 1 45 (mkfs_state demo_disk (\<lambda>_. demo_inode)) = Ok ((), s') \<and>
     view 1 s' = demo_disk(45 := set_bit_free (demo_disk 45) 45)"
proof -
  let ?s = "mkfs_state demo_disk (\<lambda>_. demo_inode)"
  have b: "BBLOCK 45 demo_sb = 45" using demo_BBLOCK [of 45] by simp
  have r: "BBLOCK 45 (sb ?s) \<notin> log_region (klog ?s)" by (simp add: demo_region b del: mkfs_state_simps(4))
  have "\<not> bit_free (demo_disk 45) (unat (45 :: uint32) mod BPB)"
    using demo_bit [of 45] by (simp add: blk_free_def b)
  moreover have "(45 :: nat) mod BPB = 45" by (simp add: BPB_def BSIZE_def)
  ultimately show ?thesis
    using bfree_clears_bit [OF demo_intx(1) r] by (auto simp: demo_intx b)
qed

end
