(* ===== verification/Fsinode.thy ===== *)
theory Fsinode
  imports Fsblocks
begin

text \<open>
  Inodes inside a transaction: \<open>iupdate\<close> writes the in-core inode to its place on the disk, \<open>ilock\<close> reads it
  from there, and the two are inverse to each other.
\<close>

section \<open>Changes outside the cache\<close>

lemma cache_inode_lock [simp]:
  "cache p D r h (s\<lparr>sleeplocks := (sleeplocks s)(SlInode i := x)\<rparr>) = cache p D r h s"
  by (simp add: cache_def buf_at_def quiet_def settled_def cur_def this_cpu_def this_hart_def)

lemma cache_itable [simp]: "cache p D r h (s\<lparr>itable := t\<rparr>) = cache p D r h s"
  by (simp add: cache_def buf_at_def quiet_def settled_def cur_def this_cpu_def this_hart_def)

lemma intx_inode_lock [simp]: "intx p D h (s\<lparr>sleeplocks := (sleeplocks s)(SlInode i := x)\<rparr>) = intx p D h s"
  by (simp add: intx_def)

lemma intx_itable [simp]: "intx p D h (s\<lparr>itable := t\<rparr>) = intx p D h s"
  by (simp add: intx_def)

lemma view_inode_lock [simp]: "view D (s\<lparr>sleeplocks := sl\<rparr>) = view D s"
  by (simp add: view_def buf_at_def fun_eq_iff split: option.split)

lemma view_itable [simp]: "view D (s\<lparr>itable := t\<rparr>) = view D s"
  by (simp add: view_def buf_at_def fun_eq_iff split: option.split)

lemma bframe_itable:
  assumes "bframe s t"
  shows "bframe (s\<lparr>itable := x\<rparr>) (t\<lparr>itable := x\<rparr>)"
proof -
  from assms obtain ps sl bc d tr where t: "t = s\<lparr>procs := ps, sleeplocks := sl, bcache := bc, disk := d, dtrace := tr\<rparr>"
    unfolding bframe_def by blast
  then have "t\<lparr>itable := x\<rparr> = (s\<lparr>itable := x\<rparr>)\<lparr>procs := ps, sleeplocks := sl, bcache := bc, disk := d, dtrace := tr\<rparr>" by simp
  then show ?thesis
    by (rule bframeI) (use assms t in \<open>auto simp: bframe_def\<close>)
qed

section \<open>iupdate and ilock\<close>

text \<open>The fields of the in-core inode that are on the disk.\<close>

definition dinode_of :: "inode \<Rightarrow> dinode" where
  "dinode_of i = \<lparr>d_type = i_type i, d_major = i_major i, d_minor = i_minor i, d_nlink = i_nlink i, d_size = i_size i,
     d_addrs = i_addrs i\<rparr>"

definition load_inode :: "dinode \<Rightarrow> inode \<Rightarrow> inode" where
  "load_inode d i = i\<lparr>i_type := d_type d, i_major := d_major d, i_minor := d_minor d, i_nlink := d_nlink d, i_size := d_size d,
     i_addrs := d_addrs d, i_valid := True\<rparr>"

lemma dinode_of_load [simp]: "dinode_of (load_inode d i) = d"
  by (simp add: dinode_of_def load_inode_def)

text \<open>Inode \<open>inum\<close> on a disk of content \<open>v\<close>.\<close>

definition disk_inode :: "disk \<Rightarrow> superblock \<Rightarrow> uint32 \<Rightarrow> dinode" where
  "disk_inode v sbk inum = get_dinode (v (IBLOCK inum sbk)) (dinode_off inum)"

lemma dinode_off_bound: "dinode_off inum + DINODE_SIZE \<le> BSIZE"
proof -
  have "unat inum mod IPB < IPB" by (rule mod_less_divisor) (simp add: IPB_def BSIZE_def DINODE_SIZE_def)
  then show ?thesis by (simp add: dinode_off_def IPB_def BSIZE_def DINODE_SIZE_def)
qed

lemma iupdate_ok:
  assumes t: "intx p D {} s" and i: "i_dev (itable s ip) = D" "length (i_addrs (itable s ip)) = NDIRECT + 1"
    and k: "IBLOCK (i_inum (itable s ip)) (sb s) \<notin> log_region (klog s)" and space: "0 < log_space s"
  obtains s' where "iupdate ip s = Ok ((), s')" "intx p D {} s'"
    "view D s' = (view D s)(IBLOCK (i_inum (itable s ip)) (sb s) :=
       put_dinode (view D s (IBLOCK (i_inum (itable s ip)) (sb s))) (dinode_off (i_inum (itable s ip))) (dinode_of (itable s ip)))"
    "disk s' = disk s" "dtrace s' = dtrace s" "lframe s s'"
    "logged_blocks (klog s') = add_block (IBLOCK (i_inum (itable s ip)) (sb s)) (logged_blocks (klog s))"
proof -
  let ?i = "itable s ip"
  let ?k = "IBLOCK (i_inum ?i) (sb s)" and ?o = "dinode_off (i_inum ?i)"
  let ?f = "\<lambda>d. put_dinode d ?o (dinode_of ?i)"
  have sp: "lh_n (lh (klog s)) < log_size (klog s) - 1" using space intx_lh_n [OF t] by (simp add: log_space_def)
  have len: "length (view D s ?k) = BSIZE" by (rule length_view [OF intx_cache [OF t]])
  have "length (dinode_bytes (dinode_of ?i)) = DINODE_SIZE" using i(2) by (simp add: length_dinode_bytes dinode_of_def)
  then have flen: "length (?f (view D s ?k)) = BSIZE"
    unfolding put_dinode_def using dinode_off_bound [of "i_inum ?i"] len by simp
  obtain bp s1 s2 s3 s4 where s: "bread D ?k s = Ok (bp, s1)" "b_data (bcache s1 bp) = view D s ?k"
    "upd_buf bp (\<lambda>r. r\<lparr>b_data := ?f (b_data r)\<rparr>) s1 = Ok ((), s2)" "log_write bp s2 = Ok ((), s3)" "brelse bp s3 = Ok ((), s4)"
    "intx p D {} s4" "view D s4 = (view D s)(?k := ?f (view D s ?k))" "disk s4 = disk s" "dtrace s4 = dtrace s" "lframe s s4"
    "logged_blocks (klog s4) = add_block ?k (logged_blocks (klog s))"
    by (rule tx_update_block [OF t, of ?k ?f]) (use k sp flen intx_room [OF t] in auto)
  then have "iupdate ip s = Ok ((), s4)" using i(1) by (simp add: iupdate_def run_bnd run_sq get_inode_def dinode_of_def)
  then show ?thesis using s that by blast
qed

lemma run_ilock:
  assumes t: "intx p D {} s" and i: "i_dev (itable s ip) = D" "1 \<le> i_ref (itable s ip)"
    and free: "\<not> sl_locked (sleeplocks s (SlInode ip))"
  defines "s1 \<equiv> s\<lparr>sleeplocks := (sleeplocks s)(SlInode ip := held_by (pid (procs s p)))\<rparr>"
  defines "d \<equiv> disk_inode (view D s) (sb s) (i_inum (itable s ip))"
  shows "i_valid (itable s ip) \<Longrightarrow> ilock (Some ip) s = Ok ((), s1)"
    and "\<not> i_valid (itable s ip) \<Longrightarrow> d_type d = 0 \<Longrightarrow> ilock (Some ip) s = Panic ''ilock: no type''"
    and "\<not> i_valid (itable s ip) \<Longrightarrow> d_type d \<noteq> 0 \<Longrightarrow>
      \<exists>s2. ilock (Some ip) s = Ok ((), s2) \<and> itable s2 = (itable s)(ip := load_inode d (itable s ip)) \<and>
        intx p D {} s2 \<and> view D s2 = view D s \<and> disk s2 = disk s \<and> bframe (s1\<lparr>itable := itable s2\<rparr>) s2"
proof -
  have q: "quiet p s" by (rule cache_quiet [OF intx_cache [OF t]])
  have a: "acquiresleep (SlInode ip) s = Ok ((), s1)" unfolding s1_def by (rule run_acquiresleep [OF q]) (use free in simp)
  have t1: "intx p D {} s1" "view D s1 = view D s" "itable s1 = itable s" "sb s1 = sb s" "disk s1 = disk s" using t by (simp_all add: s1_def)
  show "i_valid (itable s ip) \<Longrightarrow> ilock (Some ip) s = Ok ((), s1)"
    using a i t1 by (simp add: ilock_def run_bnd run_sq get_inode_def)
  let ?k = "IBLOCK (i_inum (itable s ip)) (sb s)"
  let ?t = "(itable s)(ip := (itable s ip)\<lparr>i_type := d_type d, i_major := d_major d, i_minor := d_minor d, i_nlink := d_nlink d,
      i_size := d_size d, i_addrs := d_addrs d\<rparr>)"
  obtain b s2 where s2: "bread D ?k s1 = Ok (b, s2)" "intx p D {?k} s2" "buf_at D s2 b ?k" "b_data (bcache s2 b) = view D s1 ?k"
      "view D s2 = view D s1" "disk s2 = disk s1" "bframe s1 s2"
    by (rule tx_bread [OF t1(1), of ?k]) (use intx_room [OF t1(1)] in auto)
  have t2: "intx p D {?k} (s2\<lparr>itable := ?t\<rparr>)" "buf_at D (s2\<lparr>itable := ?t\<rparr>) b ?k" using s2 by (simp_all add: buf_at_def)
  have "?k \<in> set (logged_blocks (klog s)) \<or> view D s ?k = disk s ?k"
    using view_clean [OF intx_cache [OF t], of ?k] by (cases "?k \<in> set (logged_blocks (klog s))") (simp_all add: txrefs_def)
  then have cl: "?k \<in> set (logged_blocks (klog s2)) \<or> view D s2 ?k = disk s2 ?k"
    using s2 t1 bframe_klog [OF s2(7)] by (simp add: s1_def)
  obtain s3 where s3: "brelse b (s2\<lparr>itable := ?t\<rparr>) = Ok ((), s3)" "intx p D {} s3" "view D s3 = view D s2" "disk s3 = disk s2"
      "bframe (s2\<lparr>itable := ?t\<rparr>) s3"
    by (rule tx_brelse [OF t2]) (use cl in auto)
  have it: "itable s2 = itable s" "itable s3 = ?t" using bframe_fs [OF s2(7)] bframe_fs [OF s3(5)] t1 by simp_all
  let ?u = "s3\<lparr>itable := (itable s)(ip := load_inode d (itable s ip))\<rparr>"
  have dd: "get_dinode (view D s ?k) (dinode_off (i_inum (itable s ip))) = d" by (simp add: d_def disk_inode_def)
  have run: "ilock (Some ip) s = (if d_type d = 0 then Panic ''ilock: no type'' else Ok ((), ?u))" if "\<not> i_valid (itable s ip)"
    using a i t1 s2(1,4) s3(1) that it
    by (simp add: ilock_def run_bnd run_sq get_inode_def upd_inode_def get_buf_def Let_def dd load_inode_def)
  show "\<not> i_valid (itable s ip) \<Longrightarrow> d_type d = 0 \<Longrightarrow> ilock (Some ip) s = Panic ''ilock: no type''" using run by simp
  assume "\<not> i_valid (itable s ip)" "d_type d \<noteq> 0"
  then have "ilock (Some ip) s = Ok ((), ?u)" using run by simp
  moreover have "bframe (s1\<lparr>itable := itable ?u\<rparr>) ?u"
    using bframe_trans [OF bframe_itable [OF s2(7), of "itable ?u", simplified] bframe_itable [OF s3(5), of "itable ?u", simplified]] by simp
  ultimately show "\<exists>s2. ilock (Some ip) s = Ok ((), s2) \<and> itable s2 = (itable s)(ip := load_inode d (itable s ip)) \<and>
        intx p D {} s2 \<and> view D s2 = view D s \<and> disk s2 = disk s \<and> bframe (s1\<lparr>itable := itable s2\<rparr>) s2"
    using s2 s3 t1 by (intro exI [of _ ?u]) simp
qed

section \<open>Round trip\<close>

lemma disk_inode_put:
  assumes "length (v (IBLOCK inum sbk)) = BSIZE" and "length (d_addrs d) = NDIRECT + 1"
  defines "v' \<equiv> v(IBLOCK inum sbk := put_dinode (v (IBLOCK inum sbk)) (dinode_off inum) d)"
  shows "disk_inode v' sbk inum = d"
    and "unat inum mod IPB \<noteq> unat inum' mod IPB \<or> IBLOCK inum' sbk \<noteq> IBLOCK inum sbk \<Longrightarrow> disk_inode v' sbk inum' = disk_inode v sbk inum'"
proof -
  show "disk_inode v' sbk inum = d"
    using get_put_dinode [of "dinode_off inum" "v (IBLOCK inum sbk)" d] dinode_off_bound [of inum] assms by (simp add: disk_inode_def)
  assume a: "unat inum mod IPB \<noteq> unat inum' mod IPB \<or> IBLOCK inum' sbk \<noteq> IBLOCK inum sbk"
  show "disk_inode v' sbk inum' = disk_inode v sbk inum'"
  proof (cases "IBLOCK inum' sbk = IBLOCK inum sbk")
    case True
    with a have "unat inum mod IPB \<noteq> unat inum' mod IPB" by simp
    then have "dinode_off inum' + DINODE_SIZE \<le> dinode_off inum \<or> dinode_off inum + DINODE_SIZE \<le> dinode_off inum'"
      by (auto simp: dinode_off_def DINODE_SIZE_def)
    then show ?thesis
      using get_put_dinode_other [of "dinode_off inum" "v (IBLOCK inum sbk)" d "dinode_off inum'"]
        dinode_off_bound [of inum] dinode_off_bound [of inum'] assms True by (simp add: disk_inode_def)
  qed (simp add: disk_inode_def v'_def)
qed

text \<open>
  C22. \<open>iupdate\<close> followed by \<open>ilock\<close>. \<open>iupdate\<close> returns, and only the inode's place on the disk changes: every
  other inode of the same block and every other block stay as they are. A later \<open>ilock\<close> of any table entry
  for the same inode that has not been read yet returns with the fields that were written.
\<close>

theorem iupdate_ilock_roundtrip:
  assumes t: "intx p D {} s" and i: "i_dev (itable s ip) = D" "length (i_addrs (itable s ip)) = NDIRECT + 1" "i_type (itable s ip) \<noteq> 0"
    and k: "IBLOCK (i_inum (itable s ip)) (sb s) \<notin> log_region (klog s)" and space: "0 < log_space s"
  shows "\<exists>s'. iupdate ip s = Ok ((), s') \<and> intx p D {} s' \<and> itable s' = itable s \<and>
    disk_inode (view D s') (sb s) (i_inum (itable s ip)) = dinode_of (itable s ip) \<and>
    (\<forall>inum. unat inum mod IPB \<noteq> unat (i_inum (itable s ip)) mod IPB \<or> IBLOCK inum (sb s) \<noteq> IBLOCK (i_inum (itable s ip)) (sb s) \<longrightarrow>
      disk_inode (view D s') (sb s) inum = disk_inode (view D s) (sb s) inum) \<and>
    (\<forall>b. b \<noteq> IBLOCK (i_inum (itable s ip)) (sb s) \<longrightarrow> view D s' b = view D s b) \<and>
    (\<forall>j. i_dev (itable s j) = D \<and> i_inum (itable s j) = i_inum (itable s ip) \<and> 1 \<le> i_ref (itable s j) \<and> \<not> i_valid (itable s j) \<and>
        \<not> sl_locked (sleeplocks s (SlInode j)) \<longrightarrow>
      (\<exists>s''. ilock (Some j) s' = Ok ((), s'') \<and> i_valid (itable s'' j) \<and> dinode_of (itable s'' j) = dinode_of (itable s ip)))"
proof -
  let ?i = "itable s ip"
  let ?k = "IBLOCK (i_inum ?i) (sb s)"
  obtain s' where s': "iupdate ip s = Ok ((), s')" "intx p D {} s'"
    "view D s' = (view D s)(?k := put_dinode (view D s ?k) (dinode_off (i_inum ?i)) (dinode_of ?i))" "lframe s s'"
    by (rule iupdate_ok [OF t i(1,2) k space])
  have len: "length (view D s ?k) = BSIZE" by (rule length_view [OF intx_cache [OF t]])
  have addrs: "length (d_addrs (dinode_of ?i)) = NDIRECT + 1" using i(2) by (simp add: dinode_of_def)
  note put = disk_inode_put [where v = "view D s", OF len addrs, folded s'(3)]
  have fr: "sb s' = sb s" "itable s' = itable s" using lframe_fs [OF s'(4)] by simp_all
  have sl: "sleeplocks s' (SlInode j) = sleeplocks s (SlInode j)" for j
    using s'(4) by (simp add: lframe_def bframe_def)
  have lk: "\<exists>s''. ilock (Some j) s' = Ok ((), s'') \<and> i_valid (itable s'' j) \<and> dinode_of (itable s'' j) = dinode_of ?i"
    if j: "i_dev (itable s j) = D \<and> i_inum (itable s j) = i_inum ?i \<and> 1 \<le> i_ref (itable s j) \<and> \<not> i_valid (itable s j) \<and>
        \<not> sl_locked (sleeplocks s (SlInode j))" for j
  proof -
    have "disk_inode (view D s') (sb s') (i_inum (itable s' j)) = dinode_of ?i" using put(1) j fr by simp
    moreover have "d_type (dinode_of ?i) \<noteq> 0" using i(3) by (simp add: dinode_of_def)
    ultimately obtain s'' where "ilock (Some j) s' = Ok ((), s'')" "itable s'' = (itable s')(j := load_inode (dinode_of ?i) (itable s' j))"
      using run_ilock(3) [OF s'(2), of j] j fr sl by auto
    then show ?thesis by (auto simp: load_inode_def) (simp add: dinode_of_def)
  qed
  show ?thesis
    using s' put fr lk by (intro exI [of _ s']) (auto simp: eq_commute)
qed

theorem iupdate_ilock_roundtrip_witness:
  "let s = mkfs_state demo_disk (\<lambda>j. if j = 0 then demo_inode else demo_inode\<lparr>i_valid := False, i_size := 0\<rparr>) in
   \<exists>s' s''. iupdate 0 s = Ok ((), s') \<and> ilock (Some 1) s' = Ok ((), s'') \<and> i_size (itable s'' 1) = 5"
proof -
  let ?s = "mkfs_state demo_disk (\<lambda>j. if j = 0 then demo_inode else demo_inode\<lparr>i_valid := False, i_size := 0\<rparr>)"
  have k: "IBLOCK 7 demo_sb = 32" by (simp add: IBLOCK_def demo_sb_def IPB_def BSIZE_def DINODE_SIZE_def word_unat_eq_iff unat_div)
  have r: "IBLOCK (i_inum (itable ?s 0)) (sb ?s) \<notin> log_region (klog ?s)"
    by (simp add: demo_region k demo_inode_def del: mkfs_state_simps(4))
  have i: "i_dev (itable ?s 0) = 1" "length (i_addrs (itable ?s 0)) = NDIRECT + 1" "i_type (itable ?s 0) \<noteq> 0" "0 < log_space ?s"
    by (simp_all add: demo_inode_def NDIRECT_def T_FILE_def demo_intx)
  have "\<not> sl_locked (sleeplocks ?s (SlInode 1))"
    by (simp add: mkfs_state_def mklog_def booted_bio(6) free_sleep_def)
  then have j: "i_dev (itable ?s 1) = 1 \<and> i_inum (itable ?s 1) = i_inum (itable ?s 0) \<and> 1 \<le> i_ref (itable ?s 1) \<and>
      \<not> i_valid (itable ?s 1) \<and> \<not> sl_locked (sleeplocks ?s (SlInode 1))"
    by (simp add: demo_inode_def)
  obtain s' s'' where "iupdate 0 ?s = Ok ((), s')" "ilock (Some 1) s' = Ok ((), s'')"
      "dinode_of (itable s'' 1) = dinode_of (itable ?s 0)"
    using iupdate_ilock_roundtrip [OF demo_intx(1) i(1-3) r i(4)] j by blast
  moreover from this(3) have "i_size (itable s'' 1) = 5" by (simp add: dinode_of_def demo_inode_def)
  ultimately show ?thesis unfolding Let_def by blast
qed

end
