(* ===== verification/Fsfile.thy ===== *)
theory Fsfile
  imports Fsinode
begin

text \<open>
  The content of files inside a transaction. A file is the array of bytes that its block addresses give;
  \<open>readi\<close> and \<open>writei\<close> read and overwrite ranges of it, block by block.
\<close>

section \<open>The bytes of a file\<close>

text \<open>The address of block \<open>bn\<close> of inode \<open>i\<close> on a disk of content \<open>v\<close>, and byte \<open>j\<close> of the file.\<close>

definition baddr :: "disk \<Rightarrow> inode \<Rightarrow> nat \<Rightarrow> uint32" where
  "baddr v i bn = (if bn < NDIRECT then i_addrs i ! bn else get32 (v (i_addrs i ! NDIRECT)) (4 * (bn - NDIRECT)))"

definition fbyte :: "disk \<Rightarrow> inode \<Rightarrow> nat \<Rightarrow> uint8" where
  "fbyte v i j = v (baddr v i (j div BSIZE)) ! (j mod BSIZE)"

text \<open>The first \<open>n\<close> blocks of the file are allocated.\<close>

definition has_blocks :: "disk \<Rightarrow> inode \<Rightarrow> nat \<Rightarrow> bool" where
  "has_blocks v i n \<longleftrightarrow> n \<le> MAXFILE \<and> (NDIRECT < n \<longrightarrow> i_addrs i ! NDIRECT \<noteq> 0) \<and> (\<forall>bn<n. baddr v i bn \<noteq> 0)"

lemma bmap_ok:
  assumes t: "intx p D {} s" and i: "itable s ip = i" "i_dev i = D" and f: "has_blocks (view D s) i n" and bn: "bn < n"
  obtains s' where "bmap ip bn s = Ok (baddr (view D s) i bn, s')" "intx p D {} s'" "view D s' = view D s" "disk s' = disk s"
    "dtrace s' = dtrace s" "bframe s s'"
proof (cases "bn < NDIRECT")
  case True
  have "baddr (view D s) i bn \<noteq> 0" using f bn by (simp add: has_blocks_def)
  with True have "bmap ip bn s = Ok (baddr (view D s) i bn, s)"
    using i by (simp add: bmap_def run_bnd get_inode_def baddr_def)
  then show ?thesis by (rule that) (use t in simp_all)
next
  case False
  let ?ind = "i_addrs i ! NDIRECT"
  have nz: "?ind \<noteq> 0" "get32 (view D s ?ind) (4 * (bn - NDIRECT)) \<noteq> 0" "bn - NDIRECT < NINDIRECT"
    using f [unfolded has_blocks_def] bn False by (auto simp: baddr_def MAXFILE_def)
  obtain b s1 s2 where s: "bread D ?ind s = Ok (b, s1)" "b_data (bcache s1 b) = view D s ?ind" "brelse b s1 = Ok ((), s2)"
    "intx p D {} s2" "view D s2 = view D s" "disk s2 = disk s" "dtrace s2 = dtrace s" "bframe s s2"
    by (rule tx_read_block [OF t, of ?ind]) (use intx_room [OF t] in auto)
  have "bmap ip bn s = Ok (baddr (view D s) i bn, s2)"
    using i False nz s(1-3) by (simp add: bmap_def run_bnd run_sq get_inode_def get_buf_def baddr_def Let_def)
  then show ?thesis by (rule that) (use s in simp_all)
qed

section \<open>readi\<close>

text \<open>The part of a block that one round of the loops of \<open>readi\<close> and \<open>writei\<close> handles.\<close>

definition chunk :: "nat \<Rightarrow> nat \<Rightarrow> nat" where
  "chunk off n = min n (BSIZE - off mod BSIZE)"

lemma BSIZE_pos: "0 < BSIZE" by (simp add: BSIZE_def)

lemma chunk_bounds: "off mod BSIZE + chunk off n \<le> BSIZE" "chunk off n \<le> n" "0 < n \<Longrightarrow> 0 < chunk off n"
  using mod_less_divisor [OF BSIZE_pos, of off] by (auto simp: chunk_def)

lemma chunk_div: "j < chunk off n \<Longrightarrow> (off + j) div BSIZE = off div BSIZE \<and> (off + j) mod BSIZE = off mod BSIZE + j"
proof -
  assume "j < chunk off n"
  then have lt: "off mod BSIZE + j < BSIZE" using chunk_bounds(1) [of off n] by simp
  have e: "BSIZE * (off div BSIZE) + (off mod BSIZE + j) = off + j" by simp
  have "(BSIZE * q + r) div BSIZE = q \<and> (BSIZE * q + r) mod BSIZE = r" if "r < BSIZE" for q r using that by simp
  from this [OF lt, of "off div BSIZE"] show ?thesis unfolding e .
qed

lemma fbytes_chunk:
  assumes "length (v (baddr v i (off div BSIZE))) = BSIZE"
  shows "slice (off mod BSIZE) (chunk off n) (v (baddr v i (off div BSIZE))) = map (fbyte v i) [off..<off + chunk off n]"
proof (rule nth_equalityI)
  show "length (slice (off mod BSIZE) (chunk off n) (v (baddr v i (off div BSIZE)))) = length (map (fbyte v i) [off..<off + chunk off n])"
    using chunk_bounds(1) [of off n] assms by (simp add: slice_def)
  fix j assume "j < length (slice (off mod BSIZE) (chunk off n) (v (baddr v i (off div BSIZE))))"
  then have j: "j < chunk off n" by (simp add: slice_def)
  then show "slice (off mod BSIZE) (chunk off n) (v (baddr v i (off div BSIZE))) ! j = map (fbyte v i) [off..<off + chunk off n] ! j"
    using chunk_div [OF j] chunk_bounds(1) [of off n] assms by (simp add: slice_def fbyte_def)
qed

lemma run_either_copyout_var:
  assumes "quiet p s"
  shows "either_copyout (KernVar bs) src s = Ok (0, s)"
  using run_this_proc [OF quietD(1,3) [OF assms]] by (simp add: either_copyout_def run_bnd get_proc_def)

lemma readi_loop_ok:
  assumes "intx p D {} s" and "itable s ip = i" "i_dev i = D" and "has_blocks (view D s) i nb" and "off + n \<le> nb * BSIZE"
  shows "\<exists>s'. readi_loop ip (KernVar bs) off n acc s = Ok ((int (length acc + n), acc @ map (fbyte (view D s) i) [off..<off + n]), s') \<and>
    intx p D {} s' \<and> view D s' = view D s \<and> disk s' = disk s \<and> dtrace s' = dtrace s \<and> bframe s s'"
  using assms
proof (induction n arbitrary: s off bs acc rule: less_induct)
  case (less n)
  show ?case
  proof (cases "n = 0")
    case True
    then show ?thesis using less.prems by (simp add: readi_loop.simps)
  next
    case False
    let ?v = "view D s" and ?bn = "off div BSIZE" and ?m = "chunk off n"
    let ?a = "baddr ?v i ?bn"
    have bn: "?bn < nb"
      using less.prems(5) False BSIZE_pos by (simp add: div_less_iff_less_mult)
    obtain s1 where 1: "bmap ip ?bn s = Ok (?a, s1)" "intx p D {} s1" "view D s1 = ?v" "disk s1 = disk s" "dtrace s1 = dtrace s" "bframe s s1"
      by (rule bmap_ok [OF less.prems(1-4) bn])
    obtain b s2 s3 where 2: "bread D ?a s1 = Ok (b, s2)" "b_data (bcache s2 b) = ?v ?a" "brelse b s2 = Ok ((), s3)" "intx p D {?a} s2"
      "intx p D {} s3" "view D s3 = ?v" "disk s3 = disk s1" "dtrace s3 = dtrace s1" "bframe s1 s3"
      by (rule tx_read_block [OF 1(2), of ?a]) (use intx_room [OF 1(2)] 1(3) in auto)
    have q: "quiet p s2" by (rule cache_quiet [OF intx_cache [OF 2(4)]])
    have len: "length (?v ?a) = BSIZE" by (rule length_view [OF intx_cache [OF less.prems(1)]])
    note fr = bframe_trans [OF 1(6) 2(9)]
    have step: "readi_loop ip (KernVar bs) off n acc s =
        readi_loop ip (KernVar (drop ?m bs)) (off + ?m) (n - ?m) (acc @ map (fbyte ?v i) [off..<off + ?m]) s3"
      using False less.prems(2,3) 1(1) 2(1-3) run_either_copyout_var [OF q, of bs]
      by (subst readi_loop.simps)
        (simp add: run_bnd run_sq get_inode_def get_buf_def Let_def fbytes_chunk [where v = ?v, OF len] flip: chunk_def)
    have "\<exists>s'. readi_loop ip (KernVar (drop ?m bs)) (off + ?m) (n - ?m) (acc @ map (fbyte ?v i) [off..<off + ?m]) s3 =
        Ok ((int (length (acc @ map (fbyte ?v i) [off..<off + ?m]) + (n - ?m)),
          (acc @ map (fbyte ?v i) [off..<off + ?m]) @ map (fbyte (view D s3) i) [off + ?m..<off + ?m + (n - ?m)]), s') \<and>
        intx p D {} s' \<and> view D s' = view D s3 \<and> disk s' = disk s3 \<and> dtrace s' = dtrace s3 \<and> bframe s3 s'"
      by (rule less.IH) (use chunk_bounds [of n off] chunk_bounds [of off n] False less.prems 2 bframe_fs [OF fr] in auto)
    then obtain s' where s': "readi_loop ip (KernVar bs) off n acc s = Ok ((int (length acc + ?m + (n - ?m)),
          acc @ map (fbyte ?v i) [off..<off + ?m] @ map (fbyte ?v i) [off + ?m..<off + ?m + (n - ?m)]), s')"
        "intx p D {} s'" "view D s' = view D s3" "disk s' = disk s3" "dtrace s' = dtrace s3" "bframe s3 s'"
      unfolding step by (auto simp: 2(6))
    have m: "?m + (n - ?m) = n" using chunk_bounds(2) [of off n] by simp
    have "[off..<off + n] = [off..<off + ?m] @ [off + ?m..<off + ?m + (n - ?m)]"
      using upt_add_eq_append [of off "off + ?m" "n - ?m"] m by (simp add: add.assoc)
    then show ?thesis
      using s' 1 2 bframe_trans [OF fr s'(6)] m by (intro exI [of _ s']) (simp add: add.assoc)
  qed
qed

text \<open>The number of bytes \<open>readi\<close> can read.\<close>

definition readable :: "inode \<Rightarrow> uint32 \<Rightarrow> uint32 \<Rightarrow> nat" where
  "readable i off n = (if off > i_size i \<or> off + n < off then 0 else min (unat n) (unat (i_size i) - unat off))"

lemma no_wrap: "\<not> off + n < off \<Longrightarrow> unat (off + n) = unat off + unat n" for off n :: uint32
  by (metis le_no_overflow not_less unat_plus_simple)

lemma readi_ok:
  assumes t: "intx p D {} s" and i: "itable s ip = i" "i_dev i = D" and f: "has_blocks (view D s) i nb" and sz: "unat (i_size i) \<le> nb * BSIZE"
  shows "\<exists>s'. readi ip (KernVar bs) off n s =
      Ok ((int (readable i off n), map (fbyte (view D s) i) [unat off..<unat off + readable i off n]), s') \<and>
    intx p D {} s' \<and> view D s' = view D s \<and> disk s' = disk s \<and> dtrace s' = dtrace s \<and> bframe s s'"
proof (cases "off > i_size i \<or> off + n < off")
  case True
  then have "readi ip (KernVar bs) off n s = Ok ((0, []), s)" using i by (simp add: readi_def run_bnd get_inode_def)
  then show ?thesis using True t by (simp add: readable_def)
next
  case False
  let ?n = "if off + n > i_size i then i_size i - off else n"
  have le: "off \<le> i_size i" using False by auto
  have w: "unat (off + n) = unat off + unat n" by (rule no_wrap) (use False in simp)
  have "off + n > i_size i \<longleftrightarrow> unat off + unat n > unat (i_size i)" by (simp add: word_less_nat_alt w)
  moreover have "unat (i_size i - off) = unat (i_size i) - unat off" by (rule unat_sub [OF le])
  ultimately have n: "unat ?n = readable i off n" using False by (simp add: readable_def)
  have "unat off \<le> unat (i_size i)" using le by (simp add: word_le_nat_alt)
  then have "unat off + unat ?n \<le> nb * BSIZE" using sz unfolding n by (auto simp: readable_def)
  from readi_loop_ok [OF t i f this, of bs "[]"] show ?thesis
    using False i unfolding n by (simp add: readi_def run_bnd get_inode_def Let_def n)
qed

section \<open>writei\<close>

text \<open>
  The blocks of a file, apart from the log and from each other, so that writing one of them changes no other.
\<close>

definition file_wf :: "uint32 set \<Rightarrow> disk \<Rightarrow> inode \<Rightarrow> nat \<Rightarrow> bool" where
  "file_wf reg v i nb \<longleftrightarrow> has_blocks v i nb \<and> inj_on (baddr v i) {..<nb} \<and> baddr v i ` {..<nb} \<inter> reg = {} \<and>
     i_addrs i ! NDIRECT \<notin> baddr v i ` {..<nb}"

lemma baddr_upd:
  assumes "file_wf reg v i nb" and "bn < nb" and "bn' < nb"
  shows "baddr (v(baddr v i bn := x)) i bn' = baddr v i bn'"
  using assms by (auto simp: file_wf_def baddr_def)

lemma file_wf_upd:
  assumes "file_wf reg v i nb" and "bn < nb"
  shows "file_wf reg (v(baddr v i bn := x)) i nb"
  using assms baddr_upd [OF assms]
  by (auto simp: file_wf_def has_blocks_def inj_on_def image_iff)

text \<open>Patching a chunk of one block patches the file.\<close>

lemma fbyte_patch:
  assumes wf: "file_wf reg v i nb" and bn: "off div BSIZE < nb" and len: "\<And>k. length (v k) = BSIZE"
    and bs: "length xs = chunk off n" and j: "j < nb * BSIZE"
  defines "a \<equiv> baddr v i (off div BSIZE)"
  shows "fbyte (v(a := patch (off mod BSIZE) xs (v a))) i j =
    (if off \<le> j \<and> j < off + chunk off n then xs ! (j - off) else fbyte v i j)"
proof -
  let ?m = "chunk off n" and ?v = "v(a := patch (off mod BSIZE) xs (v a))"
  have jn: "j div BSIZE < nb" using j BSIZE_pos by (simp add: div_less_iff_less_mult)
  have b: "baddr ?v i (j div BSIZE) = baddr v i (j div BSIZE)" unfolding a_def by (rule baddr_upd [OF wf bn jn])
  have fit: "off mod BSIZE + length xs \<le> length (v a)" using chunk_bounds(1) [of off n] len bs by simp
  have jm: "j mod BSIZE < length (v a)" using len mod_less_divisor [OF BSIZE_pos] by simp
  show ?thesis
  proof (cases "j div BSIZE = off div BSIZE")
    case True
    then have e: "j = off div BSIZE * BSIZE + j mod BSIZE" "off = off div BSIZE * BSIZE + off mod BSIZE"
      by (metis div_mult_mod_eq)+
    have o1: "off \<le> j \<longleftrightarrow> off mod BSIZE \<le> j mod BSIZE" using e by linarith
    have o2: "j - off = j mod BSIZE - off mod BSIZE" using e by linarith
    have o3: "j < off + ?m \<longleftrightarrow> j mod BSIZE < off mod BSIZE + ?m" using e by linarith
    note o = o1 o2 o3
    have "fbyte ?v i j = patch (off mod BSIZE) xs (v a) ! (j mod BSIZE)" using True b by (simp add: fbyte_def a_def)
    also have "\<dots> = (if off mod BSIZE \<le> j mod BSIZE \<and> j mod BSIZE < off mod BSIZE + length xs
        then xs ! (j mod BSIZE - off mod BSIZE) else v a ! (j mod BSIZE))"
      by (rule nth_patch [OF fit jm])
    finally show ?thesis using True o bs by (auto simp: fbyte_def a_def)
  next
    case False
    then have ne: "baddr v i (j div BSIZE) \<noteq> a"
      using wf bn jn unfolding file_wf_def a_def inj_on_def by auto
    have "\<not> (off \<le> j \<and> j < off + ?m)"
    proof
      assume "off \<le> j \<and> j < off + ?m"
      then have "j - off < ?m" "off + (j - off) = j" by linarith+
      with chunk_div [of "j - off" off n] False show False by simp
    qed
    then show ?thesis using ne b by (auto simp: fbyte_def)
  qed
qed

lemma run_either_copyin_var:
  assumes "quiet p s"
  shows "either_copyin (KernVar bs) m s = Ok ((0, take m bs), s)"
  using run_this_proc [OF quietD(1,3) [OF assms]] by (simp add: either_copyin_def run_bnd get_proc_def)

text \<open>The number of blocks that a range of bytes touches.\<close>

definition nblocks_of :: "nat \<Rightarrow> nat \<Rightarrow> nat" where
  "nblocks_of off n = (if n = 0 then 0 else (off mod BSIZE + n + (BSIZE - 1)) div BSIZE)"

lemma nblocks_of_step:
  assumes "0 < n"
  shows "nblocks_of off n = Suc (nblocks_of (off + chunk off n) (n - chunk off n))"
proof (cases "n \<le> BSIZE - off mod BSIZE")
  case True
  have lt: "off mod BSIZE < BSIZE" by (rule mod_less_divisor [OF BSIZE_pos])
  have c: "chunk off n = n" using True by (simp add: chunk_def)
  have "BSIZE \<le> off mod BSIZE + n + (BSIZE - 1)" "off mod BSIZE + n + (BSIZE - 1) < 2 * BSIZE" using True lt assms BSIZE_pos by linarith+
  then have "nblocks_of off n = 1" using assms by (simp add: nblocks_of_def div_nat_eqI)
  then show ?thesis using c by (simp add: nblocks_of_def)
next
  case False
  have lt: "off mod BSIZE < BSIZE" by (rule mod_less_divisor [OF BSIZE_pos])
  have c: "chunk off n = BSIZE - off mod BSIZE" using False by (simp add: chunk_def)
  have "off = off div BSIZE * BSIZE + off mod BSIZE" by simp
  then have "off + (BSIZE - off mod BSIZE) = off div BSIZE * BSIZE + BSIZE" using lt by linarith
  then have m: "(off + chunk off n) mod BSIZE = 0" unfolding c by simp
  have "off mod BSIZE + n + (BSIZE - 1) = (n - chunk off n + (BSIZE - 1)) + BSIZE" using False lt c by simp
  moreover have "(x + BSIZE) div BSIZE = Suc (x div BSIZE)" for x by (simp add: BSIZE_def)
  moreover have "n - chunk off n \<noteq> 0" using False c by simp
  ultimately show ?thesis using assms by (simp only: nblocks_of_def m if_False add_0) simp
qed

lemma writei_loop_ok:
  assumes "intx p D {} s" and "itable s ip = i" "i_dev i = D" and "file_wf (log_region (klog s)) (view D s) i nb"
    and "off + n \<le> nb * BSIZE" and "n \<le> length bs" and "int (nblocks_of off n) < log_space s"
  shows "\<exists>s'. writei_loop ip (KernVar bs) off n tot s = Ok ((off + n, tot + n), s') \<and>
    intx p D {} s' \<and> disk s' = disk s \<and> lframe s s' \<and>
    log_space s - int (nblocks_of off n) \<le> log_space s' \<and>
    (\<forall>k. k \<notin> baddr (view D s) i ` {..<nb} \<longrightarrow> view D s' k = view D s k) \<and>
    file_wf (log_region (klog s)) (view D s') i nb \<and> (\<forall>bn<nb. baddr (view D s') i bn = baddr (view D s) i bn) \<and>
    (\<forall>j < nb * BSIZE. fbyte (view D s') i j = (if off \<le> j \<and> j < off + n then bs ! (j - off) else fbyte (view D s) i j))"
  using assms
proof (induction n arbitrary: s off bs tot rule: less_induct)
  case (less n)
  show ?case
  proof (cases "n = 0")
    case True
    then show ?thesis using less.prems by (auto simp: writei_loop.simps nblocks_of_def)
  next
    case False
    let ?v = "view D s" and ?bn = "off div BSIZE" and ?m = "chunk off n" and ?reg = "log_region (klog s)"
    let ?a = "baddr ?v i ?bn" and ?o = "off mod BSIZE"
    note wf = less.prems(4) and m = chunk_bounds(1,2) [of off n]
    have mp: "0 < ?m" using chunk_bounds(3) [of n off] False by simp
    have hb: "has_blocks ?v i nb" using wf by (simp add: file_wf_def)
    have bn: "?bn < nb" using less.prems(5) False BSIZE_pos by (simp add: div_less_iff_less_mult)
    have len: "length (?v k) = BSIZE" for k by (rule length_view [OF intx_cache [OF less.prems(1)]])
    obtain s1 where 1: "bmap ip ?bn s = Ok (?a, s1)" "intx p D {} s1" "view D s1 = ?v" "disk s1 = disk s" "dtrace s1 = dtrace s" "bframe s s1"
      by (rule bmap_ok [OF less.prems(1-3) hb bn])
    have k1: "klog s1 = klog s" by (rule bframe_klog [OF 1(6)])
    have areg: "?a \<notin> log_region (klog s1)" using wf bn unfolding file_wf_def k1 by auto
    have tl: "length (take ?m bs) = ?m" using m(2) less.prems(6) by simp
    let ?f = "\<lambda>d. patch ?o (take ?m bs) d"
    have flen: "length (?f (view D s1 ?a)) = BSIZE" using tl m(1) len 1(3) by simp
    have sp: "lh_n (lh (klog s1)) < log_size (klog s1) - 1"
      using less.prems(7) intx_lh_n [OF 1(2)] by (simp add: log_space_def k1)
    obtain b s2 s3 s4 s5 where 2: "bread D ?a s1 = Ok (b, s2)" "bframe s1 s2"
      "upd_buf b (\<lambda>r. r\<lparr>b_data := ?f (b_data r)\<rparr>) s2 = Ok ((), s3)" "log_write b s3 = Ok ((), s4)" "brelse b s4 = Ok ((), s5)"
      "intx p D {} s5" "view D s5 = (view D s1)(?a := ?f (view D s1 ?a))" "disk s5 = disk s1" "lframe s1 s5"
      "logged_blocks (klog s5) = add_block ?a (logged_blocks (klog s1))" "intx p D {?a} s2"
      by (rule tx_update_block [OF 1(2), of ?a ?f]) (use areg sp flen intx_room [OF 1(2)] in auto)
    have q: "quiet p s2"
      by (rule cache_quiet [OF intx_cache [OF 2(11)]])
    note fr = lframe_trans [OF bframe_lframe [OF 1(6)] 2(9)]
    have v5: "view D s5 = ?v(?a := ?f (?v ?a))" using 2(7) 1(3) by simp
    have step: "writei_loop ip (KernVar bs) off n tot s = writei_loop ip (KernVar (drop ?m bs)) (off + ?m) (n - ?m) (tot + ?m) s5"
      using False less.prems(2,3) 1(1) 2(1-5) run_either_copyin_var [OF q, of bs ?m]
      by (subst writei_loop.simps) (simp add: run_bnd run_sq get_inode_def Let_def flip: chunk_def)
    have nbk: "nblocks_of off n = Suc (nblocks_of (off + ?m) (n - ?m))" by (rule nblocks_of_step) (use False in simp)
    have sp5: "log_space s - 1 \<le> log_space s5"
      using length_add_block [of ?a "logged_blocks (klog s)"] lframe_size [OF fr] by (simp add: log_space_def 2(10) k1)
    have wf5: "file_wf (log_region (klog s5)) (view D s5) i nb"
      unfolding v5 lframe_region [OF fr] by (rule file_wf_upd [OF wf bn])
    have ba5: "baddr (view D s5) i bn' = baddr ?v i bn'" if "bn' < nb" for bn' unfolding v5 by (rule baddr_upd [OF wf bn that])
    have "\<exists>s'. writei_loop ip (KernVar (drop ?m bs)) (off + ?m) (n - ?m) (tot + ?m) s5 = Ok ((off + ?m + (n - ?m), tot + ?m + (n - ?m)), s') \<and>
      intx p D {} s' \<and> disk s' = disk s5 \<and> lframe s5 s' \<and>
      log_space s5 - int (nblocks_of (off + ?m) (n - ?m)) \<le> log_space s' \<and>
      (\<forall>k. k \<notin> baddr (view D s5) i ` {..<nb} \<longrightarrow> view D s' k = view D s5 k) \<and>
      file_wf (log_region (klog s5)) (view D s') i nb \<and> (\<forall>bn<nb. baddr (view D s') i bn = baddr (view D s5) i bn) \<and>
      (\<forall>j < nb * BSIZE. fbyte (view D s') i j =
        (if off + ?m \<le> j \<and> j < off + ?m + (n - ?m) then drop ?m bs ! (j - (off + ?m)) else fbyte (view D s5) i j))"
      by (rule less.IH) (use m mp False less.prems 2(6) lframe_fs [OF fr] wf5 sp5 nbk in auto)
    then obtain s' where s': "writei_loop ip (KernVar bs) off n tot s = Ok ((off + n, tot + n), s')"
      "intx p D {} s'" "disk s' = disk s5" "lframe s5 s'" "log_space s5 - int (nblocks_of (off + ?m) (n - ?m)) \<le> log_space s'"
      "\<forall>k. k \<notin> baddr (view D s5) i ` {..<nb} \<longrightarrow> view D s' k = view D s5 k" "file_wf (log_region (klog s5)) (view D s') i nb"
      "\<forall>bn<nb. baddr (view D s') i bn = baddr (view D s5) i bn"
      "\<forall>j < nb * BSIZE. fbyte (view D s') i j =
        (if off + ?m \<le> j \<and> j < off + n then drop ?m bs ! (j - (off + ?m)) else fbyte (view D s5) i j)"
      unfolding step using m(2) by auto
    have img: "baddr (view D s5) i ` {..<nb} = baddr ?v i ` {..<nb}" using ba5 by auto
    have bytes: "fbyte (view D s') i j = (if off \<le> j \<and> j < off + n then bs ! (j - off) else fbyte ?v i j)" if j: "j < nb * BSIZE" for j
    proof -
      have "fbyte (view D s5) i j = (if off \<le> j \<and> j < off + ?m then take ?m bs ! (j - off) else fbyte ?v i j)"
        unfolding v5 by (rule fbyte_patch [OF wf bn len tl j])
      moreover have "drop ?m bs ! (j - (off + ?m)) = bs ! (j - off)" if "off + ?m \<le> j" "j < off + n"
        using that less.prems(6) m(2) by (simp add: add.commute)
      ultimately show ?thesis using s'(9) j m(2) by (auto simp: not_less)
    qed
    show ?thesis
      using s' 1 2 lframe_trans [OF fr s'(4)] lframe_region [OF fr] sp5 nbk bytes ba5 bn
      by (intro exI [of _ s']) (auto simp: img v5)
  qed
qed

lemma baddr_size [simp]: "baddr v (i\<lparr>i_size := z\<rparr>) = baddr v i"
  by (simp add: baddr_def fun_eq_iff)

lemma fbyte_size [simp]: "fbyte v (i\<lparr>i_size := z\<rparr>) = fbyte v i"
  by (simp add: fbyte_def fun_eq_iff)

lemma has_blocks_size [simp]: "has_blocks v (i\<lparr>i_size := z\<rparr>) = has_blocks v i"
  by (simp add: has_blocks_def fun_eq_iff)

lemma log_space_itable [simp]: "log_space (s\<lparr>itable := t\<rparr>) = log_space s"
  by (simp add: log_space_def)

text \<open>A block that is neither a block of the file nor its indirect block does not matter to the file.\<close>

lemma fbyte_other:
  assumes "file_wf reg v i nb" and "k \<notin> baddr v i ` {..<nb}" and "k \<noteq> i_addrs i ! NDIRECT"
  shows "bn < nb \<Longrightarrow> baddr (v(k := x)) i bn = baddr v i bn" and "j < nb * BSIZE \<Longrightarrow> fbyte (v(k := x)) i j = fbyte v i j"
    and "has_blocks (v(k := x)) i nb"
proof -
  show b: "baddr (v(k := x)) i bn = baddr v i bn" if "bn < nb" for bn using assms(3) by (simp add: baddr_def)
  show "fbyte (v(k := x)) i j = fbyte v i j" if "j < nb * BSIZE"
  proof -
    have "j div BSIZE < nb" using that BSIZE_pos by (simp add: div_less_iff_less_mult)
    with b [OF this] assms(2) show ?thesis by (auto simp: fbyte_def)
  qed
  show "has_blocks (v(k := x)) i nb" using assms(1) b by (simp add: file_wf_def has_blocks_def)
qed

text \<open>The file after \<open>bs\<close> has been written at \<open>off\<close>.\<close>

definition written :: "nat \<Rightarrow> uint8 list \<Rightarrow> (nat \<Rightarrow> uint8) \<Rightarrow> nat \<Rightarrow> uint8" where
  "written off bs f j = (if off \<le> j \<and> j < off + length bs then bs ! (j - off) else f j)"

lemma writei_ok:
  assumes t: "intx p D {} s" and i: "itable s ip = i" "i_dev i = D" "length (i_addrs i) = NDIRECT + 1"
    and wf: "file_wf (log_region (klog s)) (view D s) i nb" and off: "off \<le> i_size i" "\<not> off + n < off" "unat off + unat n \<le> nb * BSIZE"
    and bs: "unat n = length bs" and space: "int (nblocks_of (unat off) (unat n)) + 1 < log_space s"
    and k: "IBLOCK (i_inum i) (sb s) \<notin> log_region (klog s)" "IBLOCK (i_inum i) (sb s) \<notin> baddr (view D s) i ` {..<nb}"
      "IBLOCK (i_inum i) (sb s) \<noteq> i_addrs i ! NDIRECT"
  defines "i' \<equiv> i\<lparr>i_size := max (i_size i) (off + n)\<rparr>"
  obtains s' where "writei ip (KernVar bs) off n s = Ok (int (unat n), s')" "intx p D {} s'" "disk s' = disk s"
    "itable s' = (itable s)(ip := i')" "disk_inode (view D s') (sb s) (i_inum i) = dinode_of i'" "sb s' = sb s"
    "\<And>j. j < nb * BSIZE \<Longrightarrow> fbyte (view D s') i' j = written (unat off) bs (fbyte (view D s) i) j"
    "has_blocks (view D s') i' nb" "\<And>b. b \<notin> baddr (view D s) i ` {..<nb} \<Longrightarrow> b \<noteq> IBLOCK (i_inum i) (sb s) \<Longrightarrow> view D s' b = view D s b"
proof -
  let ?k = "IBLOCK (i_inum i) (sb s)"
  have w: "unat (off + n) = unat off + unat n" by (rule no_wrap [OF off(2)])
  have "nb * BSIZE \<le> MAXFILE * BSIZE" using wf by (simp add: file_wf_def has_blocks_def)
  then have mxf: "\<not> MAXFILE * BSIZE < unat off + unat n" using off(3) by linarith
  obtain s1 where 1: "writei_loop ip (KernVar bs) (unat off) (unat n) 0 s = Ok ((unat off + unat n, unat n), s1)"
    "intx p D {} s1" "disk s1 = disk s" "lframe s s1" "log_space s - int (nblocks_of (unat off) (unat n)) \<le> log_space s1"
    "\<forall>k. k \<notin> baddr (view D s) i ` {..<nb} \<longrightarrow> view D s1 k = view D s k" "file_wf (log_region (klog s)) (view D s1) i nb"
    "\<forall>bn<nb. baddr (view D s1) i bn = baddr (view D s) i bn"
    "\<forall>j < nb * BSIZE. fbyte (view D s1) i j = (if unat off \<le> j \<and> j < unat off + unat n then bs ! (j - unat off) else fbyte (view D s) i j)"
    using writei_loop_ok [OF t i(1,2) wf off(3), of bs 0] bs space by auto
  have fs1: "sb s1 = sb s" "itable s1 = itable s" by (rule lframe_fs [OF 1(4)])+
  let ?t = "(itable s)(ip := i')"
  let ?s2 = "s1\<lparr>itable := ?t\<rparr>"
  have mx: "(if unat off + unat n > unat (i_size i) then i\<lparr>i_size := of_nat (unat off + unat n)\<rparr> else i) = i'"
  proof (cases "unat off + unat n > unat (i_size i)")
    case True
    then have "max (i_size i) (off + n) = off + n" by (simp add: max_def word_le_nat_alt w)
    then show ?thesis using True by (simp add: i'_def flip: w)
  next
    case False
    then have "max (i_size i) (off + n) = i_size i" by (simp add: max_absorb1 word_le_nat_alt w)
    then show ?thesis using False by (simp add: i'_def)
  qed
  have upd: "(if unat off + unat n > unat (i_size i) then upd_inode ip (\<lambda>i. i\<lparr>i_size := of_nat (unat off + unat n)\<rparr>) else ret ()) s1 = Ok ((), ?s2)"
  proof (cases "unat off + unat n > unat (i_size i)")
    case True
    then have "i' = i\<lparr>i_size := of_nat (unat off + unat n)\<rparr>" using mx by simp
    then show ?thesis using True fs1 i(1) by (simp add: upd_inode_def)
  next
    case False
    then have "i' = i" using mx by simp
    then have "?t = itable s1" using fs1 i(1) by auto
    then show ?thesis using False by simp
  qed
  have i': "i_dev i' = D" "length (i_addrs i') = NDIRECT + 1" "i_inum i' = i_inum i" "i_addrs i' = i_addrs i" using i by (simp_all add: i'_def)
  obtain s3 where 3: "iupdate ip ?s2 = Ok ((), s3)" "intx p D {} s3"
    "view D s3 = (view D s1)(?k := put_dinode (view D s1 ?k) (dinode_off (i_inum i)) (dinode_of i'))" "disk s3 = disk s1" "lframe ?s2 s3"
    by (rule iupdate_ok [of p D ?s2 ip]) (use 1 i' k space lframe_region [OF 1(4)] fs1 in auto)
  have run: "writei ip (KernVar bs) off n s = Ok (int (unat n), s3)"
    using off(1,2) i(1) mxf w 1(1) upd 3(1) fs1
    by (simp add: writei_def run_bnd run_sq get_inode_def not_less [symmetric])
  have len: "length (view D s1 ?k) = BSIZE" by (rule length_view [OF intx_cache [OF 1(2)]])
  have ad: "length (d_addrs (dinode_of i')) = NDIRECT + 1" using i' by (simp add: dinode_of_def)
  have img: "baddr (view D s1) i ` {..<nb} = baddr (view D s) i ` {..<nb}" using 1(8) by auto
  have k1: "?k \<notin> baddr (view D s1) i ` {..<nb}" using k(2) img by simp
  note oth = fbyte_other [where x = "put_dinode (view D s1 ?k) (dinode_off (i_inum i)) (dinode_of i')", OF 1(7) k1 k(3), folded 3(3)]
  have fb: "fbyte (view D s3) i' j = written (unat off) bs (fbyte (view D s) i) j" if "j < nb * BSIZE" for j
    using oth(2) [OF that] 1(9) that bs by (simp add: i'_def written_def)
  have hb: "has_blocks (view D s3) i' nb" using oth(3) by (simp add: i'_def)
  have fs3: "itable s3 = ?t" "sb s3 = sb s" using lframe_fs [OF 3(5)] fs1 by simp_all
  show ?thesis
    using run
  proof (rule that)
    show "disk_inode (view D s3) (sb s) (i_inum i) = dinode_of i'"
      unfolding 3(3) by (rule disk_inode_put(1) [where v = "view D s1"]) (use len ad in simp_all)
    show "view D s3 b = view D s b" if "b \<notin> baddr (view D s) i ` {..<nb}" "b \<noteq> ?k" for b
      using that 1(6) by (simp add: 3(3))
  qed (use 1 3 fb hb fs3 in auto)
qed

section \<open>Properties\<close>

text \<open>
  C19. \<open>readi\<close> of a file whose blocks are allocated returns the bytes of the file from \<open>off\<close> on, as many as
  were asked for or as there are up to the end of the file, and none when \<open>off\<close> is past the end or
  \<open>off + n\<close> overflows. It changes neither the inode nor the content of any block.
\<close>

theorem readi_reads_file:
  assumes "intx p D {} s" and "itable s ip = i" "i_dev i = D" and "has_blocks (view D s) i nb" and "unat (i_size i) \<le> nb * BSIZE"
  shows "\<exists>s'. readi ip (KernVar bs) off n s =
      Ok ((int (readable i off n), map (fbyte (view D s) i) [unat off..<unat off + readable i off n]), s') \<and>
    intx p D {} s' \<and> view D s' = view D s \<and> disk s' = disk s \<and> itable s' = itable s"
  using readi_ok [OF assms] bframe_fs by blast


text \<open>A file of five bytes with one block, block 100.\<close>

definition file_inode :: inode where
  "file_inode = demo_inode\<lparr>i_addrs := 100 # replicate 12 0\<rparr>"

lemma file_inode_wf: "file_wf (log_region (klog (mkfs_state d tab))) v file_inode 1" "has_blocks v file_inode 1"
proof -
  have b: "baddr v file_inode bn = 100" if "bn < 1" for bn
    using that by (simp add: baddr_def file_inode_def NDIRECT_def)
  then show "has_blocks v file_inode 1" by (simp add: has_blocks_def MAXFILE_def NDIRECT_def)
  then show "file_wf (log_region (klog (mkfs_state d tab))) v file_inode 1"
    using b by (auto simp: file_wf_def demo_region inj_on_def simp del: mkfs_state_simps(4)) (simp add: file_inode_def NDIRECT_def)
qed

theorem readi_reads_file_witness:
  "\<exists>s'. readi 0 (KernVar []) 2 9 (mkfs_state demo_disk (\<lambda>_. file_inode)) = Ok ((3, [0, 0, 0]), s')"
proof -
  have r: "readable file_inode 2 9 = 3" by (simp add: readable_def file_inode_def demo_inode_def)
  have d: "fbyte demo_disk file_inode j = 0" if "j < 5" for j
    using that by (simp add: fbyte_def baddr_def file_inode_def NDIRECT_def demo_disk_def BSIZE_def)
  have "\<exists>s'. readi 0 (KernVar []) 2 9 (mkfs_state demo_disk (\<lambda>_. file_inode)) =
      Ok ((int (readable file_inode 2 9), map (fbyte (view 1 (mkfs_state demo_disk (\<lambda>_. file_inode))) file_inode)
        [unat (2 :: uint32)..<unat (2 :: uint32) + readable file_inode 2 9]), s') \<and> intx 0 1 {} s' \<and>
    view 1 s' = view 1 (mkfs_state demo_disk (\<lambda>_. file_inode)) \<and> disk s' = disk (mkfs_state demo_disk (\<lambda>_. file_inode)) \<and>
    itable s' = itable (mkfs_state demo_disk (\<lambda>_. file_inode))"
    by (rule readi_reads_file [OF demo_intx(1) _ _ file_inode_wf(2)]) (simp_all add: file_inode_def demo_inode_def BSIZE_def)
  then show ?thesis using d by (auto simp: r demo_intx upt_rec)
qed


end
