(* ===== verification/Fsdir.thy ===== *)
theory Fsdir
  imports Fsfile
begin

text \<open>
  The table of inodes, directories and path names: \<open>iget\<close> shares the entries of the table, \<open>dirlookup\<close> finds
  and \<open>dirlink\<close> adds a name, \<open>skipelem\<close> takes a path apart.
\<close>

section \<open>The table of inodes\<close>

text \<open>No two entries in use stand for the same inode.\<close>

definition itable_inv :: "(nat \<Rightarrow> inode) \<Rightarrow> bool" where
  "itable_inv t \<longleftrightarrow> (\<forall>ip<NINODE. 0 \<le> i_ref (t ip)) \<and>
     (\<forall>ip<NINODE. \<forall>jp<NINODE. 0 < i_ref (t ip) \<and> 0 < i_ref (t jp) \<and> i_dev (t ip) = i_dev (t jp) \<and> i_inum (t ip) = i_inum (t jp) \<longrightarrow> ip = jp)"

lemma itable_inv_upd:
  assumes "itable_inv t" and "0 \<le> i_ref i"
    and u: "\<And>jp. jp < NINODE \<Longrightarrow> jp \<noteq> ip \<Longrightarrow> 0 < i_ref (t jp) \<Longrightarrow> i_dev (t jp) = i_dev i \<Longrightarrow> i_inum (t jp) = i_inum i \<Longrightarrow> False"
  shows "itable_inv (t(ip := i))"
  unfolding itable_inv_def
proof (intro conjI allI impI)
  show "0 \<le> i_ref ((t(ip := i)) jp)" if "jp < NINODE" for jp using assms that by (simp add: itable_inv_def)
  fix jp kp
  assume b: "jp < NINODE" "kp < NINODE" and a: "0 < i_ref ((t(ip := i)) jp) \<and> 0 < i_ref ((t(ip := i)) kp) \<and>
    i_dev ((t(ip := i)) jp) = i_dev ((t(ip := i)) kp) \<and> i_inum ((t(ip := i)) jp) = i_inum ((t(ip := i)) kp)"
  consider "jp = ip" "kp = ip" | "jp = ip" "kp \<noteq> ip" | "jp \<noteq> ip" "kp = ip" | "jp \<noteq> ip" "kp \<noteq> ip" by blast
  then show "jp = kp"
  proof cases
    case 4
    with a b assms(1) show ?thesis unfolding itable_inv_def by simp
  qed (use a b u [of kp] u [of jp] in auto)
qed

text \<open>The entry that \<open>iget\<close> takes and what it makes of it.\<close>

definition iget_choice :: "(nat \<Rightarrow> inode) \<Rightarrow> uint32 \<Rightarrow> uint32 \<Rightarrow> nat option" where
  "iget_choice t dev inum = (case find (\<lambda>ip. i_ref (t ip) > 0 \<and> i_dev (t ip) = dev \<and> i_inum (t ip) = inum) [0..<NINODE] of
     Some ip \<Rightarrow> Some ip | None \<Rightarrow> find (\<lambda>ip. i_ref (t ip) = 0) [0..<NINODE])"

definition iget_entry :: "uint32 \<Rightarrow> uint32 \<Rightarrow> inode \<Rightarrow> inode" where
  "iget_entry dev inum i = (if i_ref i > 0 then i\<lparr>i_ref := i_ref i + 1\<rparr> else i\<lparr>i_dev := dev, i_inum := inum, i_ref := 1, i_valid := False\<rparr>)"

lemma itable_section:
  assumes q: "quiet p s"
  shows "sq (acquire LkItable) (sq (upd_inode ip f) (sq (release LkItable) (ret x))) s =
    Ok (x, s\<lparr>itable := (itable s)(ip := f (itable s ip))\<rparr>)"
proof -
  let ?u = "(lockd LkItable s)\<lparr>itable := (itable s)(ip := f (itable s ip))\<rparr>"
  have "itable (lockd LkItable s) = itable s" by (simp add: lockd_def)
  moreover have "release LkItable ?u = Ok ((), ?u\<lparr>cpus := cpus s, harts := harts s, locks := locks s\<rparr>)"
    by (rule run_release) (use q in auto)
  moreover have "?u\<lparr>cpus := cpus s, harts := harts s, locks := locks s\<rparr> = s\<lparr>itable := (itable s)(ip := f (itable s ip))\<rparr>"
    by (simp add: lockd_def)
  ultimately show ?thesis
    using run_acquire [OF quietD(2) [OF q, of LkItable]] by (simp add: run_sq upd_inode_def)
qed

lemma run_iget:
  assumes q: "quiet p s"
  shows "iget dev inum s = (case iget_choice (itable s) dev inum of None \<Rightarrow> Panic ''iget: no inodes''
    | Some ip \<Rightarrow> Ok (ip, s\<lparr>itable := (itable s)(ip := iget_entry dev inum (itable s ip))\<rparr>))"
proof -
  note a = run_acquire [OF quietD(2) [OF q, of LkItable]]
  have f: "itable (lockd LkItable s) = itable s" by (simp add: lockd_def)
  have sec: "sq (upd_inode ip g) (sq (release LkItable) (ret ip)) (lockd LkItable s) = Ok (ip, s\<lparr>itable := (itable s)(ip := g (itable s ip))\<rparr>)" for ip g
    using itable_section [OF q, of ip g ip] a by (simp add: run_sq)
  show ?thesis
  proof (cases "find (\<lambda>ip. i_ref (itable s ip) > 0 \<and> i_dev (itable s ip) = dev \<and> i_inum (itable s ip) = inum) [0..<NINODE]")
    case (Some ip)
    have "0 < i_ref (itable s ip)" using find_Some_set [OF Some] by simp
    then show ?thesis using Some a sec by (simp add: iget_def run_sq run_bnd f iget_choice_def iget_entry_def)
  next
    case None
    show ?thesis
    proof (cases "find (\<lambda>ip. i_ref (itable s ip) = 0) [0..<NINODE]")
      case (Some ip)
      have "i_ref (itable s ip) = 0" using find_Some_set [OF Some] by simp
      then show ?thesis using Some None a sec by (simp add: iget_def run_sq run_bnd f iget_choice_def iget_entry_def)
    next
      case n: None
      then show ?thesis using None a by (simp add: iget_def run_sq run_bnd f iget_choice_def)
    qed
  qed
qed

lemma iget_choice_None: "iget_choice t dev inum = None \<longleftrightarrow>
   (\<forall>ip<NINODE. i_ref (t ip) \<noteq> 0) \<and> (\<forall>ip<NINODE. \<not> (i_ref (t ip) > 0 \<and> i_dev (t ip) = dev \<and> i_inum (t ip) = inum))"
proof (cases "find (\<lambda>ip. i_ref (t ip) > 0 \<and> i_dev (t ip) = dev \<and> i_inum (t ip) = inum) [0..<NINODE]")
  case None
  then have "\<forall>ip<NINODE. \<not> (i_ref (t ip) > 0 \<and> i_dev (t ip) = dev \<and> i_inum (t ip) = inum)" by (simp add: find_None_iff)
  moreover have "iget_choice t dev inum = find (\<lambda>ip. i_ref (t ip) = 0) [0..<NINODE]" using None by (simp add: iget_choice_def)
  ultimately show ?thesis by (simp add: find_None_iff)
next
  case (Some ip)
  from find_Some_set [OF Some] have "ip < NINODE" "i_ref (t ip) > 0 \<and> i_dev (t ip) = dev \<and> i_inum (t ip) = inum" by auto
  with Some show ?thesis by (auto simp: iget_choice_def)
qed

lemma iget_choice_Some:
  assumes "iget_choice t dev inum = Some ip"
  shows "ip < NINODE" "0 < i_ref (t ip) \<longrightarrow> i_dev (t ip) = dev \<and> i_inum (t ip) = inum" "0 < i_ref (t ip) \<or> i_ref (t ip) = 0"
    "i_ref (t ip) = 0 \<Longrightarrow> jp < NINODE \<Longrightarrow> \<not> (0 < i_ref (t jp) \<and> i_dev (t jp) = dev \<and> i_inum (t jp) = inum)"
proof -
  have "ip < NINODE \<and> (0 < i_ref (t ip) \<longrightarrow> i_dev (t ip) = dev \<and> i_inum (t ip) = inum) \<and> (0 < i_ref (t ip) \<or> i_ref (t ip) = 0) \<and>
    (i_ref (t ip) = 0 \<longrightarrow> (\<forall>jp<NINODE. \<not> (0 < i_ref (t jp) \<and> i_dev (t jp) = dev \<and> i_inum (t jp) = inum)))"
  proof (cases "find (\<lambda>ip. i_ref (t ip) > 0 \<and> i_dev (t ip) = dev \<and> i_inum (t ip) = inum) [0..<NINODE]")
    case (Some jp)
    with assms have "jp = ip" by (simp add: iget_choice_def)
    with find_Some_set [OF Some] show ?thesis by auto
  next
    case None
    with assms have "find (\<lambda>ip. i_ref (t ip) = 0) [0..<NINODE] = Some ip" by (simp add: iget_choice_def)
    from find_Some_set [OF this] None show ?thesis by (auto simp: find_None_iff)
  qed
  then show "ip < NINODE" "0 < i_ref (t ip) \<longrightarrow> i_dev (t ip) = dev \<and> i_inum (t ip) = inum" "0 < i_ref (t ip) \<or> i_ref (t ip) = 0"
    "i_ref (t ip) = 0 \<Longrightarrow> jp < NINODE \<Longrightarrow> \<not> (0 < i_ref (t jp) \<and> i_dev (t jp) = dev \<and> i_inum (t jp) = inum)"
    by blast+
qed

text \<open>
  C24. The table of inodes never has two entries in use for the same inode. \<open>iget\<close> keeps this invariant and
  returns an entry for the requested inode with one more reference, the existing one if there is one;
  it panics exactly when the inode is not in the table and every entry is in use. \<open>idup\<close> keeps the
  invariant and adds a reference.
\<close>

theorem iget_shares_entries:
  assumes q: "quiet p s" and inv: "itable_inv (itable s)"
  shows "(if (\<forall>ip<NINODE. i_ref (itable s ip) \<noteq> 0) \<and>
        (\<forall>ip<NINODE. \<not> (0 < i_ref (itable s ip) \<and> i_dev (itable s ip) = dev \<and> i_inum (itable s ip) = inum))
      then iget dev inum s = Panic ''iget: no inodes''
      else \<exists>ip s'. iget dev inum s = Ok (ip, s') \<and> ip < NINODE \<and> itable_inv (itable s') \<and>
        i_dev (itable s' ip) = dev \<and> i_inum (itable s' ip) = inum \<and> i_ref (itable s' ip) = i_ref (itable s ip) + 1 \<and>
        (\<forall>jp. jp \<noteq> ip \<longrightarrow> itable s' jp = itable s jp) \<and>
        (\<forall>jp<NINODE. 0 < i_ref (itable s jp) \<and> i_dev (itable s jp) = dev \<and> i_inum (itable s jp) = inum \<longrightarrow> jp = ip)) \<and>
    (jp < NINODE \<and> 0 < i_ref (itable s jp) \<longrightarrow> (\<exists>s'. idup jp s = Ok (jp, s') \<and> itable_inv (itable s') \<and>
      itable s' = (itable s)(jp := (itable s jp)\<lparr>i_ref := i_ref (itable s jp) + 1\<rparr>)))"
proof -
  let ?t = "itable s"
  have get: "\<exists>ip s'. iget dev inum s = Ok (ip, s') \<and> ip < NINODE \<and> itable_inv (itable s') \<and>
        i_dev (itable s' ip) = dev \<and> i_inum (itable s' ip) = inum \<and> i_ref (itable s' ip) = i_ref (itable s ip) + 1 \<and>
        (\<forall>jp. jp \<noteq> ip \<longrightarrow> itable s' jp = itable s jp) \<and>
        (\<forall>jp<NINODE. 0 < i_ref (itable s jp) \<and> i_dev (itable s jp) = dev \<and> i_inum (itable s jp) = inum \<longrightarrow> jp = ip)"
    if c: "iget_choice ?t dev inum = Some ip" for ip
  proof -
    note ch = iget_choice_Some [OF c]
    have e: "i_dev (iget_entry dev inum (?t ip)) = dev" "i_inum (iget_entry dev inum (?t ip)) = inum"
      "i_ref (iget_entry dev inum (?t ip)) = i_ref (?t ip) + 1"
      using ch(2,3) by (auto simp: iget_entry_def)
    have uniq: "jp = ip" if "jp < NINODE" "0 < i_ref (?t jp)" "i_dev (?t jp) = dev" "i_inum (?t jp) = inum" for jp
    proof (cases "0 < i_ref (?t ip)")
      case True
      with inv that ch(1,2) show ?thesis unfolding itable_inv_def by simp
    next
      case False
      with ch(3) ch(4) [of jp] that show ?thesis by simp
    qed
    define s' where "s' = s\<lparr>itable := ?t(ip := iget_entry dev inum (?t ip))\<rparr>"
    have "itable_inv (?t(ip := iget_entry dev inum (?t ip)))"
    proof (rule itable_inv_upd [OF inv])
      show "0 \<le> i_ref (iget_entry dev inum (?t ip))" using e(3) ch(3) by linarith
      fix jp
      assume "jp < NINODE" "jp \<noteq> ip" "0 < i_ref (?t jp)" "i_dev (?t jp) = i_dev (iget_entry dev inum (?t ip))"
        "i_inum (?t jp) = i_inum (iget_entry dev inum (?t ip))"
      with uniq [of jp] e(1,2) show False by simp
    qed
    then have 1: "itable_inv (itable s')" by (simp add: s'_def)
    have 2: "iget dev inum s = Ok (ip, s')" using run_iget [OF q, of dev inum] c by (simp add: s'_def)
    have 3: "i_dev (itable s' ip) = dev" "i_inum (itable s' ip) = inum" "i_ref (itable s' ip) = i_ref (?t ip) + 1"
      "\<And>jp. jp \<noteq> ip \<Longrightarrow> itable s' jp = ?t jp" using e by (simp_all add: s'_def)
    from 1 2 3 uniq ch(1) show ?thesis by blast
  qed
  have dup: "\<exists>s'. idup jp s = Ok (jp, s') \<and> itable_inv (itable s') \<and> itable s' = ?t(jp := (?t jp)\<lparr>i_ref := i_ref (?t jp) + 1\<rparr>)"
    if "jp < NINODE \<and> 0 < i_ref (?t jp)" for jp
  proof -
    have "itable_inv (?t(jp := (?t jp)\<lparr>i_ref := i_ref (?t jp) + 1\<rparr>))"
    proof (rule itable_inv_upd [OF inv])
      show "0 \<le> i_ref ((?t jp)\<lparr>i_ref := i_ref (?t jp) + 1\<rparr>)" using that by simp
      fix kp
      assume "kp < NINODE" "kp \<noteq> jp" "0 < i_ref (?t kp)" "i_dev (?t kp) = i_dev ((?t jp)\<lparr>i_ref := i_ref (?t jp) + 1\<rparr>)"
        "i_inum (?t kp) = i_inum ((?t jp)\<lparr>i_ref := i_ref (?t jp) + 1\<rparr>)"
      with inv that show False unfolding itable_inv_def by simp
    qed
    then show ?thesis using itable_section [OF q, of jp "\<lambda>r. r\<lparr>i_ref := i_ref r + 1\<rparr>" jp] by (simp add: idup_def)
  qed
  show ?thesis
  proof (cases "iget_choice ?t dev inum")
    case None
    then show ?thesis using run_iget [OF q, of dev inum] iget_choice_None [of ?t dev inum] dup [of jp] by auto
  next
    case (Some ip)
    then have "\<not> ((\<forall>ip<NINODE. i_ref (?t ip) \<noteq> 0) \<and> (\<forall>ip<NINODE. \<not> (0 < i_ref (?t ip) \<and> i_dev (?t ip) = dev \<and> i_inum (?t ip) = inum)))"
      using iget_choice_None [of ?t dev inum] by auto
    then show ?thesis using get [OF Some] dup [of jp] by (simp only: if_False) blast
  qed
qed

theorem iget_shares_entries_witness:
  "let s = mkfs_state demo_disk ((\<lambda>_. demo_inode\<lparr>i_ref := 0\<rparr>)(3 := demo_inode)) in
   itable_inv (itable s) \<and> (\<exists>ip s'. iget 1 7 s = Ok (ip, s') \<and> ip = 3 \<and> i_ref (itable s' ip) = 2)"
proof -
  let ?s = "mkfs_state demo_disk ((\<lambda>_. demo_inode\<lparr>i_ref := 0\<rparr>)(3 := demo_inode))"
  have q: "quiet 0 ?s" by (rule cache_quiet [OF intx_cache [OF demo_intx(1)]])
  have inv: "itable_inv (itable ?s)" by (auto simp: itable_inv_def demo_inode_def)
  have e: "i_ref (itable ?s 0) = 0" "i_ref (itable ?s 3) = 1" "i_dev (itable ?s 3) = 1" "i_inum (itable ?s 3) = 7"
    by (simp_all add: demo_inode_def)
  then have "\<not> ((\<forall>ip<NINODE. i_ref (itable ?s ip) \<noteq> 0) \<and>
        (\<forall>ip<NINODE. \<not> (0 < i_ref (itable ?s ip) \<and> i_dev (itable ?s ip) = 1 \<and> i_inum (itable ?s ip) = 7)))"
    by (auto simp: NINODE_def)
  with iget_shares_entries [OF q inv, of 1 7 0]
  obtain ip s' where "iget 1 7 ?s = Ok (ip, s')" "i_ref (itable s' ip) = i_ref (itable ?s ip) + 1"
    "\<forall>jp<NINODE. 0 < i_ref (itable ?s jp) \<and> i_dev (itable ?s jp) = 1 \<and> i_inum (itable ?s jp) = 7 \<longrightarrow> jp = ip"
    by (simp only: if_False) blast
  moreover from this(3) e have "3 = ip" by (simp add: NINODE_def)
  ultimately show ?thesis using inv e by (auto simp: Let_def)
qed

section \<open>Directories\<close>

text \<open>Entry \<open>k\<close> of the directory, and the first entry for \<open>name\<close>.\<close>

definition dir_entry :: "disk \<Rightarrow> inode \<Rightarrow> nat \<Rightarrow> dirent" where
  "dir_entry v i k = get_dirent (map (fbyte v i) [k * DIRENT_SIZE..<k * DIRENT_SIZE + DIRENT_SIZE])"

definition dir_find :: "disk \<Rightarrow> inode \<Rightarrow> uint8 list \<Rightarrow> nat list \<Rightarrow> nat option" where
  "dir_find v i name ks = find (\<lambda>k. de_inum (dir_entry v i k) \<noteq> 0 \<and> namecmp name (de_name (dir_entry v i k)) = 0) ks"

lemma read_dirent_ok:
  assumes t: "intx p D {} s" and i: "itable s dp = i" "i_dev i = D" and f: "has_blocks (view D s) i nb" and sz: "unat (i_size i) \<le> nb * BSIZE"
    and k: "k * DIRENT_SIZE + DIRENT_SIZE \<le> unat (i_size i)"
  shows "\<exists>s'. read_dirent dp k msg s = Ok (dir_entry (view D s) i k, s') \<and> intx p D {} s' \<and> view D s' = view D s \<and> disk s' = disk s \<and> bframe s s'"
proof -
  have lt: "k * DIRENT_SIZE + DIRENT_SIZE < 2 ^ 32" using k unat_less_exp [of "i_size i"] by simp
  have o1: "unat (of_nat (k * DIRENT_SIZE) :: uint32) = k * DIRENT_SIZE" by (subst unat_of_nat) (use lt in simp)
  have o2: "unat (of_nat DIRENT_SIZE :: uint32) = DIRENT_SIZE" by (simp add: DIRENT_SIZE_def)
  note o = o1 o2
  have "unat (of_nat (k * DIRENT_SIZE) + of_nat DIRENT_SIZE :: uint32) = k * DIRENT_SIZE + DIRENT_SIZE"
    using lt by (simp add: unat_word_ariths o del: of_nat_mult)
  then have r: "readable i (of_nat (k * DIRENT_SIZE)) (of_nat DIRENT_SIZE) = DIRENT_SIZE"
    using k o by (auto simp: readable_def word_less_nat_alt)
  from readi_ok [OF t i f sz, of "[]" "of_nat (k * DIRENT_SIZE)" "of_nat DIRENT_SIZE"] show ?thesis
    unfolding r o by (auto simp: read_dirent_def run_bnd dir_entry_def)
qed

lemma dirlookup_loop_ok:
  assumes "intx p D {} s" and "itable s dp = i" "i_dev i = D" and "has_blocks (view D s) i nb" and "unat (i_size i) \<le> nb * BSIZE"
    and "\<forall>k\<in>set ks. k * DIRENT_SIZE + DIRENT_SIZE \<le> unat (i_size i)"
  shows "\<exists>s'. dirlookup_loop dp name ks s = (case dir_find (view D s) i name ks of None \<Rightarrow> Ok (None, s')
      | Some k \<Rightarrow> bnd (iget D (ucast (de_inum (dir_entry (view D s) i k)))) (\<lambda>ip. ret (Some (ip, k * DIRENT_SIZE))) s') \<and>
    intx p D {} s' \<and> view D s' = view D s \<and> disk s' = disk s \<and> bframe s s'"
  using assms
proof (induction ks arbitrary: s)
  case Nil
  then show ?case by (intro exI [of _ s]) (simp add: dir_find_def)
next
  case (Cons k ks)
  let ?v = "view D s"
  obtain s1 where 1: "read_dirent dp k ''dirlookup read'' s = Ok (dir_entry ?v i k, s1)" "intx p D {} s1" "view D s1 = ?v" "disk s1 = disk s" "bframe s s1"
    using read_dirent_ok [OF Cons.prems(1-5), of k "''dirlookup read''"] Cons.prems(6) by auto
  have i1: "itable s1 dp = i" using bframe_fs(2) [OF 1(5)] Cons.prems(2) by simp
  show ?case
  proof (cases "de_inum (dir_entry ?v i k) \<noteq> 0 \<and> namecmp name (de_name (dir_entry ?v i k)) = 0")
    case True
    then show ?thesis using 1 i1 Cons.prems(3)
      by (intro exI [of _ s1]) (simp add: dir_find_def run_bnd get_inode_def)
  next
    case False
    have "\<exists>s'. dirlookup_loop dp name ks s1 = (case dir_find (view D s1) i name ks of None \<Rightarrow> Ok (None, s')
        | Some k \<Rightarrow> bnd (iget D (ucast (de_inum (dir_entry (view D s1) i k)))) (\<lambda>ip. ret (Some (ip, k * DIRENT_SIZE))) s') \<and>
      intx p D {} s' \<and> view D s' = view D s1 \<and> disk s' = disk s1 \<and> bframe s1 s'"
      by (rule Cons.IH) (use Cons.prems 1 i1 in auto)
    then obtain s' where s': "dirlookup_loop dp name ks s1 = (case dir_find ?v i name ks of None \<Rightarrow> Ok (None, s')
        | Some k \<Rightarrow> bnd (iget D (ucast (de_inum (dir_entry ?v i k)))) (\<lambda>ip. ret (Some (ip, k * DIRENT_SIZE))) s')"
      "intx p D {} s'" "view D s' = ?v" "disk s' = disk s1" "bframe s1 s'" unfolding 1(3) by blast
    have l: "dirlookup_loop dp name (k # ks) s = dirlookup_loop dp name ks s1"
      using 1(1) False by (auto simp: run_bnd)
    have d: "dir_find ?v i name (k # ks) = dir_find ?v i name ks" using False by (auto simp: dir_find_def)
    show ?thesis
      using s' 1 bframe_trans [OF 1(5) s'(5)] unfolding l d by (intro exI [of _ s']) simp
  qed
qed

lemma dir_entries_bound:
  assumes "DIRENT_SIZE dvd unat z" and "k < dir_entries z"
  shows "k * DIRENT_SIZE + DIRENT_SIZE \<le> unat z"
  using assms by (auto simp: dir_entries_def DIRENT_SIZE_def dvd_def)

text \<open>
  C17. \<open>dirlookup\<close> in a directory. It finds the first entry that is in use and whose name, up to \<open>DIRSIZ\<close> bytes
  or the terminator, is the name it looks for; it returns a table entry for the inode the entry names,
  with a reference taken, and the offset of the entry. Without such an entry it returns none. The
  directory and the content of the blocks stay as they are; on an inode that is no directory it panics.
\<close>

theorem dirlookup_finds_first:
  assumes t: "intx p D {} s" and i: "itable s dp = i" "i_dev i = D" and f: "has_blocks (view D s) i nb" and sz: "unat (i_size i) \<le> nb * BSIZE"
    and whole: "DIRENT_SIZE dvd unat (i_size i)"
  shows "if i_type i \<noteq> T_DIR then dirlookup dp name s = Panic ''dirlookup not DIR''
    else case dir_find (view D s) i name [0..<dir_entries (i_size i)] of
      None \<Rightarrow> (\<exists>s'. dirlookup dp name s = Ok (None, s') \<and> itable s' = itable s \<and> view D s' = view D s \<and> intx p D {} s')
    | Some k \<Rightarrow> (let inum = ucast (de_inum (dir_entry (view D s) i k)) in
        case iget_choice (itable s) D inum of
          None \<Rightarrow> dirlookup dp name s = Panic ''iget: no inodes''
        | Some ip \<Rightarrow> (\<exists>s'. dirlookup dp name s = Ok (Some (ip, k * DIRENT_SIZE), s') \<and> view D s' = view D s \<and> intx p D {} s' \<and>
            itable s' = (itable s)(ip := iget_entry D inum (itable s ip))))"
proof (cases "i_type i = T_DIR")
  case False
  then show ?thesis using i by (simp add: dirlookup_def run_bnd get_inode_def)
next
  case True
  have ks: "\<forall>k\<in>set [0..<dir_entries (i_size i)]. k * DIRENT_SIZE + DIRENT_SIZE \<le> unat (i_size i)"
    using dir_entries_bound [OF whole] by simp
  obtain s1 where 1: "dirlookup_loop dp name [0..<dir_entries (i_size i)] s =
      (case dir_find (view D s) i name [0..<dir_entries (i_size i)] of None \<Rightarrow> Ok (None, s1)
      | Some k \<Rightarrow> bnd (iget D (ucast (de_inum (dir_entry (view D s) i k)))) (\<lambda>ip. ret (Some (ip, k * DIRENT_SIZE))) s1)"
    "intx p D {} s1" "view D s1 = view D s" "bframe s s1"
    using dirlookup_loop_ok [OF t i f sz ks, of name] by blast
  have it: "itable s1 = itable s" by (rule bframe_fs(2) [OF 1(4)])
  have d: "dirlookup dp name s = dirlookup_loop dp name [0..<dir_entries (i_size i)] s"
    using True i by (simp add: dirlookup_def run_bnd get_inode_def)
  note g = run_iget [OF cache_quiet [OF intx_cache [OF 1(2)]], of D]
  show ?thesis
    using True 1 unfolding d
    by (auto simp: it g run_bnd Let_def split: option.split)
qed

section \<open>Adding an entry\<close>

lemma free_dirent_ok:
  assumes "intx p D {} s" and "itable s dp = i" "i_dev i = D" and "has_blocks (view D s) i nb" and "unat (i_size i) \<le> nb * BSIZE"
    and "\<forall>k\<in>set ks. k * DIRENT_SIZE + DIRENT_SIZE \<le> unat (i_size i)"
  shows "\<exists>s'. free_dirent dp ks e s = Ok (case find (\<lambda>k. de_inum (dir_entry (view D s) i k) = 0) ks of None \<Rightarrow> e | Some k \<Rightarrow> k, s') \<and>
    intx p D {} s' \<and> view D s' = view D s \<and> disk s' = disk s \<and> bframe s s'"
  using assms
proof (induction ks arbitrary: s)
  case Nil
  then show ?case by (intro exI [of _ s]) simp
next
  case (Cons k ks)
  let ?v = "view D s"
  obtain s1 where 1: "read_dirent dp k ''dirlink read'' s = Ok (dir_entry ?v i k, s1)" "intx p D {} s1" "view D s1 = ?v" "disk s1 = disk s" "bframe s s1"
    using read_dirent_ok [OF Cons.prems(1-5), of k "''dirlink read''"] Cons.prems(6) by auto
  have i1: "itable s1 dp = i" using bframe_fs(2) [OF 1(5)] Cons.prems(2) by simp
  show ?case
  proof (cases "de_inum (dir_entry ?v i k) = 0")
    case True
    then show ?thesis using 1 by (intro exI [of _ s1]) (simp add: run_bnd)
  next
    case False
    have "\<exists>s'. free_dirent dp ks e s1 = Ok (case find (\<lambda>k. de_inum (dir_entry (view D s1) i k) = 0) ks of None \<Rightarrow> e | Some k \<Rightarrow> k, s') \<and>
      intx p D {} s' \<and> view D s' = view D s1 \<and> disk s' = disk s1 \<and> bframe s1 s'"
      by (rule Cons.IH) (use Cons.prems 1 i1 in auto)
    then obtain s' where s': "free_dirent dp ks e s1 = Ok (case find (\<lambda>k. de_inum (dir_entry ?v i k) = 0) ks of None \<Rightarrow> e | Some k \<Rightarrow> k, s')"
      "intx p D {} s'" "view D s' = ?v" "disk s' = disk s1" "bframe s1 s'" unfolding 1(3) by blast
    then show ?thesis
      using False 1 bframe_trans [OF 1(5) s'(5)] by (intro exI [of _ s']) (simp add: run_bnd)
  qed
qed

text \<open>The entry \<open>dirlink\<close> writes matches the name it was made from.\<close>

lemma cstr_cptr_strncpy: "cstr (cptr_of (strncpy t n)) n = cstr t n"
proof -
  have "cstr (\<lambda>j. if j < length xs then xs ! j else 0) n = xs" if "\<forall>x\<in>set xs. x \<noteq> 0" "length xs \<le> n" for xs n
    using that
  proof (induction xs arbitrary: n)
    case Nil
    then show ?case by (cases n) simp_all
  next
    case (Cons x xs)
    then obtain m where n: "n = Suc m" by (cases n) auto
    have "(\<lambda>j. if Suc j < length (x # xs) then (x # xs) ! Suc j else 0) = (\<lambda>j. if j < length xs then xs ! j else 0)" by auto
    then show ?case using Cons n by simp
  qed
  moreover have "cptr_of (strncpy t n) = (\<lambda>j. if j < length (cstr t n) then cstr t n ! j else 0)"
    unfolding strncpy_eq cptr_of_def using length_cstr [of t n] by (auto simp: nth_append fun_eq_iff)
  ultimately show ?thesis using cstr_nth_nonzero [of _ t n] length_cstr [of t n] by auto
qed

lemma namecmp_strncpy: "namecmp name (strncpy (cptr_of name) DIRSIZ) = 0"
  by (simp add: namecmp_def strncmp_eq_0_iff cstr_cptr_strncpy)

lemma length_dirent_bytes: "length (de_name de) = DIRSIZ \<Longrightarrow> length (dirent_bytes de) = DIRENT_SIZE"
  by (simp add: dirent_bytes_def DIRSIZ_def DIRENT_SIZE_def)

text \<open>Writing entry \<open>k\<close> leaves the other entries alone.\<close>

lemma dir_entry_written:
  assumes w: "\<And>j. j < nb * BSIZE \<Longrightarrow> fbyte v' i' j = written (k * DIRENT_SIZE) (dirent_bytes de) (fbyte v i) j"
    and de: "length (de_name de) = DIRSIZ" and m: "m * DIRENT_SIZE + DIRENT_SIZE \<le> nb * BSIZE"
  shows "dir_entry v' i' m = (if m = k then de else dir_entry v i m)"
proof -
  note len = length_dirent_bytes [OF de]
  have "map (fbyte v' i') [m * DIRENT_SIZE..<m * DIRENT_SIZE + DIRENT_SIZE] =
      (if m = k then dirent_bytes de else map (fbyte v i) [m * DIRENT_SIZE..<m * DIRENT_SIZE + DIRENT_SIZE])"
  proof (rule nth_equalityI)
    fix j assume j: "j < length (map (fbyte v' i') [m * DIRENT_SIZE..<m * DIRENT_SIZE + DIRENT_SIZE])"
    show "map (fbyte v' i') [m * DIRENT_SIZE..<m * DIRENT_SIZE + DIRENT_SIZE] ! j =
        (if m = k then dirent_bytes de else map (fbyte v i) [m * DIRENT_SIZE..<m * DIRENT_SIZE + DIRENT_SIZE]) ! j"
    proof (cases "m = k")
      case True
      then show ?thesis using j w [of "m * DIRENT_SIZE + j"] m len by (simp add: written_def)
    next
      case False
      then have "m * DIRENT_SIZE + j < k * DIRENT_SIZE \<or> k * DIRENT_SIZE + DIRENT_SIZE \<le> m * DIRENT_SIZE + j"
        using j by (auto simp: DIRENT_SIZE_def)
      then show ?thesis using False j w [of "m * DIRENT_SIZE + j"] m len by (auto simp: written_def)
    qed
  qed (use len in auto)
  then show ?thesis using get_dirent_bytes [OF de] by (simp add: dir_entry_def)
qed


text \<open>A directory with one entry: name \<open>a\<close>, inode 9.\<close>

definition dir_inode :: inode where
  "dir_inode = file_inode\<lparr>i_type := T_DIR, i_size := 16\<rparr>"

definition dir_dirent :: dirent where
  "dir_dirent = \<lparr>de_inum = 9, de_name = 97 # replicate 13 0\<rparr>"

definition dir_disk :: disk where
  "dir_disk = demo_disk(100 := dirent_bytes dir_dirent @ replicate (BSIZE - DIRENT_SIZE) 0)"

lemma length_dir_dirent: "length (de_name dir_dirent) = DIRSIZ" by (simp add: dir_dirent_def DIRSIZ_def)

lemma dir_disk_ok: "length (dir_disk k) = BSIZE" "sint (get32 (dir_disk 2) 0) = 0"
  using demo_disk_ok length_dirent_bytes [OF length_dir_dirent] by (simp_all add: dir_disk_def DIRENT_SIZE_def BSIZE_def)

lemma dir_disk_entry: "dir_entry dir_disk dir_inode 0 = dir_dirent"
proof -
  note l = length_dirent_bytes [OF length_dir_dirent]
  have "fbyte dir_disk dir_inode j = dirent_bytes dir_dirent ! j" if "j < DIRENT_SIZE" for j
  proof -
    have "j < BSIZE" using that by (simp add: DIRENT_SIZE_def BSIZE_def)
    then show ?thesis using that l
      by (simp add: fbyte_def baddr_def dir_inode_def file_inode_def NDIRECT_def dir_disk_def nth_append)
  qed
  then have "map (fbyte dir_disk dir_inode) [0..<DIRENT_SIZE] = dirent_bytes dir_dirent"
    using l by (intro nth_equalityI) simp_all
  then show ?thesis by (simp add: dir_entry_def get_dirent_bytes [OF length_dir_dirent])
qed

lemma dir_inode_simps:
  "i_dev dir_inode = 1" "i_type dir_inode = T_DIR" "i_size dir_inode = 16" "i_ref dir_inode = 1" "i_inum dir_inode = 7"
  "i_addrs dir_inode = 100 # replicate 12 0"
  by (simp_all add: dir_inode_def file_inode_def demo_inode_def)

lemma dir_inode_blocks:
  "has_blocks v dir_inode 1 \<longleftrightarrow> has_blocks v file_inode 1" "baddr v (dir_inode\<lparr>i_size := z\<rparr>) = baddr v file_inode"
  "file_wf R v (dir_inode\<lparr>i_size := z\<rparr>) 1 \<longleftrightarrow> file_wf R v file_inode 1"
proof -
  have a: "i_addrs (dir_inode\<lparr>i_size := z\<rparr>) = i_addrs file_inode" "i_addrs dir_inode = i_addrs file_inode" by (simp_all add: dir_inode_def)
  then show b: "baddr v (dir_inode\<lparr>i_size := z\<rparr>) = baddr v file_inode" by (simp add: baddr_def fun_eq_iff)
  from a(2) have c: "baddr v dir_inode = baddr v file_inode" by (simp add: baddr_def fun_eq_iff)
  from a c show "has_blocks v dir_inode 1 \<longleftrightarrow> has_blocks v file_inode 1" by (simp add: has_blocks_def)
  from a b show "file_wf R v (dir_inode\<lparr>i_size := z\<rparr>) 1 \<longleftrightarrow> file_wf R v file_inode 1" by (simp add: has_blocks_def file_wf_def)
qed

theorem dirlookup_finds_first_witness:
  "\<exists>s'. dirlookup 0 [97] (mkfs_state dir_disk ((\<lambda>_. dir_inode\<lparr>i_ref := 0\<rparr>)(0 := dir_inode))) = Ok (Some (1, 0), s') \<and>
     i_inum (itable s' 1) = 9"
proof -
  let ?t = "(\<lambda>_. dir_inode\<lparr>i_ref := 0\<rparr>)(0 := dir_inode)"
  let ?s = "mkfs_state dir_disk ?t"
  note m = intx_mkfs [where d = dir_disk and tab = ?t, OF dir_disk_ok]
  have n: "namecmp [97] (de_name dir_dirent) = 0"
    by (simp add: namecmp_def cptr_of_def dir_dirent_def DIRSIZ_def numeral_eq_Suc)
  have e: "dir_entries 16 = 1" by (simp add: dir_entries_def DIRENT_SIZE_def)
  have f: "dir_find dir_disk dir_inode [97] [0..<dir_entries (i_size dir_inode)] = Some 0"
    by (simp add: dir_find_def dir_inode_simps e dir_disk_entry n) (simp add: dir_dirent_def)
  have hb: "has_blocks (view 1 ?s) dir_inode 1" by (simp only: dir_inode_blocks file_inode_wf)
  have c: "iget_choice ?t 1 9 = Some 1"
    by (simp add: iget_choice_def NINODE_def upt_rec dir_inode_simps)
  have "if i_type dir_inode \<noteq> T_DIR then dirlookup 0 [97] ?s = Panic ''dirlookup not DIR''
    else case dir_find (view 1 ?s) dir_inode [97] [0..<dir_entries (i_size dir_inode)] of
      None \<Rightarrow> (\<exists>s'. dirlookup 0 [97] ?s = Ok (None, s') \<and> itable s' = itable ?s \<and> view 1 s' = view 1 ?s \<and> intx 0 1 {} s')
    | Some k \<Rightarrow> (let inum = ucast (de_inum (dir_entry (view 1 ?s) dir_inode k)) in
        case iget_choice (itable ?s) 1 inum of
          None \<Rightarrow> dirlookup 0 [97] ?s = Panic ''iget: no inodes''
        | Some ip \<Rightarrow> (\<exists>s'. dirlookup 0 [97] ?s = Ok (Some (ip, k * DIRENT_SIZE), s') \<and> view 1 s' = view 1 ?s \<and> intx 0 1 {} s' \<and>
            itable s' = (itable ?s)(ip := iget_entry 1 inum (itable ?s ip))))"
    by (rule dirlookup_finds_first [OF m(1) _ _ hb]) (simp_all add: dir_inode_simps DIRENT_SIZE_def BSIZE_def)
  then show ?thesis
    using c unfolding m(2) f by (auto simp: dir_disk_entry dir_dirent_def Let_def dir_inode_simps iget_entry_def)
qed


end
