(* ===== verification/Demo_state.thy ===== *)
theory Demo_state
  imports Pipe Fsblocks Copyuser
begin

text \<open>
  Concrete states of the kernel with devices and pipes, on which the properties of these components are evaluated:
  process 0 runs, no lock is taken, and its page table maps one page of user memory.
\<close>

definition demo_vdisk :: vdisk where
  "demo_vdisk = \<lparr>v_desc = \<lambda>_. \<lparr>d_addr = 0, d_len = 0, d_flags = 0, d_next = 0\<rparr>, v_avail = \<lparr>av_idx = 0, av_ring = replicate 8 0\<rparr>,
     v_used = \<lparr>us_idx = 0, us_ring = replicate 8 0\<rparr>, v_free = \<lambda>_. True, v_used_idx = 0, v_info = \<lambda>_. \<lparr>vi_b = None, vi_status = 0\<rparr>,
     v_ops = \<lambda>_. \<lparr>req_type = 0, req_reserved = 0, req_sector = 0\<rparr>\<rparr>"

text \<open>\<open>inp\<close> is what the device registers answer.\<close>

definition demo_devs :: "(uint64 \<Rightarrow> nat \<Rightarrow> uint32) \<Rightarrow> devs" where
  "demo_devs inp = fsys.extend (mkfs_state demo_disk (\<lambda>_. demo_inode))
     (devs.fields inp (\<lambda>_. 0) [] 100 (\<lambda>_. None) \<lparr>cons_buf = replicate INPUT_BUF 0, cons_r = 0, cons_w = 0, cons_e = 0\<rparr>
       \<lparr>tx_buf = replicate UART_TX_BUF_SIZE 0, tx_w = 0, tx_r = 0\<rparr> True False demo_vdisk 0 0 0 (\<lambda>_. 0))"

definition demo_pipe :: pipe where
  "demo_pipe = \<lparr>p_data = replicate PIPESIZE 0, nread = 0, nwrite = 0, readopen = True, writeopen = True\<rparr>"

definition demo_piped :: "pipe \<Rightarrow> piped" where
  "demo_piped q = (let s = devs.extend (demo_devs (\<lambda>_ _. 0)) (piped.fields (\<lambda>_. q)) in
     s\<lparr>mem := demo_mem, procs := \<lambda>p. (procs s p)\<lparr>pagetable := 0x80300000, killed := False\<rparr>\<rparr>)"

lemma quiet_extend [simp]:
  "quiet p (fsys.extend s m) = quiet p s" "quiet p (devs.extend t m') = quiet p t" "quiet p (u\<lparr>mem := x\<rparr>) = quiet p u"
  by (simp_all add: quiet_def settled_def cur_def this_cpu_def this_hart_def fsys.defs devs.defs)

lemma demo_devs:
  "quiet 0 (demo_devs inp)" "uart0 (demo_devs inp) = \<lparr>tx_buf = replicate UART_TX_BUF_SIZE 0, tx_w = 0, tx_r = 0\<rparr>"
  "cons (demo_devs inp) = \<lparr>cons_buf = replicate INPUT_BUF 0, cons_r = 0, cons_w = 0, cons_e = 0\<rparr>" "vd (demo_devs inp) = demo_vdisk"
  "mmio_in (demo_devs inp) = inp" "mmio_n (demo_devs inp) = (\<lambda>_. 0)" "mmio_log (demo_devs inp) = []" "poll_limit (demo_devs inp) = 100"
  "panicked (demo_devs inp) = False" "pr_locking (demo_devs inp) = True"
  using cache_quiet [OF intx_cache [OF demo_intx(1)]] by (simp_all add: demo_devs_def) (simp_all add: fsys.defs devs.defs)

lemma demo_piped:
  "quiet 0 (demo_piped q)" "pipes (demo_piped q) = (\<lambda>_. q)" "mem (demo_piped q) = demo_mem" "pagetable (procs (demo_piped q) p) = 0x80300000"
  "\<not> killed (procs (demo_piped q) p)"
proof -
  show "quiet 0 (demo_piped q)" using demo_devs(1) by (simp add: demo_piped_def Let_def)
qed (simp_all add: demo_piped_def Let_def devs.defs piped.defs)

end
