(* ===== verification/Pipeprops.thy ===== *)
theory Pipeprops
  imports Demo_state
begin

text \<open>
  Properties of pipes: a pipe is a bounded queue of bytes. \<open>pipewrite\<close> appends bytes of user memory to it,
  \<open>piperead\<close> moves its first bytes to user memory; each sleeps when the queue is full or empty. This holds
  also when the indices of the pipe wrap around.
\<close>

section \<open>Views\<close>

definition pipe_wf :: "pipe \<Rightarrow> bool" where
  "pipe_wf p \<longleftrightarrow> ring_wf PIPESIZE (p_data p) (nread p) (nwrite p)"

definition pipe_bytes :: "pipe \<Rightarrow> uint8 list" where
  "pipe_bytes p = ring_contents PIPESIZE (p_data p) (nread p) (nwrite p)"

definition user_bytes :: "memory \<Rightarrow> uint64 \<Rightarrow> uint64 \<Rightarrow> nat \<Rightarrow> uint8 list" where
  "user_bytes m t va n = map (\<lambda>i. m (phys m t (va + of_nat i))) [0..<n]"

lemmas pipe_views = pipe_wf_def pipe_bytes_def

lemma pipe_put_simps [simp]:
  "readopen (pipe_put c p) = readopen p" "writeopen (pipe_put c p) = writeopen p"
  "readopen (snd (pipe_get p)) = readopen p" "writeopen (snd (pipe_get p)) = writeopen p"
  by (simp_all add: pipe_put_def pipe_get_def)

lemma pipe_full_iff: "pipe_wf p \<Longrightarrow> pipe_full p \<longleftrightarrow> length (pipe_bytes p) = PIPESIZE"
  unfolding pipe_full_def pipe_views by (rule pq.full_iff)

lemma pipe_put_bytes: "pipe_wf p \<Longrightarrow> \<not> pipe_full p \<Longrightarrow> pipe_wf (pipe_put c p) \<and> pipe_bytes (pipe_put c p) = pipe_bytes p @ [c]"
  unfolding pipe_full_def pipe_views by (rule pq.put_law)

lemma pipe_empty_iff: "pipe_wf p \<Longrightarrow> nread p = nwrite p \<longleftrightarrow> pipe_bytes p = []"
  unfolding pipe_views by (rule pq.empty_iff)

lemma pipe_get_bytes:
  assumes "pipe_wf p" and "nread p \<noteq> nwrite p"
  shows "pipe_wf (snd (pipe_get p))" "pipe_bytes p = fst (pipe_get p) # pipe_bytes (snd (pipe_get p))"
  using pq.pop_law [of p] assms unfolding pipe_views by (simp_all add: pipe_get_def)

lemma pipe_room: "pipe_wf p \<Longrightarrow> length (pipe_bytes p) \<le> PIPESIZE"
  unfolding pipe_views by (rule pq.room)

lemma uaccess_take:
  assumes "uaccess m t va n" and "k \<le> n"
  shows "uaccess m t va k"
proof -
  have "in_range va k v \<Longrightarrow> in_range va n v" for v using assms(2) by (simp add: in_range_def)
  moreover have "unat va + k \<le> unat MAXVA" using assms by (simp add: uaccess_def)
  ultimately show ?thesis using assms(1) unfolding uaccess_def by blast
qed

lemma upt_bytes: "i < n \<Longrightarrow> map f [i..<n] = f i # map f [Suc i..<n]"
  by (simp add: upt_conv_Cons)

section \<open>Writing\<close>

text \<open>The loop inside the critical section, with room for all bytes.\<close>

lemma pipewrite_loop_ok:
  assumes "uaccess (mem t) (pagetable (procs t pr)) addr n" and "i \<le> n"
    and "readopen (pipes t pi)" and "\<not> killed (procs t pr)" and "pipe_wf (pipes t pi)" and "length (pipe_bytes (pipes t pi)) + (n - i) \<le> PIPESIZE"
  shows "\<exists>q. pipewrite_loop runs pi pr addr n i t = Ok (Some n, t\<lparr>pipes := (pipes t)(pi := q)\<rparr>) \<and> pipe_wf q \<and>
    pipe_bytes q = pipe_bytes (pipes t pi) @ map (\<lambda>j. mem t (phys (mem t) (pagetable (procs t pr)) (addr + of_nat j))) [i..<n]"
  using assms
proof (induction "n - i" arbitrary: i t)
  case 0
  then have i: "i = n" by simp
  then have "pipewrite_loop runs pi pr addr n i t = Ok (Some n, t)" by (subst pipewrite_loop.simps) simp
  then show ?case using 0(6) i by (intro exI [of _ "pipes t pi"]) simp
next
  case (Suc k)
  let ?p = "pipes t pi" and ?pt = "pagetable (procs t pr)"
  let ?c = "mem t (phys (mem t) ?pt (addr + of_nat i))"
  let ?t = "t\<lparr>pipes := (pipes t)(pi := pipe_put ?c ?p)\<rparr>"
  have i: "i < n" using Suc by simp
  have "uaccess (mem t) ?pt (addr + of_nat i) 1"
    using uaccess_take [OF uaccess_rest [OF Suc.prems(1,2)]] i by simp
  from copyin_ok [OF this] have c: "copyin ?pt (addr + of_nat i) 1 t = Ok ((0, [?c]), t)" by simp
  have nf: "\<not> pipe_full ?p" using pipe_full_iff [OF Suc.prems(5)] Suc.prems(6) i by simp
  from pipe_put_bytes [OF Suc.prems(5) nf, of ?c] have q: "pipe_wf (pipe_put ?c ?p)" "pipe_bytes (pipe_put ?c ?p) = pipe_bytes ?p @ [?c]" by auto
  have "\<exists>q. pipewrite_loop runs pi pr addr n (Suc i) ?t = Ok (Some n, ?t\<lparr>pipes := (pipes ?t)(pi := q)\<rparr>) \<and> pipe_wf q \<and>
      pipe_bytes q = pipe_bytes (pipes ?t pi) @ map (\<lambda>j. mem ?t (phys (mem ?t) (pagetable (procs ?t pr)) (addr + of_nat j))) [Suc i..<n]"
    by (rule Suc.hyps(1)) (use Suc.hyps(2) Suc.prems q i in auto)
  then show ?case
    using i nf c Suc.prems(3,4) q(2)
    by (subst pipewrite_loop.simps) (simp add: run_bnd run_sq get_pipe_def get_proc_def upd_pipe_def upt_bytes)
qed

text \<open>Without room for all bytes, and nobody to read while the writer sleeps, it fills the pipe and sleeps.\<close>

lemma pipewrite_loop_sleeps:
  assumes "uaccess (mem t) (pagetable (procs t pr)) addr n" and "i \<le> n"
    and "readopen (pipes t pi)" and "\<not> killed (procs t pr)" and "pipe_wf (pipes t pi)" and "length (pipe_bytes (pipes t pi)) + (n - i) > PIPESIZE"
    and "settled t" and "\<And>p. p < NPROC \<Longrightarrow> cur t \<noteq> Some p \<Longrightarrow> locks t (LkProc p) = free_lock"
  shows "pipewrite_loop [] pi pr addr n i t = Sleep (ChanPipeWrite pi)"
  using assms
proof (induction "n - i" arbitrary: i t)
  case 0
  then show ?case using pipe_room [OF 0(6)] by simp
next
  case (Suc k)
  let ?p = "pipes t pi" and ?pt = "pagetable (procs t pr)"
  let ?c = "mem t (phys (mem t) ?pt (addr + of_nat i))"
  let ?t = "t\<lparr>pipes := (pipes t)(pi := pipe_put ?c ?p)\<rparr>"
  have i: "i < n" using Suc by simp
  show ?case
  proof (cases "pipe_full ?p")
    case True
    have "wakeup (ChanPipeRead pi) t = Ok ((), woken (ChanPipeRead pi) t)" by (rule run_wakeup [OF Suc.prems(7,8)])
    with True i Suc.prems(3,4) show ?thesis
      by (subst pipewrite_loop.simps) (simp add: run_bnd run_sq get_pipe_def get_proc_def)
  next
    case False
    have "uaccess (mem t) ?pt (addr + of_nat i) 1"
      using uaccess_take [OF uaccess_rest [OF Suc.prems(1,2)]] i by simp
    from copyin_ok [OF this] have c: "copyin ?pt (addr + of_nat i) 1 t = Ok ((0, [?c]), t)" by simp
    from pipe_put_bytes [OF Suc.prems(5) False, of ?c] have q: "pipe_wf (pipe_put ?c ?p)" "pipe_bytes (pipe_put ?c ?p) = pipe_bytes ?p @ [?c]" by auto
    have "pipewrite_loop [] pi pr addr n (Suc i) ?t = Sleep (ChanPipeWrite pi)"
      by (rule Suc.hyps(1)) (use Suc.hyps(2) Suc.prems q i in \<open>auto simp: settled_def cur_def this_cpu_def this_hart_def\<close>)
    then show ?thesis
      using i False c Suc.prems(3,4)
      by (subst pipewrite_loop.simps) (simp add: run_bnd run_sq get_pipe_def get_proc_def upd_pipe_def)
  qed
qed

lemma pipe_section:
  assumes q: "quiet p s" and m: "t = (lockd (LkPipe pi) s)\<lparr>mem := m, pipes := P\<rparr>"
  shows "sq (wakeup ch) (sq (release (LkPipe pi)) (ret r)) t = Ok (r, woken ch (s\<lparr>mem := m, pipes := P\<rparr>))"
    and "sq (release (LkPipe pi)) (ret r') t = Ok (r', s\<lparr>mem := m, pipes := P\<rparr>)"
proof -
  have "settled t" using settled_lockd [OF quietD(1) [OF q], of "LkPipe pi"] m by (simp add: settled_def this_cpu_def this_hart_def)
  then have w: "wakeup ch t = Ok ((), woken ch t)" by (rule run_wakeup) (use q m in auto)
  have "release (LkPipe pi) (woken ch t) = Ok ((), (woken ch t)\<lparr>cpus := cpus s, harts := harts s, locks := locks s\<rparr>)"
    by (rule run_release) (use q m in \<open>auto simp: woken_def\<close>)
  moreover have "(woken ch t)\<lparr>cpus := cpus s, harts := harts s, locks := locks s\<rparr> = woken ch (s\<lparr>mem := m, pipes := P\<rparr>)"
    using m by (simp add: woken_def cur_def this_cpu_def lockd_def pushed_def)
  ultimately show "sq (wakeup ch) (sq (release (LkPipe pi)) (ret r)) t = Ok (r, woken ch (s\<lparr>mem := m, pipes := P\<rparr>))"
    using w by (simp add: run_sq)
  have "release (LkPipe pi) t = Ok ((), t\<lparr>cpus := cpus s, harts := harts s, locks := locks s\<rparr>)"
    by (rule run_release) (use q m in auto)
  moreover have "t\<lparr>cpus := cpus s, harts := harts s, locks := locks s\<rparr> = s\<lparr>mem := m, pipes := P\<rparr>" using m by (simp add: lockd_def)
  ultimately show "sq (release (LkPipe pi)) (ret r') t = Ok (r', s\<lparr>mem := m, pipes := P\<rparr>)" by (simp add: run_sq)
qed

lemma lockd_piped [simp]: "pipes (lockd lk s) = pipes s" "mem (lockd lk s) = mem s"
  by (simp_all add: lockd_def)

text \<open>
  C11. \<open>pipewrite\<close> of \<open>n\<close> bytes at a user address. When they fit, it appends exactly these bytes to the bytes
  in the pipe, returns \<open>n\<close> and makes the processes that wait to read runnable. When they do not fit, the
  writer ends up asleep on the pipe. When the read end is closed or the writer has been killed, it returns
  -1 and the pipe stays as it is.
\<close>

theorem pipewrite_appends:
  assumes q: "quiet p s" and wf: "pipe_wf (pipes s pi)" and u: "uaccess (mem s) (pagetable (procs s p)) addr (nat n)"
  shows "if 0 < n \<and> (\<not> readopen (pipes s pi) \<or> killed (procs s p)) then pipewrite [] pi addr n s = Ok (-1, s)
    else if length (pipe_bytes (pipes s pi)) + nat n \<le> PIPESIZE then
      \<exists>q. pipewrite [] pi addr n s = Ok (int (nat n), woken (ChanPipeRead pi) (s\<lparr>pipes := (pipes s)(pi := q)\<rparr>)) \<and> pipe_wf q \<and>
        pipe_bytes q = pipe_bytes (pipes s pi) @ user_bytes (mem s) (pagetable (procs s p)) addr (nat n)
    else pipewrite [] pi addr n s = Sleep (ChanPipeWrite pi)"
proof -
  let ?u = "lockd (LkPipe pi) s"
  have me: "this_proc s = Ok (p, s)" using q by (intro run_this_proc) auto
  have acq: "acquire (LkPipe pi) s = Ok ((), ?u)" by (rule run_acquire) (use q in auto)
  have self: "s = s\<lparr>mem := mem s, pipes := pipes s\<rparr>" "?u = ?u\<lparr>mem := mem s, pipes := pipes s\<rparr>" by (simp_all add: lockd_def)
  note sec = pipe_section [OF q refl, where pi = pi and m = "mem s"]
  show ?thesis
  proof (cases "0 < n \<and> (\<not> readopen (pipes s pi) \<or> killed (procs s p))")
    case True
    then have "pipewrite_loop [] pi p addr (nat n) 0 ?u = sq (release (LkPipe pi)) (ret None) ?u"
      by (subst pipewrite_loop.simps) (auto simp: run_bnd get_pipe_def get_proc_def)
    also have "\<dots> = Ok (None, s)" using sec(2) [where P = "pipes s" and r' = None] self by metis
    finally show ?thesis using True me acq by (simp add: pipewrite_def run_bnd run_sq)
  next
    case False
    have u': "uaccess (mem ?u) (pagetable (procs ?u p)) addr (nat n)" using u by simp
    show ?thesis
    proof (cases "length (pipe_bytes (pipes s pi)) + nat n \<le> PIPESIZE")
      case True
      have "\<exists>q. pipewrite_loop [] pi p addr (nat n) 0 ?u = Ok (Some (nat n), ?u\<lparr>pipes := (pipes ?u)(pi := q)\<rparr>) \<and> pipe_wf q \<and>
          pipe_bytes q = pipe_bytes (pipes s pi) @ user_bytes (mem s) (pagetable (procs s p)) addr (nat n)"
      proof (cases "0 < n")
        case True
        show ?thesis
          using pipewrite_loop_ok [OF u' le0, of pi "[]"] False True wf \<open>_ \<le> PIPESIZE\<close> by (auto simp: user_bytes_def)
      next
        case False
        then show ?thesis
          using wf by (subst pipewrite_loop.simps) (auto simp: user_bytes_def lockd_def intro!: exI [of _ "pipes s pi"])
      qed
      then obtain k where k: "pipewrite_loop [] pi p addr (nat n) 0 ?u = Ok (Some (nat n), ?u\<lparr>pipes := (pipes s)(pi := k)\<rparr>)" "pipe_wf k"
        "pipe_bytes k = pipe_bytes (pipes s pi) @ user_bytes (mem s) (pagetable (procs s p)) addr (nat n)" by auto
      have "?u\<lparr>pipes := (pipes s)(pi := k)\<rparr> = ?u\<lparr>mem := mem s, pipes := (pipes s)(pi := k)\<rparr>" by (simp add: lockd_def)
      with sec(1) [where P = "(pipes s)(pi := k)" and ch = "ChanPipeRead pi" and r = "int (nat n)"] k(1) me acq
      have "pipewrite [] pi addr n s = Ok (int (nat n), woken (ChanPipeRead pi) (s\<lparr>pipes := (pipes s)(pi := k)\<rparr>))"
        by (simp add: pipewrite_def run_bnd run_sq)
      then show ?thesis using False True k(2,3) by auto
    next
      case room: False
      then have "0 < n" using pipe_room [OF wf] by simp
      have "pipewrite_loop [] pi p addr (nat n) 0 ?u = Sleep (ChanPipeWrite pi)"
        by (rule pipewrite_loop_sleeps [OF u' le0]) (use False room wf q \<open>0 < n\<close> in auto)
      then show ?thesis using False room me acq by (simp add: pipewrite_def run_bnd run_sq)
    qed
  qed
qed

section \<open>Reading\<close>

lemma copied_uaccess:
  assumes ua: "uaccess m t va n" and l: "length src \<le> n" and c: "copied m m' t va src"
  shows "uaccess m' t va n"
proof (rule uaccess_frame(1) [OF ua])
  fix x assume x: "PGROUNDDOWN x \<in> pt_pages m 2 t"
  have "x \<noteq> phys m t (va + of_nat i)" if i: "i < length src" for i
  proof
    assume "x = phys m t (va + of_nat i)"
    then have "PTE2PA (pte_of m 2 t (va + of_nat i)) \<in> pt_pages m 2 t" using x by (simp add: phys_page)
    moreover have "in_range va n (va + of_nat i)" using unat_in_range(2) [of va n i] i l ua by (simp add: uaccess_def)
    ultimately show False using ua unfolding uaccess_def by blast
  qed
  then show "m' x = m x" using c by (simp add: copied_def)
qed

lemma copied_Nil: "copied m m t va []" by (simp add: copied_def)

lemma piperead_loop_ok:
  assumes "uaccess (mem t) (pagetable (procs t pr)) (addr + of_nat i) n" and "pipe_wf (pipes t pi)"
  shows "\<exists>m' q. piperead_loop n pi pr addr i t = Ok (i + min n (length (pipe_bytes (pipes t pi))), t\<lparr>mem := m', pipes := (pipes t)(pi := q)\<rparr>) \<and>
    pipe_wf q \<and> pipe_bytes q = drop n (pipe_bytes (pipes t pi)) \<and>
    copied (mem t) m' (pagetable (procs t pr)) (addr + of_nat i) (take n (pipe_bytes (pipes t pi)))"
  using assms
proof (induction n arbitrary: i t)
  case 0
  show ?case using 0(2) by (intro exI [of _ "mem t"] exI [of _ "pipes t pi"]) (simp add: copied_Nil)
next
  case (Suc n)
  let ?p = "pipes t pi" and ?pt = "pagetable (procs t pr)"
  show ?case
  proof (cases "nread ?p = nwrite ?p")
    case True
    then have "pipe_bytes ?p = []" using pipe_empty_iff [OF Suc.prems(2)] by simp
    with True Suc.prems(2) show ?thesis
      by (intro exI [of _ "mem t"] exI [of _ ?p]) (simp add: copied_Nil run_bnd get_pipe_def)
  next
    case False
    let ?c = "fst (pipe_get ?p)" and ?q = "snd (pipe_get ?p)"
    let ?t = "t\<lparr>pipes := (pipes t)(pi := ?q)\<rparr>"
    note g = pipe_get_bytes [OF Suc.prems(2) False]
    have "uaccess (mem ?t) ?pt (addr + of_nat i) (length [?c])" using uaccess_take [OF Suc.prems(1)] by simp
    from copyout_ok [OF this] obtain m1 where m1: "copyout ?pt (addr + of_nat i) [?c] ?t = Ok (0, ?t\<lparr>mem := m1\<rparr>)"
      "copied (mem t) m1 ?pt (addr + of_nat i) [?c]" by auto
    let ?u = "?t\<lparr>mem := m1\<rparr>"
    have ua: "uaccess m1 ?pt (addr + of_nat i) (Suc n)" by (rule copied_uaccess [OF Suc.prems(1) _ m1(2)]) simp
    have "\<exists>m' q. piperead_loop n pi pr addr (Suc i) ?u = Ok (Suc i + min n (length (pipe_bytes (pipes ?u pi))), ?u\<lparr>mem := m', pipes := (pipes ?u)(pi := q)\<rparr>) \<and>
        pipe_wf q \<and> pipe_bytes q = drop n (pipe_bytes (pipes ?u pi)) \<and>
        copied (mem ?u) m' (pagetable (procs ?u pr)) (addr + of_nat (Suc i)) (take n (pipe_bytes (pipes ?u pi)))"
      by (rule Suc.IH) (use uaccess_rest [OF ua, of 1] g in \<open>simp_all add: add_ac\<close>)
    then obtain m2 q where r: "piperead_loop n pi pr addr (Suc i) ?u = Ok (Suc i + min n (length (pipe_bytes ?q)), t\<lparr>mem := m2, pipes := (pipes t)(pi := q)\<rparr>)"
      "pipe_wf q" "pipe_bytes q = drop n (pipe_bytes ?q)" "copied m1 m2 ?pt (addr + of_nat i + of_nat (length [?c])) (take n (pipe_bytes ?q))"
      by (auto simp: add_ac)
    have "copied (mem t) m2 ?pt (addr + of_nat i) ([?c] @ take n (pipe_bytes ?q))"
      by (rule copied_append [OF uaccess_take [OF Suc.prems(1)] m1(2) r(4)]) simp
    with False r(1-3) m1(1) g(2) show ?thesis
      by (intro exI [of _ m2] exI [of _ q]) (simp add: run_bnd run_sq get_pipe_def get_proc_def upd_pipe_def Let_def fun_upd_def)
  qed
qed

text \<open>
  C12. \<open>piperead\<close> of at most \<open>n\<close> bytes. When the pipe has bytes, or its write end is closed, it moves the first
  bytes of the pipe, \<open>n\<close> or as many as there are, to the user address, changes no other memory, returns their
  number and makes the processes that wait to write runnable. On an empty pipe whose write end is open it
  sleeps, or returns -1 when the reader has been killed.
\<close>

theorem piperead_takes:
  assumes q: "quiet p s" and wf: "pipe_wf (pipes s pi)" and u: "uaccess (mem s) (pagetable (procs s p)) addr (nat n)"
  shows "if pipe_bytes (pipes s pi) = [] \<and> writeopen (pipes s pi) then
      piperead [] pi addr n s = (if killed (procs s p) then Ok (-1, s) else Sleep (ChanPipeRead pi))
    else \<exists>m' q. piperead [] pi addr n s =
        Ok (int (min (nat n) (length (pipe_bytes (pipes s pi)))), woken (ChanPipeWrite pi) (s\<lparr>mem := m', pipes := (pipes s)(pi := q)\<rparr>)) \<and>
      pipe_wf q \<and> pipe_bytes q = drop (nat n) (pipe_bytes (pipes s pi)) \<and>
      copied (mem s) m' (pagetable (procs s p)) addr (take (nat n) (pipe_bytes (pipes s pi)))"
proof -
  let ?u = "lockd (LkPipe pi) s" and ?b = "pipe_bytes (pipes s pi)"
  have me: "this_proc s = Ok (p, s)" using q by (intro run_this_proc) auto
  have acq: "acquire (LkPipe pi) s = Ok ((), ?u)" by (rule run_acquire) (use q in auto)
  have self: "s = s\<lparr>mem := mem s, pipes := pipes s\<rparr>" "?u = ?u\<lparr>mem := mem s, pipes := pipes s\<rparr>" by (simp_all add: lockd_def)
  note sec = pipe_section [OF q refl, where pi = pi]
  show ?thesis
  proof (cases "?b = [] \<and> writeopen (pipes s pi)")
    case True
    then have "nread (pipes s pi) = nwrite (pipes s pi)" using pipe_empty_iff [OF wf] by simp
    moreover have "sq (release (LkPipe pi)) (ret False) ?u = Ok (False, s)"
      using sec(2) [where m = "mem s" and P = "pipes s" and r' = False] self by metis
    ultimately show ?thesis
      using True me acq by (simp add: piperead_def run_bnd run_sq get_pipe_def get_proc_def)
  next
    case False
    then have w: "piperead_wait [] pi p ?u = Ok (True, ?u)"
      using pipe_empty_iff [OF wf] by (auto simp: run_bnd get_pipe_def get_proc_def)
    have "uaccess (mem ?u) (pagetable (procs ?u p)) (addr + of_nat 0) (nat n)" using u by simp
    from piperead_loop_ok [OF this, of pi] wf obtain m' k where r:
      "piperead_loop (nat n) pi p addr 0 ?u = Ok (min (nat n) (length ?b), ?u\<lparr>mem := m', pipes := (pipes s)(pi := k)\<rparr>)"
      "pipe_wf k" "pipe_bytes k = drop (nat n) ?b" "copied (mem s) m' (pagetable (procs s p)) addr (take (nat n) ?b)" by auto
    from sec(1) [where m = m' and P = "(pipes s)(pi := k)" and ch = "ChanPipeWrite pi" and r = "int (min (nat n) (length ?b))"] r(1) me acq w
    have "piperead [] pi addr n s = Ok (int (min (nat n) (length ?b)), woken (ChanPipeWrite pi) (s\<lparr>mem := m', pipes := (pipes s)(pi := k)\<rparr>))"
      by (simp add: piperead_def run_bnd run_sq)
    then show ?thesis using False r(2-4) by auto
  qed
qed

section \<open>A pipe whose indices wrap around\<close>

definition wrap_pipe :: pipe where
  "wrap_pipe = demo_pipe\<lparr>p_data := (replicate PIPESIZE 0)[511 := 5], nread := 0xFFFFFFFF, nwrite := 0\<rparr>"

lemma wrap_pipe:
  "pipe_wf wrap_pipe" "pipe_bytes wrap_pipe = [5]" "readopen wrap_pipe" "writeopen wrap_pipe"
proof -
  have "(0 :: uint32) - 0xFFFFFFFF = 1" by simp
  then show "pipe_wf wrap_pipe" "pipe_bytes wrap_pipe = [5]"
    by (simp_all add: pipe_views ring_wf_def ring_contents_def wrap_pipe_def demo_pipe_def PIPESIZE_def)
qed (simp_all add: wrap_pipe_def demo_pipe_def)

theorem pipewrite_appends_witness:
  "\<exists>s'. pipewrite [] 0 16 3 (demo_piped wrap_pipe) = Ok (3, s') \<and> pipe_bytes (pipes s' 0) = 5 # user_bytes demo_mem 0x80300000 16 3"
proof -
  let ?s = "demo_piped wrap_pipe"
  have u: "uaccess (mem ?s) (pagetable (procs ?s 0)) 16 (nat 3)" using demo_uaccess [of 3] by (simp add: demo_piped)
  have w: "pipe_wf (pipes ?s 0)" by (simp add: demo_piped wrap_pipe)
  show ?thesis
    using pipewrite_appends [OF demo_piped(1) w u] by (auto simp: demo_piped wrap_pipe PIPESIZE_def woken_def)
qed

theorem piperead_takes_witness:
  "\<exists>s'. piperead [] 0 16 3 (demo_piped wrap_pipe) = Ok (1, s') \<and> pipe_bytes (pipes s' 0) = [] \<and> mem s' (phys demo_mem 0x80300000 16) = 5"
proof -
  let ?s = "demo_piped wrap_pipe"
  have u: "uaccess (mem ?s) (pagetable (procs ?s 0)) 16 (nat 3)" using demo_uaccess [of 3] by (simp add: demo_piped)
  have w: "pipe_wf (pipes ?s 0)" by (simp add: demo_piped wrap_pipe)
  show ?thesis
    using piperead_takes [OF demo_piped(1) w u] by (auto simp: demo_piped wrap_pipe woken_def copied_def)
qed

end
