(* ===== verification/Serial.thy ===== *)
theory Serial
  imports Demo_state
begin

unbundle bit_operations_syntax

text \<open>
  Properties of the serial port and the console. The transmit buffer is a queue: no byte is lost, doubled or
  sent out of order. The console's input buffer holds the lines that are complete and the line being edited;
  \<open>consoleintr\<close> implements the editing of that line.
\<close>

section \<open>Sending\<close>

text \<open>The bytes given to the transmitter so far, and the bytes in the buffer.\<close>

definition sent :: "'x devs_scheme \<Rightarrow> uint8 list" where
  "sent s = map (\<lambda>(a, v). ucast v) (filter (\<lambda>(a, v). a = UART0 + THR) (mmio_log s))"

definition tx_wf :: "uart \<Rightarrow> bool" where
  "tx_wf u \<longleftrightarrow> ring_wf UART_TX_BUF_SIZE (tx_buf u) (tx_r u) (tx_w u)"

definition tx_bytes :: "uart \<Rightarrow> uint8 list" where
  "tx_bytes u = ring_contents UART_TX_BUF_SIZE (tx_buf u) (tx_r u) (tx_w u)"

text \<open>From now on the device answers that it can take a byte.\<close>

definition tx_idle :: "'x devs_scheme \<Rightarrow> bool" where
  "tx_idle s \<longleftrightarrow> (\<forall>n \<ge> mmio_n s (UART0 + LSR). mmio_in s (UART0 + LSR) n AND LSR_TX_IDLE \<noteq> 0)"

lemmas tx_views = tx_wf_def tx_bytes_def

text \<open>What the driver leaves alone.\<close>

definition uframe :: "'x devs_scheme \<Rightarrow> 'x devs_scheme \<Rightarrow> bool" where
  "uframe s s' \<longleftrightarrow> (\<exists>ps u n l. s' = s\<lparr>procs := ps, uart0 := u, mmio_n := n, mmio_log := l\<rparr>)"

lemma uframe_refl: "uframe s s"
  unfolding uframe_def by (intro exI [of _ "procs s"] exI [of _ "uart0 s"] exI [of _ "mmio_n s"] exI [of _ "mmio_log s"]) simp

lemma uframe_trans: "uframe s t \<Longrightarrow> uframe t u \<Longrightarrow> uframe s u"
  unfolding uframe_def by fastforce

lemma uframe_simps:
  assumes "uframe s s'"
  shows "locks s' = locks s" "cpus s' = cpus s" "harts s' = harts s" "hart s' = hart s" "settled s' = settled s" "cur s' = cur s" "panicked s' = panicked s"
    "poll_limit s' = poll_limit s" "mmio_in s' = mmio_in s" "cons s' = cons s"
  using assms by (auto simp: uframe_def settled_def cur_def this_cpu_def this_hart_def)

lemma ucast_byte: "ucast (ucast c :: uint32) = (c :: uint8)"
  by (rule bit_word_eqI) (auto simp: bit_simps dest: bit_imp_le_length)

lemma uartstart_loop_ok:
  assumes "settled t" and "\<And>p. p < NPROC \<Longrightarrow> cur t \<noteq> Some p \<Longrightarrow> locks t (LkProc p) = free_lock"
    and "tx_wf (uart0 t)" and "length (tx_bytes (uart0 t)) < fuel"
  shows "\<exists>t'. uartstart_loop fuel t = Ok ((), t') \<and> uframe t t' \<and> tx_wf (uart0 t') \<and>
    sent t' @ tx_bytes (uart0 t') = sent t @ tx_bytes (uart0 t) \<and> (tx_idle t \<longrightarrow> tx_bytes (uart0 t') = [])"
  using assms
proof (induction fuel arbitrary: t)
  case (Suc fuel)
  let ?u = "uart0 t" and ?a = "UART0 + LSR"
  let ?v = "mmio_in t ?a (mmio_n t ?a)" and ?n = "(mmio_n t)(?a := mmio_n t ?a + 1)"
  have e: "tx_w ?u = tx_r ?u \<longleftrightarrow> tx_bytes ?u = []"
    using txq.empty_iff [of ?u] Suc.prems(3) unfolding tx_views by auto
  consider (empty) "tx_w ?u = tx_r ?u" | (busy) "tx_w ?u \<noteq> tx_r ?u" "?v AND LSR_TX_IDLE = 0" | (send) "tx_w ?u \<noteq> tx_r ?u" "?v AND LSR_TX_IDLE \<noteq> 0" by blast
  then show ?case
  proof cases
    case empty
    with e Suc.prems(3) show ?thesis by (intro exI [of _ t]) (simp add: run_bnd uframe_refl)
  next
    case busy
    have "\<not> tx_idle t" using busy(2) by (auto simp: tx_idle_def)
    moreover have "uframe t (t\<lparr>mmio_n := ?n\<rparr>)" unfolding uframe_def
      by (intro exI [of _ "procs t"] exI [of _ "uart0 t"] exI [of _ ?n] exI [of _ "mmio_log t"]) simp
    ultimately show ?thesis using busy Suc.prems(3)
      by (intro exI [of _ "t\<lparr>mmio_n := ?n\<rparr>"]) (simp add: run_bnd run_sq ReadReg_def mmio_read_def sent_def)
  next
    case send
    let ?c = "tx_buf ?u ! (unat (tx_r ?u) mod UART_TX_BUF_SIZE)" and ?q = "?u\<lparr>tx_r := tx_r ?u + 1\<rparr>"
    let ?t1 = "t\<lparr>mmio_n := ?n, uart0 := ?q\<rparr>"
    let ?t2 = "woken ChanUart ?t1"
    let ?t3 = "?t2\<lparr>mmio_log := mmio_log t @ [(UART0 + THR, ucast ?c)]\<rparr>"
    have q: "tx_wf ?q" "tx_bytes ?u = ?c # tx_bytes ?q"
      using txq.pop_law [of ?u] Suc.prems(3) send(1) unfolding tx_views by auto
    have fr: "uframe t ?t3" unfolding uframe_def
      by (intro exI [of _ "procs ?t2"] exI [of _ ?q] exI [of _ ?n] exI [of _ "mmio_log ?t3"]) (simp add: woken_def)
    have "wakeup ChanUart ?t1 = Ok ((), ?t2)"
      by (rule run_wakeup) (use Suc.prems(1,2) in \<open>simp_all add: settled_def cur_def this_cpu_def this_hart_def\<close>)
    then have run: "uartstart_loop (Suc fuel) t = uartstart_loop fuel ?t3"
      using send by (simp add: run_bnd run_sq ReadReg_def mmio_read_def upd_uart_def WriteReg_def mmio_write_def Let_def woken_def)
    have u3: "uart0 ?t3 = ?q" "sent ?t3 = sent t @ [?c]"
      by (simp_all add: woken_def sent_def ucast_byte)
    have idle: "tx_idle t \<longrightarrow> tx_idle ?t3" by (auto simp: tx_idle_def woken_def)
    have "\<exists>t'. uartstart_loop fuel ?t3 = Ok ((), t') \<and> uframe ?t3 t' \<and> tx_wf (uart0 t') \<and>
        sent t' @ tx_bytes (uart0 t') = sent ?t3 @ tx_bytes (uart0 ?t3) \<and> (tx_idle ?t3 \<longrightarrow> tx_bytes (uart0 t') = [])"
      by (rule Suc.IH) (use Suc.prems q u3(1) uframe_simps [OF fr] in simp_all)
    then obtain t' where t': "uartstart_loop fuel ?t3 = Ok ((), t')" "uframe ?t3 t'" "tx_wf (uart0 t')"
      "sent t' @ tx_bytes (uart0 t') = sent ?t3 @ tx_bytes (uart0 ?t3)" "tx_idle ?t3 \<longrightarrow> tx_bytes (uart0 t') = []" by blast
    have "sent t' @ tx_bytes (uart0 t') = sent t @ tx_bytes ?u" unfolding t'(4) u3 q(2) by simp
    with run t'(1,3,5) idle uframe_trans [OF fr t'(2)] show ?thesis by metis
  qed
qed simp

lemma uartstart_ok:
  assumes "settled t" and "\<And>p. p < NPROC \<Longrightarrow> cur t \<noteq> Some p \<Longrightarrow> locks t (LkProc p) = free_lock" and "tx_wf (uart0 t)"
  shows "\<exists>t'. uartstart t = Ok ((), t') \<and> uframe t t' \<and> tx_wf (uart0 t') \<and>
    sent t' @ tx_bytes (uart0 t') = sent t @ tx_bytes (uart0 t) \<and> (tx_idle t \<longrightarrow> tx_bytes (uart0 t') = [])"
proof -
  have e: "uartstart t = uartstart_loop (Suc (length (tx_bytes (uart0 t)))) t"
    by (simp add: uartstart_def run_bnd tx_bytes_def del: uartstart_loop.simps)
  show ?thesis unfolding e by (rule uartstart_loop_ok [OF assms lessI])
qed

lemma lockd_devs [simp]:
  "uart0 (lockd lk s) = uart0 s" "cons (lockd lk s) = cons s" "mmio_in (lockd lk s) = mmio_in s" "mmio_n (lockd lk s) = mmio_n s"
  "mmio_log (lockd lk s) = mmio_log s" "panicked (lockd lk s) = panicked s" "poll_limit (lockd lk s) = poll_limit s"
  by (simp_all add: lockd_def)


section \<open>Output without interrupts\<close>

definition mframe :: "'x devs_scheme \<Rightarrow> 'x devs_scheme \<Rightarrow> bool" where
  "mframe s s' \<longleftrightarrow> (\<exists>n l. s' = s\<lparr>mmio_n := n, mmio_log := l\<rparr>)"

lemma mframe_refl: "mframe s s"
  unfolding mframe_def by (intro exI [of _ "mmio_n s"] exI [of _ "mmio_log s"]) simp

lemma mframe_trans: "mframe s t \<Longrightarrow> mframe t u \<Longrightarrow> mframe s u"
  unfolding mframe_def by fastforce

text \<open>The port is ready for \<open>consputc\<close>: the device is idle, and the kernel has not panicked.\<close>

definition tx_ready :: "'x devs_scheme \<Rightarrow> bool" where
  "tx_ready s \<longleftrightarrow> tx_idle s \<and> 0 < poll_limit s \<and> \<not> panicked s \<and> settled s"

lemma run_uartputc_sync:
  assumes "tx_ready t"
  shows "\<exists>t'. uartputc_sync c t = Ok ((), t') \<and> mframe t t' \<and> tx_ready t' \<and> sent t' = sent t @ [c]"
proof -
  let ?a = "UART0 + LSR"
  let ?n = "(mmio_n t)(?a := mmio_n t ?a + 1)" and ?l = "mmio_log t @ [(UART0 + THR, ucast c)]"
  let ?t1 = "set_cpu (pushed (intr_get (this_hart t)) (this_cpu t)) (set_hart (intr_off (this_hart t)) t)"
  let ?t2 = "?t1\<lparr>mmio_n := ?n, mmio_log := ?l\<rparr>"
  have f: "mmio_in ?t1 = mmio_in t" "mmio_n ?t1 = mmio_n t" "mmio_log ?t1 = mmio_log t" "panicked ?t1 = panicked t" "poll_limit ?t1 = poll_limit t"
    by (simp_all add: set_cpu_def set_hart_def)
  have i: "mmio_in t ?a (mmio_n t ?a) AND LSR_TX_IDLE \<noteq> 0" using assms by (simp add: tx_ready_def tx_idle_def)
  obtain k where k: "poll_limit t = Suc k" using assms by (cases "poll_limit t") (simp_all add: tx_ready_def)
  have "pop_off ?t2 = Ok ((), set_cpu (this_cpu t) (set_hart (this_hart t) ?t2))"
    by (rule pop_pushed) (use assms in \<open>simp_all add: tx_ready_def this_cpu_def this_hart_def set_cpu_def set_hart_def\<close>)
  moreover have "set_cpu (this_cpu t) (set_hart (this_hart t) ?t2) = t\<lparr>mmio_n := ?n, mmio_log := ?l\<rparr>"
    by (simp add: set_cpu_def set_hart_def this_cpu_def this_hart_def)
  ultimately have run: "uartputc_sync c t = Ok ((), t\<lparr>mmio_n := ?n, mmio_log := ?l\<rparr>)"
    using assms i k by (simp add: uartputc_sync_def run_sq run_bnd run_push_off f ReadReg_def mmio_read_def WriteReg_def mmio_write_def tx_ready_def)
  moreover have "mframe t (t\<lparr>mmio_n := ?n, mmio_log := ?l\<rparr>)" unfolding mframe_def by blast
  moreover have "tx_ready (t\<lparr>mmio_n := ?n, mmio_log := ?l\<rparr>)"
    using assms by (auto simp: tx_ready_def tx_idle_def settled_def this_cpu_def this_hart_def)
  moreover have "sent (t\<lparr>mmio_n := ?n, mmio_log := ?l\<rparr>) = sent t @ [c]" by (simp add: sent_def ucast_byte)
  ultimately show ?thesis by blast
qed

lemma run_consputc:
  assumes "tx_ready t"
  shows "\<exists>t'. consputc c t = Ok ((), t') \<and> mframe t t' \<and> tx_ready t'"
proof (cases c)
  case None
  obtain t1 where 1: "uartputc_sync 8 t = Ok ((), t1)" "mframe t t1" "tx_ready t1" using run_uartputc_sync [OF assms] by blast
  obtain t2 where 2: "uartputc_sync 32 t1 = Ok ((), t2)" "mframe t1 t2" "tx_ready t2" using run_uartputc_sync [OF 1(3)] by blast
  obtain t3 where 3: "uartputc_sync 8 t2 = Ok ((), t3)" "mframe t2 t3" "tx_ready t3" using run_uartputc_sync [OF 2(3)] by blast
  from 1 2 3 None show ?thesis
    using mframe_trans [OF 1(2) mframe_trans [OF 2(2) 3(2)]] by (simp add: consputc_def run_sq)
next
  case (Some b)
  then show ?thesis using run_uartputc_sync [OF assms, of b] by (auto simp: consputc_def)
qed

section \<open>Editing\<close>

text \<open>The complete lines that no process has read yet, and the line that is being edited.\<close>

definition cons_done :: "console \<Rightarrow> uint8 list" where
  "cons_done k = ring_contents INPUT_BUF (cons_buf k) (cons_r k) (cons_w k)"

definition cons_line :: "console \<Rightarrow> uint8 list" where
  "cons_line k = ring_contents INPUT_BUF (cons_buf k) (cons_w k) (cons_e k)"

definition cons_wf :: "console \<Rightarrow> bool" where
  "cons_wf k \<longleftrightarrow> ring_wf INPUT_BUF (cons_buf k) (cons_r k) (cons_e k) \<and> unat (cons_w k - cons_r k) \<le> unat (cons_e k - cons_r k)"

text \<open>What a character does to them: the specification of the line editor.\<close>

definition edit :: "uint8 \<Rightarrow> uint8 list \<times> uint8 list \<Rightarrow> uint8 list \<times> uint8 list" where
  "edit c = (\<lambda>(lines, l).
     if c = ctrl CHR ''U'' then (lines, rev (dropWhile (\<lambda>b. b \<noteq> newline) (rev l)))
     else if c = ctrl CHR ''H'' \<or> c = 0x7f then (lines, butlast l)
     else if c \<noteq> 0 \<and> length lines + length l < INPUT_BUF then
       (let b = (if c = 13 then newline else c); l' = l @ [b] in
        if b = newline \<or> b = ctrl CHR ''D'' \<or> length lines + length l' = INPUT_BUF then (lines @ l', []) else (lines, l'))
     else (lines, l))"

lemma input_buf_dvd: "INPUT_BUF dvd 2 ^ LENGTH(32)"
  by (simp add: INPUT_BUF_def)

lemma cons_all:
  assumes "cons_wf k"
  shows "ring_contents INPUT_BUF (cons_buf k) (cons_r k) (cons_e k) = cons_done k @ cons_line k"
    and "unat (cons_e k - cons_r k) = length (cons_done k) + length (cons_line k)"
proof -
  show s: "ring_contents INPUT_BUF (cons_buf k) (cons_r k) (cons_e k) = cons_done k @ cons_line k"
    unfolding cons_done_def cons_line_def by (rule ring_contents_split(1) [OF input_buf_dvd]) (use assms in \<open>simp add: cons_wf_def\<close>)
  show "unat (cons_e k - cons_r k) = length (cons_done k) + length (cons_line k)"
    using arg_cong [OF s, of length] by simp
qed

lemma cons_put:
  assumes wf: "cons_wf k" and room: "length (cons_done k) + length (cons_line k) < INPUT_BUF"
  shows "let k' = k\<lparr>cons_buf := (cons_buf k)[unat (cons_e k) mod INPUT_BUF := c], cons_e := cons_e k + 1\<rparr> in
    cons_wf k' \<and> cons_done k' = cons_done k \<and> cons_line k' = cons_line k @ [c]"
proof -
  let ?k = "k\<lparr>cons_buf := (cons_buf k)[unat (cons_e k) mod INPUT_BUF := c], cons_e := cons_e k + 1\<rparr>"
  have rw: "ring_wf INPUT_BUF (cons_buf k) (cons_r k) (cons_e k)" using wf by (simp add: cons_wf_def)
  have "\<not> cons_e k = cons_r k + of_nat INPUT_BUF" using inq.full_iff [OF rw] room cons_all(2) [OF wf] by simp
  from inq.put_law [OF rw this, of c]
  have p: "ring_wf INPUT_BUF (cons_buf ?k) (cons_r ?k) (cons_e ?k)"
    "ring_contents INPUT_BUF (cons_buf ?k) (cons_r ?k) (cons_e ?k) = cons_done k @ cons_line k @ [c]" using cons_all(1) [OF wf] by auto
  have "unat (cons_e ?k - cons_r ?k) = Suc (unat (cons_e k - cons_r k))" using arg_cong [OF p(2), of length] cons_all(2) [OF wf] by simp
  then have wf': "cons_wf ?k" using p(1) wf by (simp add: cons_wf_def)
  moreover have "cons_done ?k @ cons_line ?k = cons_done k @ cons_line k @ [c]" using cons_all(1) [OF wf'] p(2) by simp
  moreover have "length (cons_done ?k) = length (cons_done k)" by (simp add: cons_done_def)
  ultimately show ?thesis by (simp add: Let_def append_eq_append_conv)
qed

lemma cons_back:
  assumes wf: "cons_wf k" and ne: "cons_e k \<noteq> cons_w k"
  shows "let k' = k\<lparr>cons_e := cons_e k - 1\<rparr> in cons_wf k' \<and> cons_done k' = cons_done k \<and> cons_line k' = butlast (cons_line k)"
    and "cons_line k \<noteq> [] \<and> cons_buf k ! (unat (cons_e k - 1) mod INPUT_BUF) = last (cons_line k)"
proof -
  let ?k = "k\<lparr>cons_e := cons_e k - 1\<rparr>"
  note b = ring_contents_back(1) [OF ne, of INPUT_BUF "cons_buf k"] ring_contents_back(2) [OF ne]
  have l: "cons_line ?k = butlast (cons_line k)" using b(1) by (simp add: cons_line_def)
  have "unat (cons_e k - cons_w k) \<noteq> 0" using ne by (simp add: unat_eq_zero)
  then have n: "cons_line k \<noteq> []" by (metis cons_line_def length_ring_contents list.size(3))
  then have "cons_e k \<noteq> cons_r k" using cons_all(2) [OF wf] by (metis add_is_0 diff_self length_0_conv unat_0)
  from ring_contents_back(2) [OF this] have u: "unat (cons_e k - 1 - cons_r k) = unat (cons_e k - cons_r k) - 1" .
  have "unat (cons_w k - cons_r k) < unat (cons_e k - cons_r k)"
    using cons_all(2) [OF wf] n by (simp add: cons_done_def)
  then have "cons_wf ?k" using wf u by (simp add: cons_wf_def ring_wf_def) linarith
  with l show "let k' = ?k in cons_wf k' \<and> cons_done k' = cons_done k \<and> cons_line k' = butlast (cons_line k)"
    by (simp add: Let_def cons_done_def)
  let ?n = "unat (cons_e k - cons_w k)"
  have "cons_e k - 1 = cons_w k + of_nat (?n - 1)"
    using b(2) by (intro ring_index) simp
  then have "unat (cons_e k - 1) mod INPUT_BUF = (unat (cons_w k) + (?n - 1)) mod INPUT_BUF"
    using unat_add_mod [OF input_buf_dvd] by metis
  with n \<open>?n \<noteq> 0\<close> show "cons_line k \<noteq> [] \<and> cons_buf k ! (unat (cons_e k - 1) mod INPUT_BUF) = last (cons_line k)"
    by (simp add: last_conv_nth) (simp add: cons_line_def ring_contents_def)
qed

lemma tx_ready_cons [simp]: "tx_ready (s\<lparr>cons := k\<rparr>) = tx_ready s" "settled (s\<lparr>cons := k\<rparr>) = settled s"
  by (simp_all add: tx_ready_def tx_idle_def settled_def this_cpu_def this_hart_def)

text \<open>What \<open>consoleintr\<close> leaves alone.\<close>

definition cframe :: "'x devs_scheme \<Rightarrow> 'x devs_scheme \<Rightarrow> bool" where
  "cframe s s' \<longleftrightarrow> (\<exists>k n l. s' = s\<lparr>cons := k, mmio_n := n, mmio_log := l\<rparr>)"

lemma cframeI: "s' = s\<lparr>cons := k, mmio_n := n, mmio_log := l\<rparr> \<Longrightarrow> cframe s s'"
  unfolding cframe_def by blast

lemma cframe_cons: "mframe (s\<lparr>cons := k\<rparr>) s' \<Longrightarrow> cframe s s'" "mframe s t \<Longrightarrow> cframe s (t\<lparr>cons := k\<rparr>)"
proof -
  show "cframe s s'" if "mframe (s\<lparr>cons := k\<rparr>) s'"
  proof -
    from that obtain n l where "s' = s\<lparr>cons := k, mmio_n := n, mmio_log := l\<rparr>" unfolding mframe_def by blast
    then show ?thesis by (rule cframeI)
  qed
  show "cframe s (t\<lparr>cons := k\<rparr>)" if "mframe s t"
  proof -
    from that obtain n l where "t = s\<lparr>mmio_n := n, mmio_log := l\<rparr>" unfolding mframe_def by blast
    then have "t\<lparr>cons := k\<rparr> = s\<lparr>cons := k, mmio_n := n, mmio_log := l\<rparr>" by simp
    then show ?thesis by (rule cframeI)
  qed
qed

lemma cframe_refl: "cframe s s"
  unfolding cframe_def by (intro exI [of _ "cons s"] exI [of _ "mmio_n s"] exI [of _ "mmio_log s"]) simp

lemma cframe_trans: "cframe s t \<Longrightarrow> cframe t u \<Longrightarrow> cframe s u"
  unfolding cframe_def by fastforce

lemma mframe_cons: "mframe s t \<Longrightarrow> cons t = cons s"
  by (auto simp: mframe_def)

definition cons_view :: "console \<Rightarrow> uint8 list \<times> uint8 list" where
  "cons_view k = (cons_done k, cons_line k)"

lemma rev_dropWhile_rev: "l \<noteq> [] \<Longrightarrow> rev (dropWhile P (rev l)) = (if P (last l) then rev (dropWhile P (rev (butlast l))) else l)"
  by (cases l rule: rev_cases) simp_all

lemma kill_line_ok:
  assumes "cons_wf (cons t)" and "tx_ready t" and "length (cons_line (cons t)) \<le> fuel"
  shows "\<exists>t'. kill_line fuel t = Ok ((), t') \<and> cframe t t' \<and> tx_ready t' \<and> cons_wf (cons t') \<and>
    cons_view (cons t') = (cons_done (cons t), rev (dropWhile (\<lambda>b. b \<noteq> newline) (rev (cons_line (cons t)))))"
  using assms
proof (induction fuel arbitrary: t)
  case 0
  then show ?case by (intro exI [of _ t]) (simp add: cframe_refl cons_view_def)
next
  case (Suc fuel)
  let ?k = "cons t"
  have e: "cons_e ?k = cons_w ?k \<Longrightarrow> cons_line ?k = []" by (simp add: cons_line_def ring_contents_def)
  show ?case
  proof (cases "cons_e ?k \<noteq> cons_w ?k \<and> cons_buf ?k ! (unat (cons_e ?k - 1) mod INPUT_BUF) \<noteq> newline")
    case True
    let ?k1 = "?k\<lparr>cons_e := cons_e ?k - 1\<rparr>"
    note b = cons_back [OF Suc.prems(1) conjunct1 [OF True]]
    obtain t1 where t1: "consputc BACKSPACE (t\<lparr>cons := ?k1\<rparr>) = Ok ((), t1)" "mframe (t\<lparr>cons := ?k1\<rparr>) t1" "tx_ready t1"
      using run_consputc [of "t\<lparr>cons := ?k1\<rparr>"] Suc.prems(2) by auto
    have k1: "cons t1 = ?k1" using mframe_cons [OF t1(2)] by simp
    have "\<exists>t'. kill_line fuel t1 = Ok ((), t') \<and> cframe t1 t' \<and> tx_ready t' \<and> cons_wf (cons t') \<and>
        cons_view (cons t') = (cons_done (cons t1), rev (dropWhile (\<lambda>b. b \<noteq> newline) (rev (cons_line (cons t1)))))"
      by (rule Suc.IH) (use b t1(3) k1 Suc.prems(3) in \<open>auto simp: Let_def\<close>)
    then obtain t' where t': "kill_line fuel t1 = Ok ((), t')" "cframe t1 t'" "tx_ready t'" "cons_wf (cons t')"
      "cons_view (cons t') = (cons_done ?k1, rev (dropWhile (\<lambda>b. b \<noteq> newline) (rev (cons_line ?k1))))" using k1 by auto
    have "kill_line (Suc fuel) t = Ok ((), t')" using True t1(1) t'(1) by (simp add: run_bnd run_sq upd_cons_def)
    moreover have "cons_view (cons t') = (cons_done ?k, rev (dropWhile (\<lambda>b. b \<noteq> newline) (rev (cons_line ?k))))"
      using t'(5) b True rev_dropWhile_rev [of "cons_line ?k" "\<lambda>b. b \<noteq> newline"] by (simp add: Let_def)
    ultimately show ?thesis using t'(3,4) cframe_trans [OF cframe_cons(1) [OF t1(2)] t'(2)] by blast
  next
    case False
    have "rev (dropWhile (\<lambda>b. b \<noteq> newline) (rev (cons_line ?k))) = cons_line ?k"
    proof (cases "cons_e ?k = cons_w ?k")
      case True
      then show ?thesis using e by simp
    next
      case ne: False
      with False cons_back(2) [OF Suc.prems(1) ne] show ?thesis
        using rev_dropWhile_rev [of "cons_line ?k" "\<lambda>b. b \<noteq> newline"] by auto
    qed
    moreover have "kill_line (Suc fuel) t = Ok ((), t)" using False by (auto simp: run_bnd)
    ultimately show ?thesis using Suc.prems(1,2) cframe_refl [of t] by (intro exI [of _ t]) (simp add: cons_view_def)
  qed
qed

lemma cons_commit:
  assumes "cons_wf k"
  shows "let k' = k\<lparr>cons_w := cons_e k\<rparr> in cons_wf k' \<and> cons_view k' = (cons_done k @ cons_line k, [])"
proof -
  have "cons_done (k\<lparr>cons_w := cons_e k\<rparr>) = cons_done k @ cons_line k" using cons_all(1) [OF assms] by (simp add: cons_done_def)
  moreover have "cons_line (k\<lparr>cons_w := cons_e k\<rparr>) = []" by (simp add: cons_line_def ring_contents_def)
  ultimately show ?thesis using assms by (simp add: Let_def cons_view_def cons_wf_def)
qed

text \<open>Leaving the critical section of the console, with or without a wakeup.\<close>

lemma console_release:
  assumes q: "quiet p s" and f: "cframe (lockd LkCons s) t"
  shows "\<exists>s'. release LkCons t = Ok ((), s') \<and> quiet p s' \<and> cons s' = cons t \<and> procs s' = procs s"
    and "\<exists>s'. sq (wakeup ChanConsole) (release LkCons) t = Ok ((), s') \<and> quiet p s' \<and> cons s' = cons t \<and>
      procs s' = wake_all ChanConsole (Some p) (procs s)"
proof -
  let ?r = "\<lambda>t. t\<lparr>cpus := cpus s, harts := harts s, locks := locks s\<rparr>"
  obtain k n l where t: "t = (lockd LkCons s)\<lparr>cons := k, mmio_n := n, mmio_log := l\<rparr>" using f unfolding cframe_def by blast
  have st: "settled t" using settled_lockd [OF quietD(1) [OF q], of LkCons] t by (simp add: settled_def this_cpu_def this_hart_def)
  then have w: "wakeup ChanConsole t = Ok ((), woken ChanConsole t)" by (rule run_wakeup) (use q t in \<open>auto simp: cur_def this_cpu_def\<close>)
  have "release LkCons t = Ok ((), ?r t)" by (rule run_release) (use q t in auto)
  moreover have "quiet p (?r t)" using q t by (simp add: quiet_def settled_def cur_def this_cpu_def this_hart_def)
  ultimately show "\<exists>s'. release LkCons t = Ok ((), s') \<and> quiet p s' \<and> cons s' = cons t \<and> procs s' = procs s"
    using t by (intro exI [of _ "?r t"]) simp
  have "release LkCons (woken ChanConsole t) = Ok ((), ?r (woken ChanConsole t))"
    by (rule run_release) (use q t in \<open>auto simp: woken_def\<close>)
  moreover have "quiet p (?r (woken ChanConsole t))" using q t by (simp add: quiet_def settled_def cur_def this_cpu_def this_hart_def woken_def)
  moreover have "cur t = Some p" using quietD(3) [OF q] t lockd_simps(3) [of LkCons s] by (simp add: cur_def this_cpu_def)
  then have "procs (woken ChanConsole t) = wake_all ChanConsole (Some p) (procs s)" using t by (simp add: woken_def)
  ultimately show "\<exists>s'. sq (wakeup ChanConsole) (release LkCons) t = Ok ((), s') \<and> quiet p s' \<and> cons s' = cons t \<and>
      procs s' = wake_all ChanConsole (Some p) (procs s)"
    using w by (intro exI [of _ "?r (woken ChanConsole t)"]) (simp add: run_sq woken_def)
qed

text \<open>The last case of \<open>consoleintr\<close>: a character that goes into the line.\<close>

lemma console_char:
  fixes c :: uint8
  assumes q: "quiet p s" and wf: "cons_wf (cons s)" and tx: "tx_ready s"
    and room: "length (cons_done (cons s)) + length (cons_line (cons s)) < INPUT_BUF"
  defines "u \<equiv> lockd LkCons s" and "full \<equiv> length (cons_done (cons s)) + length (cons_line (cons s)) + 1 = INPUT_BUF"
  defines "complete \<equiv> c = newline \<or> c = ctrl CHR ''D'' \<or> full"
  shows "\<exists>s'. sq (sq (consputc (Some c)) (
      sq (upd_cons (\<lambda>k. k\<lparr>cons_buf := (cons_buf k)[unat (cons_e k) mod INPUT_BUF := c], cons_e := cons_e k + 1\<rparr>)) (
      bnd (gets cons) (\<lambda>k.
      if c = newline \<or> c = ctrl CHR ''D'' \<or> cons_e k = cons_r k + of_nat INPUT_BUF
      then sq (upd_cons (\<lambda>k. k\<lparr>cons_w := cons_e k\<rparr>)) (wakeup ChanConsole) else ret ())))) (release LkCons) u = Ok ((), s') \<and>
    quiet p s' \<and> cons_wf (cons s') \<and> procs s' = (if complete then wake_all ChanConsole (Some p) (procs s) else procs s) \<and>
    cons_view (cons s') = (if complete then (cons_done (cons s) @ cons_line (cons s) @ [c], []) else (cons_done (cons s), cons_line (cons s) @ [c]))"
proof -
  let ?k = "(cons s)\<lparr>cons_buf := (cons_buf (cons s))[unat (cons_e (cons s)) mod INPUT_BUF := c], cons_e := cons_e (cons s) + 1\<rparr>"
  have k: "cons_wf ?k" "cons_done ?k = cons_done (cons s)" "cons_line ?k = cons_line (cons s) @ [c]" using cons_put [OF wf room, of c] by (simp_all add: Let_def)
  have "tx_ready u" using tx quietD(1) [OF q] unfolding u_def by (simp add: tx_ready_def tx_idle_def)
  then obtain t1 where t1: "consputc (Some c) u = Ok ((), t1)" "mframe u t1" using run_consputc by blast
  have c1: "cons t1 = cons s" using mframe_cons [OF t1(2)] by (simp add: u_def)
  have rw: "ring_wf INPUT_BUF (cons_buf ?k) (cons_r ?k) (cons_e ?k)" using k(1) by (simp only: cons_wf_def)
  have fl: "cons_e ?k = cons_r ?k + of_nat INPUT_BUF \<longleftrightarrow> full"
    unfolding inq.full_iff [OF rw] full_def using cons_all(1) [OF k(1)] k(2,3) by simp
  let ?t2 = "t1\<lparr>cons := ?k\<rparr>" and ?k3 = "?k\<lparr>cons_w := cons_e ?k\<rparr>"
  let ?t3 = "t1\<lparr>cons := ?k3\<rparr>"
  show ?thesis
  proof (cases complete)
    case True
    have "cframe (lockd LkCons s) ?t3" using cframe_cons(2) [OF t1(2)] unfolding u_def .
    from console_release(2) [OF q this] obtain s' where s': "sq (wakeup ChanConsole) (release LkCons) ?t3 = Ok ((), s')" "quiet p s'" "cons s' = ?k3"
      "procs s' = wake_all ChanConsole (Some p) (procs s)" by auto
    moreover have "cons_wf ?k3" "cons_view ?k3 = (cons_done ?k @ cons_line ?k, [])" using cons_commit [OF k(1)] by (simp_all add: Let_def)
    ultimately show ?thesis
      using True t1(1) c1 fl k(2,3) unfolding complete_def
      by (intro exI [of _ s']) (auto simp: run_sq run_bnd upd_cons_def)
  next
    case False
    have "cframe (lockd LkCons s) ?t2" using cframe_cons(2) [OF t1(2)] unfolding u_def .
    from console_release(1) [OF q this] obtain s' where s': "release LkCons ?t2 = Ok ((), s')" "quiet p s'" "cons s' = ?k" "procs s' = procs s" by auto
    with False t1(1) c1 fl k show ?thesis
      unfolding complete_def by (intro exI [of _ s']) (auto simp: run_sq run_bnd upd_cons_def cons_view_def)
  qed
qed

text \<open>
  C18. \<open>consoleintr\<close> implements the line editor \<open>edit\<close>, for every character but the one that prints the process
  list: a printable character goes to the end of the line, backspace removes the last character, control-U
  removes the line, and newline, control-D or a full buffer completes the line and wakes the readers. A character for
  which there is no room is dropped. Lines that are complete are not changed by editing.
\<close>

theorem consoleintr_edits:
  assumes q: "quiet p s" and wf: "cons_wf (cons s)" and tx: "tx_ready s" and c: "c \<noteq> ctrl CHR ''P''"
  shows "\<exists>s'. consoleintr c s = Ok ((), s') \<and> quiet p s' \<and> cons_wf (cons s') \<and> cons_view (cons s') = edit c (cons_view (cons s)) \<and>
    procs s' = (if cons_done (cons s') = cons_done (cons s) then procs s else wake_all ChanConsole (Some p) (procs s))"
proof -
  let ?u = "lockd LkCons s" and ?k = "cons s"
  have acq: "acquire LkCons s = Ok ((), ?u)" by (rule run_acquire) (use q in auto)
  have txu: "tx_ready ?u" using tx quietD(1) [OF q] by (simp add: tx_ready_def tx_idle_def)
  note fin = console_release(1) [OF q]
  consider (kill) "c = ctrl CHR ''U''" | (erase) "c \<noteq> ctrl CHR ''U''" "c = ctrl CHR ''H'' \<or> c = 0x7f"
    | (char) "c \<noteq> ctrl CHR ''U''" "\<not> (c = ctrl CHR ''H'' \<or> c = 0x7f)" by blast
  then show ?thesis
  proof cases
    case kill
    have "\<exists>t'. kill_line (unat (cons_e ?k - cons_w ?k)) ?u = Ok ((), t') \<and> cframe ?u t' \<and> tx_ready t' \<and> cons_wf (cons t') \<and>
        cons_view (cons t') = (cons_done (cons ?u), rev (dropWhile (\<lambda>b. b \<noteq> newline) (rev (cons_line (cons ?u)))))"
      by (rule kill_line_ok) (use wf txu in \<open>simp_all add: cons_line_def\<close>)
    then obtain t where t: "kill_line (unat (cons_e ?k - cons_w ?k)) ?u = Ok ((), t)" "cframe ?u t" "cons_wf (cons t)"
      "cons_view (cons t) = (cons_done ?k, rev (dropWhile (\<lambda>b. b \<noteq> newline) (rev (cons_line ?k))))" by auto
    from fin [OF t(2)] obtain s' where "release LkCons t = Ok ((), s')" "quiet p s'" "cons s' = cons t" "procs s' = procs s" by blast
    then show ?thesis
      using kill c acq t by (intro exI [of _ s']) (simp add: consoleintr_def run_sq run_bnd edit_def cons_view_def)
  next
    case erase
    show ?thesis
    proof (cases "cons_e ?k = cons_w ?k")
      case True
      then have l: "cons_line ?k = []" by (simp add: cons_line_def ring_contents_def)
      from fin [OF cframe_refl] obtain s' where "release LkCons ?u = Ok ((), s')" "quiet p s'" "cons s' = cons ?u" "procs s' = procs s" by blast
      then show ?thesis
        using erase c acq True l wf by (intro exI [of _ s']) (auto simp: consoleintr_def run_sq run_bnd edit_def cons_view_def)
    next
      case False
      let ?k1 = "?k\<lparr>cons_e := cons_e ?k - 1\<rparr>"
      note b = cons_back(1) [OF wf False]
      obtain t where t: "consputc BACKSPACE (?u\<lparr>cons := ?k1\<rparr>) = Ok ((), t)" "mframe (?u\<lparr>cons := ?k1\<rparr>) t"
        using run_consputc [of "?u\<lparr>cons := ?k1\<rparr>"] txu by auto
      from fin [OF cframe_cons(1) [OF t(2)]] mframe_cons [OF t(2)]
      obtain s' where "release LkCons t = Ok ((), s')" "quiet p s'" "cons s' = ?k1" "procs s' = procs s" by auto
      then show ?thesis
        using erase c acq False t(1) b by (intro exI [of _ s']) (auto simp: consoleintr_def run_sq run_bnd upd_cons_def edit_def cons_view_def Let_def)
    qed
  next
    case char
    have rm: "cons_e ?k - cons_r ?k < of_nat INPUT_BUF \<longleftrightarrow> length (cons_done ?k) + length (cons_line ?k) < INPUT_BUF"
      using cons_all(2) [OF wf] by (simp add: word_less_nat_alt INPUT_BUF_def)
    show ?thesis
    proof (cases "c \<noteq> 0 \<and> length (cons_done ?k) + length (cons_line ?k) < INPUT_BUF")
      case True
      let ?c = "if c = 13 then newline else c"
      from console_char [OF q wf tx conjunct2 [OF True], of ?c]
      show ?thesis
      proof (elim exE conjE, goal_cases)
        case (1 s')
        have "consoleintr c s = Ok ((), s')"
          using 1(1) char c acq True rm by (simp add: consoleintr_def run_sq run_bnd Let_def)
        then show ?case using 1(2-5) char True
          by (intro exI [of _ s']) (auto simp: edit_def cons_view_def Let_def split: if_splits)
      qed
    next
      case False
      from fin [OF cframe_refl] obtain s' where "release LkCons ?u = Ok ((), s')" "quiet p s'" "cons s' = cons ?u" "procs s' = procs s" by blast
      then show ?thesis
        using char c acq False rm wf by (intro exI [of _ s']) (auto simp: consoleintr_def run_sq run_bnd edit_def cons_view_def)
    qed
  qed
qed

section \<open>Runs\<close>

text \<open>A device that is always idle.\<close>

lemma demo_idle: "tx_ready (demo_devs (\<lambda>_ _. 0x20))" "tx_idle (demo_devs (\<lambda>_ _. 0x20))"
  using quietD(1) [OF demo_devs(1)] by (simp_all add: tx_ready_def tx_idle_def demo_devs LSR_TX_IDLE_def)


theorem consoleintr_edits_witness:
  "\<exists>s'. consoleintr 97 (demo_devs (\<lambda>_ _. 0x20)) = Ok ((), s') \<and> cons_line (cons s') = [97]"
proof -
  let ?s = "demo_devs (\<lambda>_ _. 0x20)"
  have "cons_wf (cons ?s)" "cons_view (cons ?s) = ([], [])"
    by (simp_all add: cons_wf_def ring_wf_def cons_view_def cons_done_def cons_line_def ring_contents_def demo_devs)
  with consoleintr_edits [OF demo_devs(1) this(1) demo_idle(1), of 97] show ?thesis
    by (auto simp: edit_def ctrl_def newline_def INPUT_BUF_def cons_view_def Let_def)
qed

end
