(* ===== verification/Printing.thy ===== *)
theory Printing
  imports Serial
begin

text \<open>
  Properties of the kernel's \<open>printf\<close>: the digits that \<open>printint\<close> sends are the number in its base, fit in the
  buffer of the C function, and can be read back.
\<close>

section \<open>Digits\<close>

definition digit_value :: "uint8 \<Rightarrow> nat" where
  "digit_value c = (if c < 97 then unat c - 48 else unat c - 87)"

text \<open>Reading a number, most significant digit first; a leading minus sign negates it.\<close>

definition digits_value :: "nat \<Rightarrow> uint8 list \<Rightarrow> nat" where
  "digits_value base ds = foldl (\<lambda>v c. v * base + digit_value c) 0 ds"

definition read_int :: "nat \<Rightarrow> uint8 list \<Rightarrow> int" where
  "read_int base bs = (case bs of [] \<Rightarrow> 0
     | c # cs \<Rightarrow> if c = of_char (CHR ''-'') then - int (digits_value base cs) else int (digits_value base bs))"

lemma digit_value: "n < 16 \<Longrightarrow> digit_value (digits ! n) = n" "n < 16 \<Longrightarrow> digits ! n \<noteq> of_char (CHR ''-'')"
proof -
  have v: "map digit_value digits = [0..<16]" and m: "of_char (CHR ''-'') \<notin> set digits" by code_simp+
  from arg_cong [OF v, of length] have l: "length digits = 16" by simp
  assume n: "n < 16"
  from arg_cong [OF v, of "\<lambda>xs. xs ! n"] n l show "digit_value (digits ! n) = n" by simp
  from m n l show "digits ! n \<noteq> of_char (CHR ''-'')" by (metis nth_mem)
qed

lemma digit_list_value:
  assumes "2 \<le> unat base" and "unat base \<le> 16"
  shows "digits_value (unat base) (rev (digit_list base x)) = unat x"
  using assms
proof (induction base x rule: digit_list.induct)
  case (1 base x)
  have b: "\<not> base \<le> 1" using 1(2) by (simp add: word_le_nat_alt)
  have "unat x mod unat base < unat base" using 1(2) by simp
  then have d: "digit_value (digits ! unat (x mod base)) = unat x mod unat base"
    using 1(3) digit_value(1) [of "unat x mod unat base"] by (simp add: unat_mod)
  show ?case
  proof (cases "x div base = 0")
    case True
    then have "unat x div unat base = 0" by (metis unat_0 unat_div)
    then have "unat x mod unat base = unat x" using 1(2) by (simp add: div_eq_0_iff)
    with True b d show ?thesis by (subst digit_list.simps) (simp add: digits_value_def)
  next
    case False
    from 1(1) [OF b False 1(2,3)] have "digits_value (unat base) (rev (digit_list base (x div base))) = unat x div unat base" by (simp add: unat_div)
    with False b d show ?thesis by (subst digit_list.simps) (simp add: digits_value_def)
  qed
qed

lemma digit_list_length:
  "10 \<le> unat base \<Longrightarrow> unat x < 10 ^ Suc k \<Longrightarrow> length (digit_list base x) \<le> Suc k"
proof (induction base x arbitrary: k rule: digit_list.induct)
  case (1 base x)
  have b: "\<not> base \<le> 1" using 1(2) by (simp add: word_le_nat_alt)
  show ?case
  proof (cases "x div base = 0")
    case True
    then show ?thesis by (subst digit_list.simps) simp
  next
    case False
    have "unat (x div base) \<noteq> 0" using False by (simp add: unat_eq_zero)
    then have nz: "0 < unat x div unat base" by (simp add: unat_div)
    have le: "unat x div unat base \<le> unat x div 10" using 1(2) by (simp add: div_le_mono2)
    have "k \<noteq> 0" using le nz 1(3) by (cases k) auto
    then obtain k' where k: "k = Suc k'" by (cases k) auto
    have "unat x div 10 < 10 ^ k" using 1(3) by (simp add: less_mult_imp_div_less)
    with le have "unat (x div base) < 10 ^ Suc k'" using k by (simp add: unat_div)
    from 1(1) [OF b False 1(2) this] k show ?thesis by (subst digit_list.simps) simp
  qed
qed

lemma digit_list_digits: "unat base \<le> 16 \<Longrightarrow> c \<in> set (digit_list base x) \<Longrightarrow> c \<noteq> of_char (CHR ''-'')"
proof (induction base x rule: digit_list.induct)
  case (1 base x)
  then have b: "\<not> base \<le> 1" by (subst (asm) (2) digit_list.simps) (auto split: if_splits)
  then have "unat x mod unat base < unat base" by (simp add: word_le_nat_alt)
  then have "digits ! unat (x mod base) \<noteq> of_char (CHR ''-'')" using 1(2) digit_value(2) [of "unat x mod unat base"] by (simp add: unat_mod)
  with 1 b show ?case by (subst (asm) (2) digit_list.simps) (auto split: if_splits)
qed

lemma digit_list_nonempty: "1 < unat base \<Longrightarrow> digit_list base x \<noteq> []"
  by (subst digit_list.simps) (simp add: word_le_nat_alt)

lemma sint_uint32: "sint (x :: uint32) = (if uint x < 2 ^ 31 then uint x else uint x - 2 ^ 32)"
proof -
  have "sint x = signed_take_bit 31 (uint x)" by (simp add: sint_uint)
  also have "\<dots> = (uint x + 2 ^ 31) mod 2 ^ 32 - 2 ^ 31" by (simp add: signed_take_bit_eq_take_bit_shift take_bit_eq_mod)
  finally have e: "sint x = (uint x + 2 ^ 31) mod 2 ^ 32 - 2 ^ 31" .
  have l: "uint x < 2 ^ 32" "0 \<le> uint x" using uint_bounded [of x] uint_nonnegative [of x] by simp_all
  show ?thesis
  proof (cases "uint x < 2 ^ 31")
    case True
    then have "(uint x + 2 ^ 31) mod 2 ^ 32 = uint x + 2 ^ 31" using l by (intro mod_pos_pos_trivial) simp_all
    with e True show ?thesis by simp
  next
    case False
    have "(uint x + 2 ^ 31) mod 2 ^ 32 = (uint x + 2 ^ 31 - 2 ^ 32) mod 2 ^ 32" using minus_mod_self2 [of "uint x + 2 ^ 31" "2 ^ 32"] by simp
    also have "\<dots> = uint x + 2 ^ 31 - 2 ^ 32" using l False by (intro mod_pos_pos_trivial) simp_all
    finally show ?thesis using e False by simp
  qed
qed

lemma unat_neg:
  fixes x :: uint32
  assumes "sint x < 0"
  shows "int (unat (- x)) = - sint x"
proof -
  have m: "sint x = uint x - 2 ^ 32" using assms sint_uint32 [of x] uint_nonnegative [of x] by (simp split: if_splits)
  have "uint x \<noteq> 0" using assms sint_uint32 [of x] by auto
  then have "uint (- x) = 2 ^ 32 - uint x"
    using uint_bounded [of x] by (simp add: uint_word_ariths zmod_zminus1_eq_if)
  with m show ?thesis by simp
qed

section \<open>Output\<close>

lemma run_putchars:
  "tx_ready s \<Longrightarrow> \<exists>s'. for_each bs (\<lambda>c. consputc (Some c)) s = Ok ((), s') \<and> tx_ready s' \<and> sent s' = sent s @ bs"
proof (induction bs arbitrary: s)
  case (Cons b bs)
  from run_uartputc_sync [OF Cons.prems, of b] obtain t where t: "uartputc_sync b s = Ok ((), t)" "tx_ready t" "sent t = sent s @ [b]" by blast
  with Cons.IH [OF t(2)] show ?case by (auto simp: run_sq consputc_def)
qed simp

text \<open>
  C30. \<open>printint\<close> in base 10 or 16 sends a text that reads back as its argument, as a signed number when \<open>sign\<close> is set
  (for every value, the smallest negative number included) and as an unsigned one otherwise. The text has
  at most 11 characters, so it fits in the 16 bytes of the C function's buffer.
\<close>

theorem printint_reads_back:
  assumes "tx_ready s" and base: "base = 10 \<or> base = 16"
  shows "\<exists>s' text. printint xx base sign s = Ok ((), s') \<and> sent s' = sent s @ text \<and>
    read_int (unat base) text = (if sign then sint xx else uint xx) \<and> 0 < length text \<and> length text \<le> 11"
proof -
  have b: "2 \<le> unat base" "unat base \<le> 16" "10 \<le> unat base" using base by auto
  have len: "0 < length (digit_list base x) \<and> length (digit_list base x) \<le> 10" for x
  proof -
    have "unat x < 10 ^ Suc 9" using unat_less_exp [of x] by simp
    with digit_list_length [OF b(3), of x 9] digit_list_nonempty [of base x] b(1) show ?thesis by simp
  qed
  have pos: "read_int (unat base) (rev (digit_list base x)) = uint x" for x
  proof -
    obtain c cs where cs: "rev (digit_list base x) = c # cs" using len [of x] by (cases "rev (digit_list base x)") auto
    then have "c \<in> set (digit_list base x)" by (metis list.set_intros(1) set_rev)
    then have "c \<noteq> of_char (CHR ''-'')" using digit_list_digits [OF b(2)] by blast
    then show ?thesis using digit_list_value [OF b(1,2), of x] cs by (simp add: read_int_def)
  qed
  have v: "read_int (unat base) (int_bytes xx base sign) = (if sign then sint xx else uint xx) \<and>
      0 < length (int_bytes xx base sign) \<and> length (int_bytes xx base sign) \<le> 11"
  proof (cases "sign \<and> sint xx < 0")
    case True
    then show ?thesis
      using digit_list_value [OF b(1,2), of "- xx"] unat_neg [of xx] len [of "- xx"]
      by (simp add: int_bytes_def Let_def read_int_def)
  next
    case False
    have "sign \<Longrightarrow> sint xx = uint xx" using False sint_uint32 [of xx] uint_bounded [of xx] by (simp split: if_splits)
    then show ?thesis using False pos [of xx] len [of xx] by (auto simp: int_bytes_def Let_def)
  qed
  from run_putchars [OF assms(1), of "int_bytes xx base sign"] show ?thesis
  proof (elim exE conjE, goal_cases)
    case (1 s')
    then show ?case using v by (intro exI [of _ s'] exI [of _ "int_bytes xx base sign"]) (simp add: printint_def)
  qed
qed

theorem printint_reads_back_witness:
  "\<exists>s' text. printint 0x80000000 10 True (demo_devs (\<lambda>_ _. 0x20)) = Ok ((), s') \<and> sent s' = text \<and> read_int 10 text = -2147483648"
  using printint_reads_back [OF demo_idle(1), of 10 "0x80000000" True] by (auto simp: sent_def demo_devs)

end
