(* ===== verification/Path.thy ===== *)
theory Path
  imports Fs
begin

text \<open>
  Path names: \<open>skipelem\<close>, called again and again as \<open>namex\<close> does, takes a path apart into its elements between
  slashes.
\<close>

section \<open>Elements\<close>

text \<open>The elements of a path: the maximal runs of characters other than a slash.\<close>

fun splits :: "uint8 list \<Rightarrow> uint8 list list" where
  "splits [] = [[]]"
| "splits (c # cs) = (if c = slash then [] # splits cs else (c # hd (splits cs)) # tl (splits cs))"

definition path_elems :: "uint8 list \<Rightarrow> uint8 list list" where
  "path_elems path = filter (\<lambda>e. e \<noteq> []) (splits path)"

text \<open>What a sequence of calls of \<open>skipelem\<close> leaves in \<open>name\<close>, each read up to the terminator.\<close>

function skipelems :: "uint8 list \<Rightarrow> uint8 list \<Rightarrow> uint8 list list" where
  "skipelems path name = (case skipelem path name of None \<Rightarrow> []
     | Some (rest, name') \<Rightarrow> cstr (cptr_of name') DIRSIZ # skipelems rest name')"
  by pat_completeness auto
termination
  by (relation "measure (\<lambda>(path, name). length path)") (auto simp: skipelem_shorter)

declare skipelems.simps [simp del]

lemma splits_nonempty: "splits path \<noteq> []"
  by (cases path) simp_all

lemma path_elems_slash: "path_elems (slash # path) = path_elems path"
  by (simp add: path_elems_def)

lemma path_elems_slashes: "path_elems (dropWhile (\<lambda>c. c = slash) path) = path_elems path"
  by (induction path) (auto simp: path_elems_slash)

lemma splits_takeWhile: "hd (splits s) = takeWhile (\<lambda>c. c \<noteq> slash) s"
  by (induction s) auto

lemma splits_rest: "filter (\<lambda>e. e \<noteq> []) (tl (splits s)) = path_elems (dropWhile (\<lambda>c. c \<noteq> slash) s)"
  by (induction s) (auto simp: path_elems_def)

lemma path_elems_first:
  assumes "s \<noteq> []" and "hd s \<noteq> slash"
  shows "path_elems s = takeWhile (\<lambda>c. c \<noteq> slash) s # path_elems (dropWhile (\<lambda>c. c \<noteq> slash) s)"
proof -
  let ?e = "takeWhile (\<lambda>c. c \<noteq> slash) s"
  have "splits s = ?e # tl (splits s)" using splits_nonempty [of s] splits_takeWhile [of s] by (cases "splits s") simp_all
  then have "path_elems s = filter (\<lambda>e. e \<noteq> []) (?e # tl (splits s))" unfolding path_elems_def by (rule arg_cong)
  also have "\<dots> = ?e # filter (\<lambda>e. e \<noteq> []) (tl (splits s))" using assms by (cases s) auto
  finally show ?thesis by (simp only: splits_rest)
qed

lemma cstr_short:
  "length e < n \<Longrightarrow> 0 \<notin> set e \<Longrightarrow> (\<And>i. i < length e \<Longrightarrow> p i = e ! i) \<Longrightarrow> p (length e) = 0 \<Longrightarrow> cstr p n = e"
proof (induction n arbitrary: p e)
  case (Suc n)
  show ?case
  proof (cases e)
    case Nil
    then show ?thesis using Suc.prems(4) by simp
  next
    case (Cons c cs)
    have "cstr (\<lambda>i. p (Suc i)) n = cs"
      by (rule Suc.IH) (use Suc.prems Cons in \<open>auto dest: Suc.prems(3) [of "Suc _"]\<close>)
    moreover have "p 0 = c" "c \<noteq> 0" using Suc.prems(2) Suc.prems(3) [of 0] Cons by auto
    ultimately show ?thesis using Cons by simp
  qed
qed simp

lemma cstr_full: "0 \<notin> set e \<Longrightarrow> length e = n \<Longrightarrow> (\<And>i. i < n \<Longrightarrow> p i = e ! i) \<Longrightarrow> cstr p n = e"
proof (induction n arbitrary: p e)
  case (Suc n)
  then obtain c cs where e: "e = c # cs" by (cases e) auto
  have "cstr (\<lambda>i. p (Suc i)) n = cs"
    by (rule Suc.IH) (use Suc.prems e in \<open>auto dest: Suc.prems(3) [of "Suc _"]\<close>)
  moreover have "p 0 = c" "c \<noteq> 0" using Suc.prems(1) Suc.prems(3) [of 0] e by auto
  ultimately show ?case using e by simp
qed simp

text \<open>The contents of \<open>name\<close> after a call, for an array of \<open>DIRSIZ\<close> bytes.\<close>

lemma skipelem_name:
  assumes "length name = DIRSIZ" and "0 \<notin> set e"
  defines "name' \<equiv> (if length e \<ge> DIRSIZ then take DIRSIZ e else patch 0 (e @ [0]) name)"
  shows "length name' = DIRSIZ" "cstr (cptr_of name') DIRSIZ = take DIRSIZ e"
proof -
  show l: "length name' = DIRSIZ" using assms by (auto simp: patch_def)
  show "cstr (cptr_of name') DIRSIZ = take DIRSIZ e"
  proof (cases "length e \<ge> DIRSIZ")
    case True
    then show ?thesis
      by (intro cstr_full) (use assms(2) in \<open>auto simp: name'_def cptr_of_def dest: in_set_takeD\<close>)
  next
    case False
    then have "cstr (cptr_of name') DIRSIZ = e"
      by (intro cstr_short) (use assms in \<open>auto simp: name'_def cptr_of_def patch_def nth_append\<close>)
    with False show ?thesis by simp
  qed
qed

text \<open>
  C28. Calling \<open>skipelem\<close> until it returns 0 gives exactly the elements of the path in order, each cut to
  \<open>DIRSIZ\<close> characters, however many slashes there are between, before and after them. The calls come to an end.
\<close>

theorem skipelem_splits_path:
  assumes "length name = DIRSIZ" and "0 \<notin> set path"
  shows "skipelems path name = map (take DIRSIZ) (path_elems path)"
  using assms
proof (induction path name rule: skipelems.induct)
  case (1 path name)
  let ?s = "dropWhile (\<lambda>c. c = slash) path"
  let ?e = "takeWhile (\<lambda>c. c \<noteq> slash) ?s" and ?t = "dropWhile (\<lambda>c. c \<noteq> slash) ?s"
  show ?case
  proof (cases "?s = []")
    case True
    then have "skipelem path name = None" by (simp add: skipelem_def)
    moreover have "path_elems path = []" using path_elems_slashes [of path] True by (simp add: path_elems_def)
    ultimately show ?thesis by (subst skipelems.simps) simp
  next
    case False
    define name' where "name' = (if length ?e \<ge> DIRSIZ then take DIRSIZ ?e else patch 0 (?e @ [0]) name)"
    let ?r = "dropWhile (\<lambda>c. c = slash) ?t"
    have sk: "skipelem path name = Some (?r, name')" using False by (simp add: skipelem_def Let_def name'_def)
    have z: "0 \<notin> set ?e" "0 \<notin> set ?r"
      using 1(3) by (meson set_dropWhileD set_takeWhileD)+
    note n = skipelem_name [OF 1(2) z(1), folded name'_def]
    have "hd ?s \<noteq> slash" using hd_dropWhile [of "\<lambda>c. c = slash" path] False by auto
    then have "path_elems path = ?e # path_elems ?r"
      using path_elems_first [OF False] path_elems_slashes [of path] path_elems_slashes [of ?t] by simp
    with 1(1) [OF sk refl n(1) z(2)] sk n(2) show ?thesis by (subst skipelems.simps) simp
  qed
qed

theorem skipelem_splits_path_witness:
  "skipelems [47, 97, 47, 47, 98, 99, 47] (replicate DIRSIZ 1) = [[97], [98, 99]]"
  using skipelem_splits_path [of "replicate DIRSIZ 1" "[47, 97, 47, 47, 98, 99, 47]"] by (simp add: path_elems_def slash_def DIRSIZ_def)

end
