(* ===== verification/Fair.thy ===== *)
theory Fair
  imports Quiet
begin

text \<open>
  The scheduler gives every runnable process a turn. What a process does between the switch to it and the switch
  back is the argument \<open>run\<close> of \<open>scheduler_pass\<close>; \<open>switches run\<close> says what the scheduler relies on: the
  process comes back holding its own lock and no other, on the same hart, and has not taken another process off the
  run queue. The extension of the state is the list of processes that were switched to.
\<close>

section \<open>Turns\<close>

type_synonym traced = "nat list tasks_scheme"

text \<open>The scheduler has picked process \<open>p\<close>, and holds its lock.\<close>

definition picked :: "nat \<Rightarrow> traced \<Rightarrow> bool" where
  "picked p t \<longleftrightarrow> c_proc (this_cpu t) = Some p \<and> noff (this_cpu t) = 1 \<and> \<not> intr_get (this_hart t) \<and>
     locks t = (\<lambda>_. free_lock)(LkProc p := \<lparr>locked = True, lk_cpu = Some (hart t)\<rparr>) \<and> state (procs t p) = RUNNING"

definition switches :: "(traced, unit) kmonad \<Rightarrow> bool" where
  "switches run \<longleftrightarrow> (\<forall>p t. p < NPROC \<longrightarrow> picked p t \<longrightarrow> (\<exists>t'. run t = Ok ((), t') \<and>
     hart t' = hart t \<and> locks t' = locks t \<and> noff (this_cpu t') = 1 \<and> \<not> intr_get (this_hart t') \<and>
     tasks.more t' = tasks.more t @ [p] \<and> (\<forall>q. q \<noteq> p \<longrightarrow> state (procs t q) = RUNNABLE \<longrightarrow> state (procs t' q) = RUNNABLE)))"

text \<open>Between two turns the scheduler holds no lock and no process is current.\<close>

definition between :: "traced \<Rightarrow> bool" where
  "between t \<longleftrightarrow> noff (this_cpu t) = 0 \<and> locks t = (\<lambda>_. free_lock) \<and> c_proc (this_cpu t) = None"

lemma run_release_outer:
  assumes "locks t lk = \<lparr>locked = True, lk_cpu = Some (hart t)\<rparr>" and "noff (this_cpu t) = 1" and "\<not> intr_get (this_hart t)"
  shows "\<exists>t'. release lk t = Ok ((), t') \<and> hart t' = hart t \<and> locks t' = (locks t)(lk := free_lock) \<and> noff (this_cpu t') = 0 \<and>
    c_proc (this_cpu t') = c_proc (this_cpu t) \<and> procs t' = procs t \<and> tasks.more t' = tasks.more t"
proof -
  let ?u = "t\<lparr>locks := (locks t)(lk := free_lock)\<rparr>"
  have "release lk t = pop_off ?u"
    using assms(1) by (simp add: release_def release_enter_def lock_release_def holding_def upd_lock_def run_sq run_bnd free_lock_def)
  also have "\<dots> = Ok ((), set_cpu ((this_cpu ?u)\<lparr>noff := noff (this_cpu ?u) - 1\<rparr>)
     (if noff (this_cpu ?u) = 1 \<and> intena (this_cpu ?u) then set_hart (intr_on (this_hart ?u)) ?u else ?u))"
    by (rule run_pop_off) (use assms(2,3) in \<open>simp_all add: this_cpu_def this_hart_def\<close>)
  finally show ?thesis using assms(2) by (auto simp: set_cpu_def set_hart_def this_cpu_def)
qed

lemma turn_ok:
  assumes r: "switches run" and p: "p < NPROC" and b: "between t"
  shows "\<exists>t'. bnd (scheduler_pick p) (\<lambda>switched. sq (if switched then run else ret ()) (scheduler_back p switched)) t = Ok ((), t') \<and>
    between t' \<and> tasks.more t' = tasks.more t @ (if state (procs t p) = RUNNABLE then [p] else []) \<and>
    (\<forall>q. q \<noteq> p \<longrightarrow> state (procs t q) = RUNNABLE \<longrightarrow> state (procs t' q) = RUNNABLE)"
proof -
  let ?u = "lockd (LkProc p) t" and ?l = "\<lparr>locked = True, lk_cpu = Some (hart t)\<rparr>"
  have l: "locks t = (\<lambda>_. free_lock)" using b by (simp add: between_def)
  have acq: "acquire (LkProc p) t = Ok ((), ?u)" by (rule run_acquire) (simp add: l)
  have u: "noff (this_cpu ?u) = 1" "\<not> intr_get (this_hart ?u)" "locks ?u = (\<lambda>_. free_lock)(LkProc p := ?l)" "c_proc (this_cpu ?u) = None"
    "tasks.more ?u = tasks.more t" "procs ?u = procs t" "hart ?u = hart t"
    using b l by (simp_all add: between_def lockd_def this_cpu_def this_hart_def pushed_def)
  show ?thesis
  proof (cases "state (procs t p) = RUNNABLE")
    case True
    let ?v = "?u\<lparr>procs := (procs t)(p := (procs t p)\<lparr>state := RUNNING\<rparr>), cpus := (cpus ?u)(hart t := (cpus ?u (hart t))\<lparr>c_proc := Some p\<rparr>)\<rparr>"
    have "picked p ?v" using u by (simp add: picked_def this_cpu_def this_hart_def)
    then obtain w where w: "run ?v = Ok ((), w)" "hart w = hart t" "locks w = locks ?v" "noff (this_cpu w) = 1" "\<not> intr_get (this_hart w)"
      "tasks.more w = tasks.more t @ [p]" "\<And>q. q \<noteq> p \<Longrightarrow> state (procs ?v q) = RUNNABLE \<Longrightarrow> state (procs w q) = RUNNABLE"
      using r p u unfolding switches_def by fastforce
    let ?x = "w\<lparr>cpus := (cpus w)(hart w := (cpus w (hart w))\<lparr>c_proc := None\<rparr>)\<rparr>"
    have "\<exists>t'. release (LkProc p) ?x = Ok ((), t') \<and> hart t' = hart ?x \<and> locks t' = (locks ?x)(LkProc p := free_lock) \<and> noff (this_cpu t') = 0 \<and>
        c_proc (this_cpu t') = c_proc (this_cpu ?x) \<and> procs t' = procs ?x \<and> tasks.more t' = tasks.more ?x"
      by (rule run_release_outer) (use w u in \<open>simp_all add: this_cpu_def this_hart_def\<close>)
    then obtain t' where t': "release (LkProc p) ?x = Ok ((), t')" "locks t' = (locks w)(LkProc p := free_lock)" "noff (this_cpu t') = 0"
      "c_proc (this_cpu t') = None" "procs t' = procs w" "tasks.more t' = tasks.more w" by (auto simp: this_cpu_def)
    have "bnd (scheduler_pick p) (\<lambda>switched. sq (if switched then run else ret ()) (scheduler_back p switched)) t = Ok ((), t')"
      using True acq u(6,7) w(1) t'(1)
      by (simp add: scheduler_pick_def scheduler_back_def run_sq run_bnd get_proc_def upd_proc_def upd_cpu_def)
    moreover have "between t'" using t' w(3) u(3) by (simp add: between_def fun_eq_iff)
    ultimately show ?thesis using True t'(5,6) w(6,7) by (intro exI [of _ t']) simp
  next
    case False
    have "\<exists>t'. release (LkProc p) ?u = Ok ((), t') \<and> hart t' = hart ?u \<and> locks t' = (locks ?u)(LkProc p := free_lock) \<and> noff (this_cpu t') = 0 \<and>
        c_proc (this_cpu t') = c_proc (this_cpu ?u) \<and> procs t' = procs ?u \<and> tasks.more t' = tasks.more ?u"
      by (rule run_release_outer) (use u in simp_all)
    then obtain t' where t': "release (LkProc p) ?u = Ok ((), t')" "locks t' = (locks ?u)(LkProc p := free_lock)" "noff (this_cpu t') = 0"
      "c_proc (this_cpu t') = None" "procs t' = procs t" "tasks.more t' = tasks.more t" using u by auto
    have "bnd (scheduler_pick p) (\<lambda>switched. sq (if switched then run else ret ()) (scheduler_back p switched)) t = Ok ((), t')"
      using False acq u(6) t'(1) by (simp add: scheduler_pick_def scheduler_back_def run_sq run_bnd get_proc_def)
    moreover have "between t'" using t' u(3) by (simp add: between_def fun_eq_iff)
    ultimately show ?thesis using False t'(5,6) by (intro exI [of _ t']) simp
  qed
qed

text \<open>
  C10. In one pass of the scheduler's loop every process that is runnable at the start of the pass is switched to, and
  the pass comes to an end, for all behaviours of the processes that satisfy \<open>switches\<close>: no runnable process
  starves.
\<close>

theorem scheduler_pass_runs_all:
  assumes r: "switches run" and b: "between s"
  shows "\<exists>s' turns. scheduler_pass run s = Ok ((), s') \<and> between s' \<and> tasks.more s' = tasks.more s @ turns \<and> sorted turns \<and> distinct turns \<and>
    {p. p < NPROC \<and> state (procs s p) = RUNNABLE} \<subseteq> set turns"
proof -
  let ?s = "s\<lparr>harts := (harts s)(hart s := intr_on (harts s (hart s)))\<rparr>"
  let ?I = "\<lambda>i t. between t \<and> (\<exists>turns. tasks.more t = tasks.more s @ turns \<and> sorted turns \<and> distinct turns \<and> set turns \<subseteq> {..<i} \<and>
     (\<forall>p. state (procs s p) = RUNNABLE \<longrightarrow> (if p < i then p \<in> set turns else state (procs t p) = RUNNABLE)))"
  have "\<exists>s'. for_each [0..<NPROC] (\<lambda>p. bnd (scheduler_pick p) (\<lambda>switched. sq (if switched then run else ret ()) (scheduler_back p switched))) ?s =
      Ok ((), s') \<and> ?I NPROC s'"
  proof (rule for_each_upt)
    show "?I 0 ?s" using b by (simp add: between_def this_cpu_def)
  next
    fix i t assume i: "i < NPROC" and I: "?I i t"
    then obtain turns where o: "between t" "tasks.more t = tasks.more s @ turns" "sorted turns" "distinct turns" "set turns \<subseteq> {..<i}"
      "\<And>p. state (procs s p) = RUNNABLE \<Longrightarrow> (if p < i then p \<in> set turns else state (procs t p) = RUNNABLE)" by blast
    from turn_ok [OF r i o(1)] obtain t' where t':
      "bnd (scheduler_pick i) (\<lambda>switched. sq (if switched then run else ret ()) (scheduler_back i switched)) t = Ok ((), t')" "between t'"
      "tasks.more t' = tasks.more t @ (if state (procs t i) = RUNNABLE then [i] else [])"
      "\<And>q. q \<noteq> i \<Longrightarrow> state (procs t q) = RUNNABLE \<Longrightarrow> state (procs t' q) = RUNNABLE" by blast
    define ts where "ts = turns @ (if state (procs t i) = RUNNABLE then [i] else [])"
    have "sorted ts" "distinct ts" "set ts \<subseteq> {..<Suc i}" using o(3-5) by (auto simp: ts_def sorted_append less_imp_le)
    moreover have "tasks.more t' = tasks.more s @ ts" using t'(3) o(2) by (simp add: ts_def)
    moreover have "if p < Suc i then p \<in> set ts else state (procs t' p) = RUNNABLE" if "state (procs s p) = RUNNABLE" for p
      using o(6) [OF that] t'(4) [of p] by (cases "p = i") (auto simp: ts_def split: if_splits)
    ultimately have "?I (Suc i) t'" using t'(2) by blast
    with t'(1) show "\<exists>t'. bnd (scheduler_pick i) (\<lambda>switched. sq (if switched then run else ret ()) (scheduler_back i switched)) t = Ok ((), t') \<and> ?I (Suc i) t'"
      by blast
  qed
  then obtain s' where s': "for_each [0..<NPROC] (\<lambda>p. bnd (scheduler_pick p) (\<lambda>switched. sq (if switched then run else ret ()) (scheduler_back p switched))) ?s =
      Ok ((), s')" "?I NPROC s'" by blast
  then have "scheduler_pass run s = Ok ((), s')" by (simp add: scheduler_pass_def run_sq upd_hart_def)
  with s'(2) show ?thesis by (auto intro!: exI [of _ s'])
qed

section \<open>Processes that yield\<close>

text \<open>
  A process that the scheduler resumes in \<open>yield\<close>: it finishes \<open>sched\<close> and \<open>yield\<close>, runs (which the trace records), and
  calls \<open>yield\<close> again, up to the switch to the scheduler.
\<close>

definition yielding :: "(traced, unit) kmonad" where
  "yielding = bnd mycpu (\<lambda>c. case c_proc c of None \<Rightarrow> null_deref | Some p \<Rightarrow>
     sq (upd_cpu (\<lambda>c. c\<lparr>intena := True\<rparr>)) (
     sq (release (LkProc p)) (
     sq (modify (tasks.more_update (\<lambda>l. l @ [p]))) (
     sq (acquire (LkProc p)) (
     sq (upd_proc p (\<lambda>r. r\<lparr>state := RUNNABLE\<rparr>)) (
     bnd sched_out (\<lambda>_. ret ())))))))"

lemma yielding_switches: "switches yielding"
  unfolding switches_def
proof (intro allI impI)
  fix p and t :: traced assume p: "p < NPROC" and pk: "picked p t"
  let ?c = "(this_cpu t)\<lparr>intena := True\<rparr>"
  let ?t1 = "t\<lparr>cpus := (cpus t)(hart t := ?c)\<rparr>"
  let ?t2 = "t\<lparr>cpus := (cpus t)(hart t := ?c\<lparr>noff := 0\<rparr>), harts := (harts t)(hart t := intr_on (this_hart t)), locks := \<lambda>_. free_lock\<rparr>"
  let ?t3 = "tasks.more_update (\<lambda>l. l @ [p]) ?t2"
  let ?t4 = "lockd (LkProc p) ?t3"
  let ?t5 = "?t4\<lparr>procs := (procs t)(p := (procs t p)\<lparr>state := RUNNABLE\<rparr>)\<rparr>"
  have k: "c_proc (this_cpu t) = Some p" "noff (this_cpu t) = 1" "\<not> intr_get (this_hart t)"
    "locks t = (\<lambda>_. free_lock)(LkProc p := \<lparr>locked = True, lk_cpu = Some (hart t)\<rparr>)" using pk by (simp_all add: picked_def)
  have "release (LkProc p) ?t1 = pop_off (?t1\<lparr>locks := \<lambda>_. free_lock\<rparr>)"
    using k(4) by (simp add: release_def release_enter_def lock_release_def holding_def upd_lock_def run_sq run_bnd free_lock_def fun_upd_idem)
  also have "\<dots> = Ok ((), ?t2)"
    using run_pop_off [of "?t1\<lparr>locks := \<lambda>_. free_lock\<rparr>"] k(2,3) by (simp add: this_cpu_def this_hart_def set_cpu_def set_hart_def)
  finally have rel: "release (LkProc p) ?t1 = Ok ((), ?t2)" .
  have acq: "acquire (LkProc p) ?t3 = Ok ((), ?t4)" by (rule run_acquire) simp
  have s3: "settled ?t3" by (simp add: settled_def this_cpu_def this_hart_def)
  have s5: "settled ?t5" using settled_lockd [OF s3, of "LkProc p"] by simp
  have c5: "c_proc (this_cpu ?t5) = Some p" "noff (this_cpu ?t5) = 1" "\<not> intr_get (this_hart ?t5)" "hart ?t5 = hart t"
    "locks ?t5 = (\<lambda>_. free_lock)(LkProc p := \<lparr>locked = True, lk_cpu = Some (hart t)\<rparr>)" "tasks.more ?t5 = tasks.more t @ [p]"
    using k(1) by (simp_all add: lockd_def this_cpu_def this_hart_def pushed_def)
  have me: "this_proc ?t5 = Ok (p, ?t5)" by (rule run_this_proc [OF s5]) (simp add: cur_def c5)
  have so: "sched_out ?t5 = Ok (intena (this_cpu ?t5), ?t5)"
    using me c5 by (simp add: sched_out_def run_bnd holding_def mycpu_def get_proc_def get_hart_def flip: this_cpu_def this_hart_def)
  have "yielding t = Ok ((), ?t5)"
    using k(1) rel acq so by (simp add: yielding_def run_bnd run_sq mycpu_def upd_cpu_def upd_proc_def flip: this_cpu_def)
  then show "\<exists>t'. yielding t = Ok ((), t') \<and> hart t' = hart t \<and> locks t' = locks t \<and> noff (this_cpu t') = 1 \<and> \<not> intr_get (this_hart t') \<and>
      tasks.more t' = tasks.more t @ [p] \<and> (\<forall>q. q \<noteq> p \<longrightarrow> state (procs t q) = RUNNABLE \<longrightarrow> state (procs t' q) = RUNNABLE)"
    using c5 k(4) by (intro exI [of _ ?t5]) simp
qed

definition two_runnable :: traced where
  "two_runnable = (tasks.extend idle_tasks [])\<lparr>procs := (\<lambda>_. idle_proc)(3 := idle_proc\<lparr>state := RUNNABLE\<rparr>, 5 := idle_proc\<lparr>state := RUNNABLE\<rparr>)\<rparr>"

theorem scheduler_pass_runs_all_witness:
  "\<exists>s'. scheduler_pass yielding two_runnable = Ok ((), s') \<and> {3, 5} \<subseteq> set (tasks.more s')"
proof -
  have "between two_runnable" "tasks.more two_runnable = []"
    "{p. p < NPROC \<and> state (procs two_runnable p) = RUNNABLE} = {3, 5}"
    by (auto simp: two_runnable_def between_def idle_tasks_def tasks.defs this_cpu_def free_lock_def idle_proc_def NPROC_def)
  with scheduler_pass_runs_all [OF yielding_switches this(1)] show ?thesis by auto
qed

end
