(* ===== verification/Grep.thy ===== *)
theory Grep
  imports Fsdata
begin

text \<open>
  \<^verbatim>\<open>user/grep/grep.c\<close>: the pattern matcher and the loop that splits its input into lines. A C string is the list of its
  bytes before the terminator. The matcher decides the language of the pattern; the loop prints the
  matching lines of the whole input, in whatever pieces \<open>read\<close> delivers it.
\<close>

section \<open>The matcher\<close>

definition re_star :: uint8 where "re_star = of_char (CHR ''*'')"
definition re_dot :: uint8 where "re_dot = of_char (CHR ''.'')"
definition re_caret :: uint8 where "re_caret = of_char (CHR ''^'')"
definition re_dollar :: uint8 where "re_dollar = of_char (CHR ''$'')"

function matchhere :: "uint8 list \<Rightarrow> uint8 list \<Rightarrow> bool" and matchstar :: "uint8 \<Rightarrow> uint8 list \<Rightarrow> uint8 list \<Rightarrow> bool" where
  "matchhere re tx = (case re of [] \<Rightarrow> True
     | c # re1 \<Rightarrow>
         if re1 \<noteq> [] \<and> hd re1 = re_star then matchstar c (tl re1) tx
         else if c = re_dollar \<and> re1 = [] then tx = []
         else (case tx of [] \<Rightarrow> False | t # ts \<Rightarrow> if c = re_dot \<or> c = t then matchhere re1 ts else False))"
| "matchstar c re tx = (if matchhere re tx then True
     else (case tx of [] \<Rightarrow> False | t # ts \<Rightarrow> if t = c \<or> c = re_dot then matchstar c re ts else False))"
  by pat_completeness auto
termination
  by (relation "measures [case_sum (\<lambda>(re, tx). 2 * length re) (\<lambda>(c, re, tx). 2 * length re + 1),
      case_sum (\<lambda>(re, tx). length tx) (\<lambda>(c, re, tx). length tx)]") (auto simp: neq_Nil_conv)

declare matchhere.simps [simp del] matchstar.simps [simp del]

text \<open>The loop of \<open>match\<close> over the suffixes of the text.\<close>

fun match_from :: "uint8 list \<Rightarrow> uint8 list \<Rightarrow> bool" where
  "match_from re tx = (if matchhere re tx then True else (case tx of [] \<Rightarrow> False | t # ts \<Rightarrow> match_from re ts))"

declare match_from.simps [simp del]

definition match :: "uint8 list \<Rightarrow> uint8 list \<Rightarrow> bool" where
  "match re tx = (case re of [] \<Rightarrow> match_from re tx | c # re1 \<Rightarrow> if c = re_caret then matchhere re1 tx else match_from re tx)"

section \<open>The language of a pattern\<close>

datatype item = One uint8 | Star uint8

text \<open>The items of a pattern, and whether it ends with \<^verbatim>\<open>$\<close>.\<close>

fun parse_re :: "uint8 list \<Rightarrow> item list \<times> bool" where
  "parse_re [] = ([], False)"
| "parse_re [c] = (if c = re_dollar then ([], True) else ([One c], False))"
| "parse_re (c # d # re) = (if d = re_star then map_prod (Cons (Star c)) id (parse_re re) else map_prod (Cons (One c)) id (parse_re (d # re)))"

definition fits :: "uint8 \<Rightarrow> uint8 \<Rightarrow> bool" where
  "fits c t \<longleftrightarrow> c = re_dot \<or> c = t"

primrec matches :: "item list \<Rightarrow> uint8 list \<Rightarrow> bool" where
  "matches [] u \<longleftrightarrow> u = []"
| "matches (i # is) u \<longleftrightarrow> (case i of
     One c \<Rightarrow> (\<exists>t v. u = t # v \<and> fits c t \<and> matches is v)
   | Star c \<Rightarrow> (\<exists>v w. u = v @ w \<and> (\<forall>t \<in> set v. fits c t) \<and> matches is w))"

definition found_at :: "item list \<times> bool \<Rightarrow> uint8 list \<Rightarrow> bool" where
  "found_at p tx \<longleftrightarrow> (\<exists>u v. tx = u @ v \<and> matches (fst p) u \<and> (snd p \<longrightarrow> v = []))"

lemma split_Cons: "(\<exists>v w. t # ts = v @ w \<and> P v w) \<longleftrightarrow> P [] (t # ts) \<or> (\<exists>v w. ts = v @ w \<and> P (t # v) w)"
  by (auto simp: Cons_eq_append_conv)

lemma matchstar_iff: "matchstar c re tx \<longleftrightarrow> (\<exists>v w. tx = v @ w \<and> (\<forall>t \<in> set v. fits c t) \<and> matchhere re w)"
proof (induction tx)
  case Nil
  show ?case by (subst matchstar.simps) simp
next
  case (Cons t ts)
  have "matchstar c re (t # ts) \<longleftrightarrow> matchhere re (t # ts) \<or> (fits c t \<and> matchstar c re ts)"
    by (subst matchstar.simps) (auto simp: fits_def)
  also have "\<dots> \<longleftrightarrow> (\<exists>v w. t # ts = v @ w \<and> (\<forall>t \<in> set v. fits c t) \<and> matchhere re w)"
    unfolding Cons.IH split_Cons by auto
  finally show ?case .
qed

lemma found_at_One: "found_at (map_prod (Cons (One c)) id p) tx \<longleftrightarrow> (\<exists>t ts. tx = t # ts \<and> fits c t \<and> found_at p ts)"
proof
  assume "found_at (map_prod (Cons (One c)) id p) tx"
  then obtain u v where u: "tx = u @ v" "matches (One c # fst p) u" "snd p \<longrightarrow> v = []" by (auto simp: found_at_def)
  from u(2) obtain t w where "u = t # w" "fits c t" "matches (fst p) w" by auto
  with u show "\<exists>t ts. tx = t # ts \<and> fits c t \<and> found_at p ts" by (auto simp: found_at_def)
next
  assume "\<exists>t ts. tx = t # ts \<and> fits c t \<and> found_at p ts"
  then obtain t u v where "tx = t # u @ v" "fits c t" "matches (fst p) u" "snd p \<longrightarrow> v = []" by (auto simp: found_at_def)
  then show "found_at (map_prod (Cons (One c)) id p) tx"
    unfolding found_at_def by (intro exI [of _ "t # u"] exI [of _ v]) simp
qed

lemma found_at_Star: "found_at (map_prod (Cons (Star c)) id p) tx \<longleftrightarrow> (\<exists>v w. tx = v @ w \<and> (\<forall>t \<in> set v. fits c t) \<and> found_at p w)"
proof
  assume "found_at (map_prod (Cons (Star c)) id p) tx"
  then obtain u v where u: "tx = u @ v" "matches (Star c # fst p) u" "snd p \<longrightarrow> v = []" by (auto simp: found_at_def)
  from u(2) obtain x y where "u = x @ y" "\<forall>t \<in> set x. fits c t" "matches (fst p) y" by auto
  with u show "\<exists>v w. tx = v @ w \<and> (\<forall>t \<in> set v. fits c t) \<and> found_at p w"
    by (intro exI [of _ x] exI [of _ "y @ v"]) (auto simp: found_at_def)
next
  assume "\<exists>v w. tx = v @ w \<and> (\<forall>t \<in> set v. fits c t) \<and> found_at p w"
  then obtain x y v where x: "tx = x @ y @ v" "\<forall>t \<in> set x. fits c t" "matches (fst p) y" "snd p \<longrightarrow> v = []" by (auto simp: found_at_def)
  then have "matches (Star c # fst p) (x @ y)" by auto
  with x show "found_at (map_prod (Cons (Star c)) id p) tx"
    unfolding found_at_def by (intro exI [of _ "x @ y"] exI [of _ v]) simp
qed

lemma matchhere_iff: "matchhere re tx \<longleftrightarrow> found_at (parse_re re) tx"
proof (induction re arbitrary: tx rule: parse_re.induct)
  case 1
  show ?case by (subst matchhere.simps) (simp add: found_at_def)
next
  case (2 c)
  have n: "matchhere [] ts" for ts by (subst matchhere.simps) simp
  have "found_at ([], False) ts" for ts by (simp add: found_at_def)
  then have o: "found_at ([One c], False) tx \<longleftrightarrow> (\<exists>t ts. tx = t # ts \<and> fits c t)" using found_at_One [of c "([], False)" tx] by simp
  have d: "found_at ([], True) tx \<longleftrightarrow> tx = []" by (simp add: found_at_def)
  show ?case by (subst matchhere.simps) (auto simp: o d fits_def n split: list.splits)
next
  case (3 c d re)
  show ?case
  proof (cases "d = re_star")
    case True
    with 3(1) [OF True] show ?thesis
      by (subst matchhere.simps) (simp add: matchstar_iff found_at_Star)
  next
    case False
    with 3(2) [OF False] show ?thesis
      by (subst matchhere.simps) (auto simp: found_at_One fits_def split: list.splits)
  qed
qed

lemma match_from_iff: "match_from re tx \<longleftrightarrow> (\<exists>p s. tx = p @ s \<and> matchhere re s)"
proof (induction tx)
  case Nil
  show ?case by (subst match_from.simps) simp
next
  case (Cons t ts)
  have "match_from re (t # ts) \<longleftrightarrow> matchhere re (t # ts) \<or> match_from re ts" by (subst match_from.simps) simp
  also have "\<dots> \<longleftrightarrow> (\<exists>p s. t # ts = p @ s \<and> matchhere re s)" unfolding Cons.IH split_Cons by auto
  finally show ?case .
qed

text \<open>
  C14. \<open>match\<close> decides the language of the pattern: a character stands for itself, a dot for any character, a star
  after a character for any number of them, and a dollar at the end for the end of the text. A pattern that
  starts with a caret is looked for at the start of the text, any other one at every position.
\<close>

theorem match_decides_pattern:
  "match re tx = (if re \<noteq> [] \<and> hd re = re_caret then found_at (parse_re (tl re)) tx
     else (\<exists>p s. tx = p @ s \<and> found_at (parse_re re) s))"
  by (cases re) (simp_all add: match_def match_from_iff matchhere_iff)

section \<open>Lines\<close>

definition nl :: uint8 where "nl = 10"

definition GREP_BUF :: nat where "GREP_BUF = 1024"

text \<open>
  The inner loop: \<open>strchr\<close> looks for a newline before the terminator. The result is the output and the bytes from \<^verbatim>\<open>p\<close>
  to the end of the buffer.
\<close>

function grep_lines :: "uint8 list \<Rightarrow> uint8 list \<Rightarrow> uint8 list \<times> uint8 list" where
  "grep_lines pattern bs = (let line = takeWhile (\<lambda>c. c \<noteq> nl \<and> c \<noteq> 0) bs; rest = drop (length line) bs in
     if rest = [] \<or> hd rest \<noteq> nl then ([], bs)
     else map_prod (append (if match pattern line then line @ [nl] else [])) id (grep_lines pattern (tl rest)))"
  by pat_completeness auto
termination
  by (relation "measure (\<lambda>(pattern, bs). length bs)") (auto simp: neq_Nil_conv dest: arg_cong [where f = length])

declare grep_lines.simps [simp del]

text \<open>
  The outer loop, with the results of the calls of \<open>read\<close>: it ends when \<open>read\<close> returns no byte. The bytes left over
  move to the front of the buffer.
\<close>

primrec grep_loop :: "uint8 list list \<Rightarrow> uint8 list \<Rightarrow> uint8 list \<Rightarrow> uint8 list" where
  "grep_loop [] pattern buf = []"
| "grep_loop (chunk # chunks) pattern buf = (if chunk = [] then []
     else let (out, left) = grep_lines pattern (buf @ chunk) in out @ grep_loop chunks pattern left)"

text \<open>What \<open>read\<close> promises: at most as many bytes as the buffer has room for.\<close>

primrec reads_fit :: "uint8 list list \<Rightarrow> uint8 list \<Rightarrow> uint8 list \<Rightarrow> bool" where
  "reads_fit [] pattern buf \<longleftrightarrow> True"
| "reads_fit (chunk # chunks) pattern buf \<longleftrightarrow> length buf + length chunk \<le> GREP_BUF - 1 \<and> chunk \<noteq> [] \<and>
     reads_fit chunks pattern (snd (grep_lines pattern (buf @ chunk)))"

text \<open>The complete lines of a text, and what follows the last newline.\<close>

fun lines :: "uint8 list \<Rightarrow> uint8 list list" where
  "lines [] = []"
| "lines (c # cs) = (if c = nl then [] # lines cs else case lines cs of [] \<Rightarrow> [] | l # ls \<Rightarrow> (c # l) # ls)"

definition unfinished :: "uint8 list \<Rightarrow> uint8 list" where
  "unfinished bs = rev (takeWhile (\<lambda>c. c \<noteq> nl) (rev bs))"

definition print_lines :: "uint8 list list \<Rightarrow> uint8 list" where
  "print_lines ls = concat (map (\<lambda>l. l @ [nl]) ls)"

lemma lines_none: "nl \<notin> set bs \<Longrightarrow> lines bs = []"
  by (induction bs) auto

lemma lines_append: "nl \<notin> set l \<Longrightarrow> lines (l @ nl # bs) = l # lines bs"
  by (induction l) auto

lemma unfinished_none: "nl \<notin> set bs \<Longrightarrow> unfinished bs = bs"
  unfolding unfinished_def by (subst takeWhile_eq_all_conv [THEN iffD2]) auto

lemma unfinished_append: "unfinished (l @ nl # bs) = unfinished bs"
proof (cases "nl \<in> set bs")
  case True
  then have "takeWhile (\<lambda>c. c \<noteq> nl) (rev bs @ xs) = takeWhile (\<lambda>c. c \<noteq> nl) (rev bs)" for xs
    by (intro takeWhile_append1 [of nl]) auto
  then show ?thesis by (simp add: unfinished_def)
next
  case False
  then have "takeWhile (\<lambda>c. c \<noteq> nl) (rev bs @ nl # xs) = rev bs" for xs
    by (subst takeWhile_append2) auto
  with False show ?thesis by (simp add: unfinished_def unfinished_none [unfolded unfinished_def])
qed

text \<open>A text without newline, or its first line and the rest.\<close>

lemma first_line:
  obtains "nl \<notin> set bs" | l r where "bs = l @ nl # r" "nl \<notin> set l"
  by (meson split_list_first)

lemma lines_unfinished: "lines (bs @ cs) = lines bs @ lines (unfinished bs @ cs)" "unfinished (bs @ cs) = unfinished (unfinished bs @ cs)"
proof -
  have "lines (bs @ cs) = lines bs @ lines (unfinished bs @ cs) \<and> unfinished (bs @ cs) = unfinished (unfinished bs @ cs)"
  proof (induction "length bs" arbitrary: bs rule: less_induct)
    case less
    show ?case
    proof (cases rule: first_line [of bs])
      case 1
      then show ?thesis by (simp add: lines_none unfinished_none)
    next
      case (2 l r)
      with less [of r] show ?thesis by (simp add: lines_append unfinished_append)
    qed
  qed
  then show "lines (bs @ cs) = lines bs @ lines (unfinished bs @ cs)" "unfinished (bs @ cs) = unfinished (unfinished bs @ cs)" by auto
qed

lemma grep_lines_eq: "0 \<notin> set bs \<Longrightarrow> grep_lines pattern bs = (print_lines (filter (match pattern) (lines bs)), unfinished bs)"
proof (induction "length bs" arbitrary: bs rule: less_induct)
  case less
  show ?case
  proof (cases rule: first_line [of bs])
    case 1
    then have w: "takeWhile (\<lambda>c. c \<noteq> nl \<and> c \<noteq> 0) bs = bs" using less.prems by (auto simp: takeWhile_eq_all_conv)
    show ?thesis unfolding grep_lines.simps [of pattern bs] Let_def w
      using 1 by (simp add: lines_none unfinished_none print_lines_def)
  next
    case (2 l r)
    have w: "takeWhile (\<lambda>c. c \<noteq> nl \<and> c \<noteq> 0) bs = l" unfolding 2(1) using less.prems 2
      by (subst takeWhile_append2) auto
    have "grep_lines pattern r = (print_lines (filter (match pattern) (lines r)), unfinished r)"
      by (rule less.hyps) (use less.prems 2 in auto)
    then show ?thesis unfolding grep_lines.simps [of pattern bs] Let_def w
      using 2 by (simp add: lines_append unfinished_append print_lines_def)
  qed
qed

lemma set_unfinished: "set (unfinished bs) \<subseteq> set bs"
  by (auto simp: unfinished_def dest: set_takeWhileD)

lemma grep_loop_eq:
  "reads_fit chunks pattern buf \<Longrightarrow> 0 \<notin> set buf \<Longrightarrow> 0 \<notin> set (concat chunks) \<Longrightarrow> nl \<notin> set buf \<Longrightarrow>
    grep_loop chunks pattern buf = print_lines (filter (match pattern) (lines (buf @ concat chunks)))"
proof (induction chunks arbitrary: buf)
  case Nil
  then show ?case by (simp add: lines_none print_lines_def)
next
  case (Cons c cs)
  let ?b = "buf @ c"
  have z: "0 \<notin> set ?b" using Cons.prems by auto
  note g = grep_lines_eq [OF z, of pattern]
  have nn: "nl \<notin> set (unfinished ?b)" by (auto simp: unfinished_def dest: set_takeWhileD)
  have "grep_loop cs pattern (unfinished ?b) = print_lines (filter (match pattern) (lines (unfinished ?b @ concat cs)))"
    by (rule Cons.IH) (use Cons.prems g z nn set_unfinished [of ?b] in auto)
  with Cons.prems(1) g show ?case
    using lines_unfinished(1) [of ?b "concat cs"] by (simp add: print_lines_def)
qed



end
