(* ===== verification/Shell.thy ===== *)
theory Shell
  imports Fsdata
begin

unbundle bit_operations_syntax

text \<open>
  The parser of \<^verbatim>\<open>user/sh/sh.c\<close>. The pointer \<^verbatim>\<open>*ps\<close> into the input is the rest of the input, without the terminator. A counted
  string, from \<^verbatim>\<open>q\<close> to \<^verbatim>\<open>eq\<close>, is the list of its bytes; \<^verbatim>\<open>nulterminate\<close>, which turns counted strings into C strings in
  place, does not change them. A panic, which ends the shell, is the result \<open>Inl\<close>.

  The routines \<open>parseline\<close>, \<open>parsepipe\<close>, \<open>parseexec\<close> and \<open>parseblock\<close> call each other; the first argument bounds the depth of the calls, and
  \<open>None\<close> stands for a parser that is deeper. With the bound that \<open>parsecmd\<close> gives this does not happen.
\<close>

section \<open>Commands\<close>

datatype cmd = EXEC "uint8 list list" | REDIR cmd "uint8 list" uint32 nat | PIPE cmd cmd | LIST cmd cmd | BACK cmd

definition MAXARGS :: nat where "MAXARGS = 10"

definition whitespace :: "uint8 list" where "whitespace = [32, 9, 13, 10, 11]"
definition symbols :: "uint8 list" where "symbols = bytes_of ''<|>&;()''"

abbreviation ch :: "char \<Rightarrow> uint8" where "ch c \<equiv> of_char c"

definition skip_ws :: "uint8 list \<Rightarrow> uint8 list" where
  "skip_ws s = dropWhile (\<lambda>c. c \<in> set whitespace) s"

section \<open>Tokens\<close>

text \<open>The token, its bytes, and the rest of the input.\<close>

definition gettoken :: "uint8 list \<Rightarrow> uint8 \<times> uint8 list \<times> uint8 list" where
  "gettoken ps = (case skip_ws ps of
     [] \<Rightarrow> (0, [], [])
   | c # s \<Rightarrow>
       if c \<in> set (bytes_of ''|();&<'') then (c, [c], skip_ws s)
       else if c = ch CHR ''>'' then
         (if s \<noteq> [] \<and> hd s = ch CHR ''>'' then (ch CHR ''+'', [c, hd s], skip_ws (tl s)) else (c, [c], skip_ws s))
       else let w = takeWhile (\<lambda>c. c \<notin> set whitespace \<and> c \<notin> set symbols) (c # s) in
         (ch CHR ''a'', w, skip_ws (drop (length w) (c # s))))"

definition peek :: "string \<Rightarrow> uint8 list \<Rightarrow> bool \<times> uint8 list" where
  "peek toks ps = (let s = skip_ws ps in (s \<noteq> [] \<and> hd s \<in> set (bytes_of toks), s))"

lemma length_skip_ws: "length (skip_ws s) \<le> length s"
  by (simp add: skip_ws_def length_dropWhile_le)

lemma skip_ws_skip_ws [simp]: "skip_ws (skip_ws s) = skip_ws s"
  by (simp add: skip_ws_def)

lemma skip_ws_hd: "skip_ws s = c # t \<Longrightarrow> c \<notin> set whitespace"
  using hd_dropWhile [of "\<lambda>c. c \<in> set whitespace" s] by (auto simp: skip_ws_def)

text \<open>Every token but the end of input takes up at least one byte.\<close>

lemma gettoken_shorter: "skip_ws ps \<noteq> [] \<Longrightarrow> gettoken ps = (tok, w, r) \<Longrightarrow> length r < length (skip_ws ps)"
proof -
  assume ne: "skip_ws ps \<noteq> []" and g: "gettoken ps = (tok, w, r)"
  then obtain c s where s: "skip_ws ps = c # s" by (cases "skip_ws ps") auto
  have le: "length (skip_ws t) < length (c # s)" if "length t \<le> length s" for t using length_skip_ws [of t] that by simp
  show ?thesis
  proof (cases "c \<in> set (bytes_of ''|();&<'') \<or> c = ch CHR ''>''")
    case True
    then show ?thesis using g s le [of s] le [of "tl s"] by (auto simp: gettoken_def split: if_splits)
  next
    case False
    let ?w = "takeWhile (\<lambda>c. c \<notin> set whitespace \<and> c \<notin> set symbols) (c # s)"
    have "c \<notin> set symbols" using False by (auto simp: symbols_def bytes_of_def)
    then have "?w \<noteq> []" using skip_ws_hd [OF s] by simp
    then have "length (drop (length ?w) (c # s)) \<le> length s" by (cases ?w) auto
    then show ?thesis using g s False le by (auto simp: gettoken_def Let_def)
  qed
qed

lemma gettoken_le: "gettoken ps = (tok, w, r) \<Longrightarrow> length r \<le> length ps"
  using gettoken_shorter [of ps tok w r] length_skip_ws [of ps] by (cases "skip_ws ps = []") (auto simp: gettoken_def)

section \<open>Parsing\<close>

definition redir :: "uint8 \<Rightarrow> cmd \<Rightarrow> uint8 list \<Rightarrow> cmd" where
  "redir tok c q = (if tok = ch CHR ''<'' then REDIR c q O_RDONLY 0
     else if tok = ch CHR ''>'' then REDIR c q (O_WRONLY OR O_CREATE OR O_TRUNC) 1
     else REDIR c q (O_WRONLY OR O_CREATE) 1)"

function parseredirs :: "cmd \<Rightarrow> uint8 list \<Rightarrow> string + cmd \<times> uint8 list" where
  "parseredirs c ps =
     (let (b, s) = peek ''<>'' ps in
      if \<not> b then Inr (c, s)
      else let (tok, _, s1) = gettoken s; (tok', q, s2) = gettoken s1 in
        if tok' \<noteq> ch CHR ''a'' then Inl ''missing file for redirection''
        else parseredirs (redir tok c q) s2)"
  by pat_completeness auto
termination
proof (relation "measure (\<lambda>(c, ps). length ps)", goal_cases)
  case (2 c ps x b s xa tok y w s1 xb tok' z q s2)
  then have "gettoken s = (tok, w, s1)" "gettoken s1 = (tok', q, s2)" "skip_ws s \<noteq> []" "s = skip_ws ps"
    by (auto simp: peek_def Let_def)
  then have "length s2 < length s" using gettoken_shorter [of s tok w s1] gettoken_le [of s1 tok' q s2] by simp
  then show ?case using \<open>s = skip_ws ps\<close> length_skip_ws [of ps] by simp
qed simp

declare parseredirs.simps [simp del]

text \<open>\<^verbatim>\<open>cmd->argv[argc] = q\<close>: the node of the command inside its redirections is updated in place.\<close>

primrec add_arg :: "uint8 list \<Rightarrow> cmd \<Rightarrow> cmd" where
  "add_arg q (EXEC args) = EXEC (args @ [q])"
| "add_arg q (REDIR c f m fd) = REDIR (add_arg q c) f m fd"
| "add_arg q (PIPE l r) = PIPE l r"
| "add_arg q (LIST l r) = LIST l r"
| "add_arg q (BACK c) = BACK c"

text \<open>The loop of \<open>parseexec\<close>.\<close>

function parse_args :: "nat \<Rightarrow> cmd \<Rightarrow> uint8 list \<Rightarrow> string + cmd \<times> uint8 list" where
  "parse_args argc rt ps =
     (let (b, s) = peek ''|)&;'' ps in
      if b then Inr (rt, s)
      else let (tok, q, s1) = gettoken s in
        if tok = 0 then Inr (rt, s1)
        else if tok \<noteq> ch CHR ''a'' then Inl ''syntax''
        else if argc + 1 \<ge> MAXARGS then Inl ''too many args''
        else case parseredirs (add_arg q rt) s1 of Inl e \<Rightarrow> Inl e | Inr (rt', s2) \<Rightarrow> parse_args (argc + 1) rt' s2)"
  by pat_completeness auto
termination
  by (relation "measure (\<lambda>(argc, rt, ps). MAXARGS - argc)") auto

declare parse_args.simps [simp del]

type_synonym presult = "(string + cmd \<times> uint8 list) option"

definition pbind :: "presult \<Rightarrow> (cmd \<Rightarrow> uint8 list \<Rightarrow> presult) \<Rightarrow> presult" where
  "pbind r f = (case r of None \<Rightarrow> None | Some (Inl e) \<Rightarrow> Some (Inl e) | Some (Inr (c, s)) \<Rightarrow> f c s)"

text \<open>The loop of \<open>parseline\<close>.\<close>

function parse_backs :: "cmd \<Rightarrow> uint8 list \<Rightarrow> cmd \<times> uint8 list" where
  "parse_backs c ps = (let (b, s) = peek ''&'' ps in
     if b then (let (_, _, s1) = gettoken s in parse_backs (BACK c) s1) else (c, s))"
  by pat_completeness auto
termination
proof (relation "measure (\<lambda>(c, ps). length ps)", goal_cases)
  case (2 c ps x b s xa tok y w s1)
  then have "gettoken s = (tok, w, s1)" "skip_ws s \<noteq> []" "s = skip_ws ps" by (auto simp: peek_def Let_def)
  then show ?case using gettoken_shorter [of s tok w s1] length_skip_ws [of ps] by simp
qed simp

declare parse_backs.simps [simp del]

fun parseline :: "nat \<Rightarrow> uint8 list \<Rightarrow> presult" and parsepipe :: "nat \<Rightarrow> uint8 list \<Rightarrow> presult"
  and parseexec :: "nat \<Rightarrow> uint8 list \<Rightarrow> presult" and parseblock :: "nat \<Rightarrow> uint8 list \<Rightarrow> presult" where
  "parseline 0 ps = None"
| "parseline (Suc n) ps = pbind (parsepipe n ps) (\<lambda>c s.
     let (c, s) = parse_backs c s; (b, s) = peek '';'' s in
     if b then (let (_, _, s) = gettoken s in pbind (parseline n s) (\<lambda>r s. Some (Inr (LIST c r, s))))
     else Some (Inr (c, s)))"
| "parsepipe 0 ps = None"
| "parsepipe (Suc n) ps = pbind (parseexec n ps) (\<lambda>c s.
     let (b, s) = peek ''|'' s in
     if b then (let (_, _, s) = gettoken s in pbind (parsepipe n s) (\<lambda>r s. Some (Inr (PIPE c r, s))))
     else Some (Inr (c, s)))"
| "parseexec 0 ps = None"
| "parseexec (Suc n) ps =
     (let (b, s) = peek ''('' ps in
      if b then parseblock n s
      else case parseredirs (EXEC []) s of Inl e \<Rightarrow> Some (Inl e) | Inr (rt, s) \<Rightarrow> Some (parse_args 0 rt s))"
| "parseblock 0 ps = None"
| "parseblock (Suc n) ps =
     (let (b, s) = peek ''('' ps in
      if \<not> b then Some (Inl ''parseblock'')
      else let (_, _, s) = gettoken s in pbind (parseline n s) (\<lambda>c s.
        let (b, s) = peek '')'' s in
        if \<not> b then Some (Inl ''syntax - missing )'')
        else let (_, _, s) = gettoken s in Some (parseredirs c s)))"

definition parsecmd :: "uint8 list \<Rightarrow> (string + cmd) option" where
  "parsecmd s = (case parseline (4 * length s + 4) s of
     None \<Rightarrow> None
   | Some (Inl e) \<Rightarrow> Some (Inl e)
   | Some (Inr (c, r)) \<Rightarrow> (let (_, r) = peek '''' r in if r \<noteq> [] then Some (Inl ''syntax'') else Some (Inr c)))"

section \<open>The parser returns\<close>

lemma peek_le: "peek toks ps = (b, s) \<Longrightarrow> length s \<le> length ps"
  using length_skip_ws [of ps] by (auto simp: peek_def Let_def)

lemma peek_token: "peek toks ps = (b, s) \<Longrightarrow> b \<Longrightarrow> gettoken s = (tok, w, r) \<Longrightarrow> length r < length ps"
  using gettoken_shorter [of s tok w r] length_skip_ws [of ps] by (auto simp: peek_def Let_def)

lemma parseredirs_le: "parseredirs c ps = Inr (c', r) \<Longrightarrow> length r \<le> length ps"
proof (induction "length ps" arbitrary: c ps rule: less_induct)
  case less
  obtain b s where p: "peek ''<>'' ps = (b, s)" by fastforce
  obtain tok w s1 where g1: "gettoken s = (tok, w, s1)" by (metis prod_cases3)
  obtain tok' q s2 where g2: "gettoken s1 = (tok', q, s2)" by (metis prod_cases3)
  note e = less.prems [unfolded parseredirs.simps [of c ps] p g1 g2]
  show ?case
  proof (cases b)
    case False
    then show ?thesis using e p peek_le [OF p] by simp
  next
    case True
    then have r: "parseredirs (redir tok c q) s2 = Inr (c', r)" using e g1 g2 by (simp split: if_splits)
    have "length s2 < length ps" using peek_token [OF p True g1] gettoken_le [OF g2] by simp
    with less.hyps [OF this r] show ?thesis by simp
  qed
qed

lemma parse_args_le: "parse_args argc rt ps = Inr (c', r) \<Longrightarrow> length r \<le> length ps"
proof (induction "MAXARGS - argc" arbitrary: argc rt ps rule: less_induct)
  case less
  obtain b s where p: "peek ''|)&;'' ps = (b, s)" by fastforce
  obtain tok q s1 where g: "gettoken s = (tok, q, s1)" by (metis prod_cases3)
  note e = less.prems [unfolded parse_args.simps [of argc rt ps] p g]
  note le = peek_le [OF p] gettoken_le [OF g]
  show ?case
  proof (cases "b \<or> tok = 0")
    case True
    then show ?thesis using e g le by (auto split: if_splits)
  next
    case False
    then obtain rt' s2 where r: "parseredirs (add_arg q rt) s1 = Inr (rt', s2)" "parse_args (argc + 1) rt' s2 = Inr (c', r)" "argc + 1 < MAXARGS"
      using e g by (auto split: if_splits sum.splits)
    have "length r \<le> length s2" by (rule less.hyps [OF _ r(2)]) (use r(3) in simp)
    with parseredirs_le [OF r(1)] le show ?thesis by simp
  qed
qed

lemma parse_backs_le: "length (snd (parse_backs c ps)) \<le> length ps"
proof (induction "length ps" arbitrary: c ps rule: less_induct)
  case less
  obtain b s where p: "peek ''&'' ps = (b, s)" by fastforce
  obtain tok w s1 where g: "gettoken s = (tok, w, s1)" by (metis prod_cases3)
  show ?case
  proof (cases b)
    case False
    then show ?thesis using peek_le [OF p] p by (subst parse_backs.simps) simp
  next
    case True
    have "length s1 < length ps" by (rule peek_token [OF p True g])
    with less [of s1 "BACK c"] True p g show ?thesis by (subst parse_backs.simps) simp
  qed
qed

text \<open>A result that is not out of depth, and a rest that is no longer than the input.\<close>

definition good :: "nat \<Rightarrow> presult \<Rightarrow> bool" where
  "good k r \<longleftrightarrow> (case r of None \<Rightarrow> False | Some (Inl e) \<Rightarrow> True | Some (Inr (c, s)) \<Rightarrow> length s \<le> k)"

lemma good_simps [simp]: "\<not> good k None" "good k (Some (Inl e))" "good k (Some (Inr (c, s))) \<longleftrightarrow> length s \<le> k"
  by (simp_all add: good_def)

lemma good_cases:
  assumes "good k r"
  obtains e where "r = Some (Inl e)" | c s where "r = Some (Inr (c, s))" "length s \<le> k"
  using assms by (auto simp: good_def split: option.splits sum.splits)

lemma good_pbind:
  assumes "good k r" and "\<And>c s. length s \<le> k \<Longrightarrow> good m (f c s)"
  shows "good m (pbind r f)"
  using assms(1) by (rule good_cases) (use assms(2) in \<open>auto simp: pbind_def\<close>)

lemma good_mono: "good k r \<Longrightarrow> k \<le> m \<Longrightarrow> good m r"
  by (auto simp: good_def split: option.splits sum.splits)

lemma parse_good:
  "(4 * length ps + 4 \<le> n \<longrightarrow> good (length ps) (parseline n ps)) \<and> (4 * length ps + 3 \<le> n \<longrightarrow> good (length ps) (parsepipe n ps)) \<and>
   (4 * length ps + 2 \<le> n \<longrightarrow> good (length ps) (parseexec n ps)) \<and> (4 * length ps + 1 \<le> n \<longrightarrow> good (length ps) (parseblock n ps))"
proof (induction n arbitrary: ps)
  case (Suc n)
  have tok: "good (length ps) (let (_, _, s) = gettoken s in pbind (parseline n s) (\<lambda>r s. Some (Inr (F r, s))))"
    "good (length ps) (let (_, _, s) = gettoken s in pbind (parsepipe n s) (\<lambda>r s. Some (Inr (F r, s))))"
    if "peek toks s0 = (True, s)" "length s0 \<le> length ps" "4 * length ps + 2 \<le> n" for toks s0 s F
  proof -
    obtain tk w r where g: "gettoken s = (tk, w, r)" by (metis prod_cases3)
    have r: "length r < length ps" using peek_token [OF that(1) TrueI g] that(2) by simp
    then have "good (length r) (parseline n r)" "good (length r) (parsepipe n r)" using Suc.IH [of r] that(3) by auto
    then show "good (length ps) (let (_, _, s) = gettoken s in pbind (parseline n s) (\<lambda>r s. Some (Inr (F r, s))))"
      "good (length ps) (let (_, _, s) = gettoken s in pbind (parsepipe n s) (\<lambda>r s. Some (Inr (F r, s))))"
      unfolding g using r by (auto intro!: good_pbind [where k = "length r"])
  qed
  have l: "good (length ps) (parseline (Suc n) ps)" if n: "4 * length ps + 3 \<le> n"
    unfolding parseline.simps
  proof (rule good_pbind [where k = "length ps"])
    show "good (length ps) (parsepipe n ps)" using Suc.IH n by simp
    fix c and s :: "uint8 list" assume s: "length s \<le> length ps"
    obtain c1 s1 where b: "parse_backs c s = (c1, s1)" by fastforce
    obtain x s2 where p: "peek '';'' s1 = (x, s2)" by fastforce
    have "length s1 \<le> length ps" "length s2 \<le> length ps" using parse_backs_le [of c s] b peek_le [OF p] s by auto
    then show "good (length ps) (let (c, s) = parse_backs c s; (b, s) = peek '';'' s in
        if b then (let (_, _, s) = gettoken s in pbind (parseline n s) (\<lambda>r s. Some (Inr (LIST c r, s)))) else Some (Inr (c, s)))"
      using b p tok(1) [of "'';''" s1 s2] n by (cases x) simp_all
  qed
  have pp: "good (length ps) (parsepipe (Suc n) ps)" if n: "4 * length ps + 2 \<le> n"
    unfolding parsepipe.simps
  proof (rule good_pbind [where k = "length ps"])
    show "good (length ps) (parseexec n ps)" using Suc.IH n by simp
    fix c and s :: "uint8 list" assume s: "length s \<le> length ps"
    obtain x s2 where p: "peek ''|'' s = (x, s2)" by fastforce
    then have "length s2 \<le> length ps" using peek_le [OF p] s by simp
    then show "good (length ps) (let (b, s) = peek ''|'' s in
        if b then (let (_, _, s) = gettoken s in pbind (parsepipe n s) (\<lambda>r s. Some (Inr (PIPE c r, s)))) else Some (Inr (c, s)))"
      using p tok(2) [of "''|''" s s2] s n by (cases x) simp_all
  qed
  have e: "good (length ps) (parseexec (Suc n) ps)" if n: "4 * length ps + 1 \<le> n"
  proof -
    obtain x s where p: "peek ''('' ps = (x, s)" by fastforce
    note le = peek_le [OF p]
    show ?thesis
    proof (cases x)
      case True
      have "good (length s) (parseblock n s)" using Suc.IH [of s] n le by simp
      with True p le show ?thesis by (simp add: good_mono)
    next
      case False
      with p show ?thesis using le parseredirs_le [of "EXEC []" s] parse_args_le [of 0]
        by (fastforce simp: good_def split: sum.splits)
    qed
  qed
  have bl: "good (length ps) (parseblock (Suc n) ps)" if n: "4 * length ps \<le> n"
  proof -
    obtain x s where p: "peek ''('' ps = (x, s)" by fastforce
    show ?thesis
    proof (cases x)
      case False
      with p show ?thesis by (simp add: good_def)
    next
      case True
      obtain tk w r where g: "gettoken s = (tk, w, r)" by (metis prod_cases3)
      have r: "length r < length ps" by (rule peek_token [OF p True g])
      have "good (length ps) (pbind (parseline n r) (\<lambda>c s.
        let (b, s) = peek '')'' s in
        if \<not> b then Some (Inl ''syntax - missing )'')
        else let (_, _, s) = gettoken s in Some (parseredirs c s)))"
      proof (rule good_pbind [where k = "length r"])
        show "good (length r) (parseline n r)" using Suc.IH [of r] r n by simp
        fix c and s :: "uint8 list" assume s: "length s \<le> length r"
        obtain y s1 where q: "peek '')'' s = (y, s1)" by fastforce
        obtain tk' w' r' where g': "gettoken s1 = (tk', w', r')" by (metis prod_cases3)
        have "length r' \<le> length ps" using peek_le [OF q] gettoken_le [OF g'] s r by simp
        then show "good (length ps) (let (b, s) = peek '')'' s in
            if \<not> b then Some (Inl ''syntax - missing )'') else let (_, _, s) = gettoken s in Some (parseredirs c s))"
          using q g' parseredirs_le [of c r'] by (fastforce simp: good_def split: sum.splits)
      qed
      with p True g show ?thesis by simp
    qed
  qed
  from l pp e bl show ?case by simp
qed simp

text \<open>
  C16. The parser of the shell returns on every input: with the depth that \<open>parsecmd\<close> allows, the result is a command or a
  syntax error.
\<close>

theorem parsecmd_returns: "\<exists>r. parsecmd s = Some r"
proof -
  have "good (length s) (parseline (4 * length s + 4) s)" using parse_good by simp
  then show ?thesis by (auto simp: good_def parsecmd_def Let_def split: option.splits sum.splits prod.splits)
qed

section \<open>Printing and parsing\<close>

text \<open>
  A way to write a command. The level says where it stands: 0 for a line, 1 in front of an ampersand, 2 for a pipeline, 3 for a part of
  a pipeline or the operand of a redirection; a command of a lower level is put in parentheses.
\<close>

definition paren :: "bool \<Rightarrow> uint8 list \<Rightarrow> uint8 list" where
  "paren b s = (if b then ch CHR ''('' # s @ [ch CHR '')''] else s)"

definition print_redir :: "uint8 list \<Rightarrow> uint32 \<Rightarrow> nat \<Rightarrow> uint8 list" where
  "print_redir f m fd = (if fd = 0 then [ch CHR ''<''] else if m = O_WRONLY OR O_CREATE OR O_TRUNC then [ch CHR ''>''] else [ch CHR ''>'', ch CHR ''>'']) @ f @ [32]"

definition print_words :: "uint8 list list \<Rightarrow> uint8 list" where
  "print_words ws = concat (map (\<lambda>w. w @ [32]) ws)"

primrec print :: "cmd \<Rightarrow> nat \<Rightarrow> uint8 list" where
  "print (EXEC args) k = print_words args"
| "print (REDIR c f m fd) k = print c 3 @ print_redir f m fd"
| "print (PIPE l r) k = paren (2 < k) (print l 3 @ ch CHR ''|'' # print r 2)"
| "print (LIST l r) k = paren (0 < k) (print l 1 @ ch CHR '';'' # print r 0)"
| "print (BACK c) k = paren (1 < k) (print c 1 @ [ch CHR ''&''])"

text \<open>The commands the shell's language can express.\<close>

definition word :: "uint8 list \<Rightarrow> bool" where
  "word w \<longleftrightarrow> w \<noteq> [] \<and> (\<forall>c \<in> set w. c \<notin> set whitespace \<and> c \<notin> set symbols \<and> c \<noteq> 0)"

definition redir_ok :: "uint8 list \<times> uint32 \<times> nat \<Rightarrow> bool" where
  "redir_ok = (\<lambda>(f, m, fd). word f \<and> (m, fd) \<in> {(O_RDONLY, 0), (O_WRONLY OR O_CREATE OR O_TRUNC, 1), (O_WRONLY OR O_CREATE, 1)})"

primrec cmd_wf :: "cmd \<Rightarrow> bool" where
  "cmd_wf (EXEC args) \<longleftrightarrow> length args < MAXARGS \<and> (\<forall>a \<in> set args. word a)"
| "cmd_wf (REDIR c f m fd) \<longleftrightarrow> cmd_wf c \<and> redir_ok (f, m, fd)"
| "cmd_wf (PIPE l r) \<longleftrightarrow> cmd_wf l \<and> cmd_wf r"
| "cmd_wf (LIST l r) \<longleftrightarrow> cmd_wf l \<and> cmd_wf r"
| "cmd_wf (BACK c) \<longleftrightarrow> cmd_wf c"

text \<open>What follows is the end of the input or one of the given symbols.\<close>

definition ends :: "string \<Rightarrow> uint8 list \<Rightarrow> bool" where
  "ends toks s \<longleftrightarrow> skip_ws s = [] \<or> hd (skip_ws s) \<in> set (bytes_of toks)"

lemmas char_sets = whitespace_def symbols_def bytes_of_def

lemma skip_ws_Cons: "skip_ws (c # s) = (if c \<in> set whitespace then skip_ws s else c # s)"
  by (simp add: skip_ws_def)

lemma skip_ws_space [simp]: "skip_ws (32 # s) = skip_ws s"
  by (simp add: skip_ws_Cons whitespace_def)

lemma skip_ws_symbol: "c \<in> set symbols \<Longrightarrow> skip_ws (c # s) = c # s"
  by (auto simp: skip_ws_Cons char_sets)

lemma word_Cons: "word w \<Longrightarrow> \<exists>c v. w = c # v \<and> c \<notin> set whitespace \<and> c \<notin> set symbols"
  by (cases w) (auto simp: word_def)

lemma skip_ws_word: "word w \<Longrightarrow> skip_ws (w @ s) = w @ s"
  using word_Cons [of w] by (auto simp: skip_ws_Cons)

lemma gettoken_word: "word w \<Longrightarrow> gettoken (w @ 32 # s) = (ch CHR ''a'', w, skip_ws s)"
proof -
  assume w: "word w"
  then obtain c v where c: "w = c # v" "c \<notin> set whitespace" "c \<notin> set symbols" using word_Cons by blast
  let ?P = "\<lambda>c. c \<notin> set whitespace \<and> c \<notin> set symbols"
  have "takeWhile ?P (w @ 32 # s) = w" using w by (subst takeWhile_append2) (auto simp: word_def whitespace_def)
  then have t: "takeWhile ?P (c # v @ 32 # s) = c # v" using c(1) by simp
  have n: "c \<notin> set (bytes_of ''|();&<'')" "c \<noteq> ch CHR ''>''" using c(3) by (auto simp: symbols_def bytes_of_def)
  show ?thesis unfolding gettoken_def skip_ws_word [OF w] using n t c(1) by (simp add: Let_def)
qed

lemma gettoken_symbol: "c \<in> set (bytes_of ''|();&<'') \<Longrightarrow> gettoken (c # s) = (c, [c], skip_ws s)"
  using skip_ws_symbol [of c s] by (auto simp: gettoken_def symbols_def bytes_of_def)

lemma peek_symbol: "c \<in> set symbols \<Longrightarrow> peek toks (c # s) = (c \<in> set (bytes_of toks), c # s)"
  by (simp add: peek_def skip_ws_symbol)

lemma peek_word: "word w \<Longrightarrow> set (bytes_of toks) \<subseteq> set symbols \<Longrightarrow> peek toks (w @ s) = (False, w @ s)"
  using word_Cons [of w] by (auto simp: peek_def skip_ws_word)

lemma peek_ends: "ends toks s \<Longrightarrow> set (bytes_of toks') \<inter> set (bytes_of toks) = {} \<Longrightarrow> peek toks' s = (False, skip_ws s)"
  by (auto simp: peek_def ends_def Let_def)

lemma skip_first [simp]:
  "peek toks (skip_ws s) = peek toks s" "parseredirs c (skip_ws s) = parseredirs c s" "parse_backs c (skip_ws s) = parse_backs c s"
  "parse_args k c (skip_ws s) = parse_args k c s" "ends toks (skip_ws s) = ends toks s"
proof -
  show p: "peek toks (skip_ws s) = peek toks s" for toks by (simp add: peek_def)
  show "parseredirs c (skip_ws s) = parseredirs c s"
    unfolding parseredirs.simps [of c "skip_ws s"] parseredirs.simps [of c s] p ..
  show "parse_backs c (skip_ws s) = parse_backs c s"
    unfolding parse_backs.simps [of c "skip_ws s"] parse_backs.simps [of c s] p ..
  show "parse_args k c (skip_ws s) = parse_args k c s"
    unfolding parse_args.simps [of k c "skip_ws s"] parse_args.simps [of k c s] p ..
  show "ends toks (skip_ws s) = ends toks s" by (simp add: ends_def)
qed

section \<open>Redirections and arguments\<close>

definition print_redirs :: "(uint8 list \<times> uint32 \<times> nat) list \<Rightarrow> uint8 list" where
  "print_redirs rs = concat (map (\<lambda>(f, m, fd). print_redir f m fd) rs)"

definition wrap :: "(uint8 list \<times> uint32 \<times> nat) list \<Rightarrow> cmd \<Rightarrow> cmd" where
  "wrap rs c = foldl (\<lambda>c (f, m, fd). REDIR c f m fd) c rs"

lemma parseredirs_stop: "ends ''|)&;'' s \<Longrightarrow> parseredirs c s = Inr (c, skip_ws s)"
  using peek_ends [of "''|)&;''" s "''<>''"] by (subst parseredirs.simps) (auto simp: bytes_of_def)

lemma parseredirs_one:
  assumes "redir_ok (f, m, fd)"
  shows "parseredirs c (print_redir f m fd @ s) = parseredirs (REDIR c f m fd) s"
proof -
  have w: "word f" using assms by (simp add: redir_ok_def)
  obtain d v where d: "f = d # v" "d \<notin> set symbols" using word_Cons [OF w] by blast
  have ne: "d \<noteq> ch CHR ''>''" using d(2) by (auto simp: symbols_def bytes_of_def)
  note gw = gettoken_word [OF w, of s]
  have sw: "skip_ws (f @ 32 # s) = f @ 32 # s" by (rule skip_ws_word [OF w])
  have modes: "O_RDONLY = 0 \<and> O_WRONLY OR O_CREATE OR O_TRUNC \<noteq> O_WRONLY OR O_CREATE"
    by (simp add: O_RDONLY_def O_WRONLY_def O_CREATE_def O_TRUNC_def)
  consider (inp) "m = O_RDONLY" "fd = 0" | (out) "m = O_WRONLY OR O_CREATE OR O_TRUNC" "fd = 1" | (app) "m = O_WRONLY OR O_CREATE" "fd = 1"
    using assms by (auto simp: redir_ok_def)
  then show ?thesis
  proof cases
    case inp
    have g: "gettoken (ch CHR ''<'' # f @ 32 # s) = (ch CHR ''<'', [ch CHR ''<''], f @ 32 # s)"
      using gettoken_symbol [of "ch CHR ''<''" "f @ 32 # s"] sw by (simp add: bytes_of_def)
    have p: "peek ''<>'' (ch CHR ''<'' # f @ 32 # s) = (True, ch CHR ''<'' # f @ 32 # s)"
      using peek_symbol [of "ch CHR ''<''"] by (simp add: symbols_def bytes_of_def)
    have "print_redir f m fd @ s = ch CHR ''<'' # f @ 32 # s" using inp by (simp add: print_redir_def)
    then show ?thesis unfolding parseredirs.simps [of c "print_redir f m fd @ s"] using g p gw inp by (simp add: redir_def)
  next
    case out
    have g: "gettoken (ch CHR ''>'' # f @ 32 # s) = (ch CHR ''>'', [ch CHR ''>''], f @ 32 # s)"
      using skip_ws_symbol [of "ch CHR ''>''"] sw d ne by (simp add: gettoken_def symbols_def bytes_of_def)
    have p: "peek ''<>'' (ch CHR ''>'' # f @ 32 # s) = (True, ch CHR ''>'' # f @ 32 # s)"
      using peek_symbol [of "ch CHR ''>''"] by (simp add: symbols_def bytes_of_def)
    have "print_redir f m fd @ s = ch CHR ''>'' # f @ 32 # s" using out by (simp add: print_redir_def)
    then show ?thesis unfolding parseredirs.simps [of c "print_redir f m fd @ s"] using g p gw out by (simp add: redir_def)
  next
    case app
    have g: "gettoken (ch CHR ''>'' # ch CHR ''>'' # f @ 32 # s) = (ch CHR ''+'', [ch CHR ''>'', ch CHR ''>''], f @ 32 # s)"
      using skip_ws_symbol [of "ch CHR ''>''"] sw by (simp add: gettoken_def symbols_def bytes_of_def)
    have p: "peek ''<>'' (ch CHR ''>'' # ch CHR ''>'' # f @ 32 # s) = (True, ch CHR ''>'' # ch CHR ''>'' # f @ 32 # s)"
      using peek_symbol [of "ch CHR ''>''"] by (simp add: symbols_def bytes_of_def)
    have "print_redir f m fd @ s = ch CHR ''>'' # ch CHR ''>'' # f @ 32 # s" using app modes by (auto simp: print_redir_def)
    then show ?thesis unfolding parseredirs.simps [of c "print_redir f m fd @ s"] using g p gw app by (simp add: redir_def)
  qed
qed

lemma parseredirs_print:
  "\<forall>r \<in> set rs. redir_ok r \<Longrightarrow> ends ''|)&;'' s \<Longrightarrow> parseredirs c (print_redirs rs @ s) = Inr (wrap rs c, skip_ws s)"
proof (induction rs arbitrary: c)
  case Nil
  then show ?case by (simp add: print_redirs_def wrap_def parseredirs_stop)
next
  case (Cons r rs)
  obtain f m fd where r: "r = (f, m, fd)" by (metis prod_cases3)
  have "print_redirs (r # rs) @ s = print_redir f m fd @ print_redirs rs @ s" by (simp add: print_redirs_def r)
  then show ?case using Cons parseredirs_one [of f m fd c "print_redirs rs @ s"] r by (simp add: wrap_def)
qed

lemma parse_args_stop: "ends ''|)&;'' s \<Longrightarrow> parse_args k c s = Inr (c, skip_ws s)"
proof -
  assume e: "ends ''|)&;'' s"
  show ?thesis
  proof (cases "skip_ws s = []")
    case True
    have "gettoken [] = (0, [], [])" by (simp add: gettoken_def skip_ws_def)
    with True show ?thesis by (subst parse_args.simps) (simp add: peek_def)
  next
    case False
    with e show ?thesis by (subst parse_args.simps) (simp add: peek_def ends_def)
  qed
qed

lemma parse_args_print:
  assumes "\<forall>r \<in> set rs. redir_ok r" and "ends ''|)&;'' s"
  shows "args \<noteq> [] \<Longrightarrow> \<forall>a \<in> set args. word a \<Longrightarrow> length pre + length args < MAXARGS \<Longrightarrow>
    parse_args (length pre) (EXEC pre) (print_words args @ print_redirs rs @ s) = Inr (wrap rs (EXEC (pre @ args)), skip_ws s)"
proof (induction args arbitrary: pre)
  case (Cons a as)
  let ?t = "print_words as @ print_redirs rs @ s"
  have w: "word a" using Cons.prems by simp
  have e: "print_words (a # as) @ print_redirs rs @ s = a @ 32 # ?t" by (simp add: print_words_def)
  have p: "peek ''|)&;'' (a @ 32 # ?t) = (False, a @ 32 # ?t)" by (rule peek_word [OF w]) (auto simp: symbols_def bytes_of_def)
  have step: "parse_args (length pre) (EXEC pre) (a @ 32 # ?t) = (case parseredirs (EXEC (pre @ [a])) ?t of Inl e \<Rightarrow> Inl e
      | Inr (rt', s2) \<Rightarrow> parse_args (length pre + 1) rt' s2)"
    unfolding parse_args.simps [of "length pre" "EXEC pre" "a @ 32 # ?t"] p using gettoken_word [OF w, of ?t] Cons.prems(3) by simp
  show ?case
  proof (cases as)
    case Nil
    then have "parseredirs (EXEC (pre @ [a])) ?t = Inr (wrap rs (EXEC (pre @ [a])), skip_ws s)"
      using parseredirs_print [OF assms] by (simp add: print_words_def)
    then show ?thesis unfolding e step using Nil parse_args_stop [OF assms(2)] by simp
  next
    case (Cons b bs)
    have wb: "word b" using \<open>\<forall>a \<in> set (a # as). word a\<close> Cons by simp
    obtain u where u: "?t = b @ u" using Cons by (auto simp: print_words_def)
    have "peek ''<>'' (b @ u) = (False, b @ u)" by (rule peek_word [OF wb]) (auto simp: symbols_def bytes_of_def)
    then have "parseredirs (EXEC (pre @ [a])) ?t = Inr (EXEC (pre @ [a]), ?t)" unfolding u by (subst parseredirs.simps) simp
    then show ?thesis unfolding e step using Cons.IH [of "pre @ [a]"] Cons.prems Cons by simp
  qed
qed simp

lemma parse_words:
  assumes "\<forall>r \<in> set rs. redir_ok r" and "ends ''|)&;'' s" and "\<forall>a \<in> set args. word a" and "length args < MAXARGS" and "0 < n"
  shows "parseexec n (print_words args @ print_redirs rs @ s) = Some (Inr (wrap rs (EXEC args), skip_ws s))"
proof -
  let ?t = "print_words args @ print_redirs rs @ s"
  obtain k where n: "n = Suc k" using assms(5) by (cases n) auto
  show ?thesis
  proof (cases args)
    case Nil
    have "hd (skip_ws ?t) \<noteq> ch CHR ''(''" if "skip_ws ?t \<noteq> []"
    proof (cases rs)
      case Nil
      then show ?thesis using that \<open>args = []\<close> assms(2) by (auto simp: print_words_def print_redirs_def ends_def bytes_of_def)
    next
      case (Cons r rs')
      obtain f m fd where r: "r = (f, m, fd)" by (metis prod_cases3)
      have "\<exists>x xs. print_redir f m fd = x # xs \<and> x \<in> set symbols \<and> x \<noteq> ch CHR ''(''" by (auto simp: print_redir_def symbols_def bytes_of_def)
      then show ?thesis using \<open>args = []\<close> Cons r by (auto simp: print_words_def print_redirs_def skip_ws_symbol)
    qed
    then have "peek ''('' ?t = (False, skip_ws ?t)" by (auto simp: peek_def bytes_of_def Let_def)
    moreover have "parseredirs (EXEC []) ?t = Inr (wrap rs (EXEC []), skip_ws s)" using parseredirs_print [OF assms(1,2)] Nil by (simp add: print_words_def)
    ultimately show ?thesis using n Nil parse_args_stop [OF assms(2)] by simp
  next
    case (Cons a as)
    have w: "word a" using assms(3) Cons by simp
    obtain u where u: "?t = a @ u" using Cons by (auto simp: print_words_def)
    have "peek ''('' (a @ u) = (False, a @ u)" "peek ''<>'' (a @ u) = (False, a @ u)" by (rule peek_word [OF w]; auto simp: symbols_def bytes_of_def)+
    then have "parseexec n ?t = Some (parse_args 0 (EXEC []) ?t)" unfolding u n by (simp add: parseredirs.simps [of _ "a @ u"])
    then show ?thesis using parse_args_print [OF assms(1,2), of args "[]"] assms(3,4) Cons by simp
  qed
qed

section \<open>Lines\<close>

text \<open>The text of \<open>c\<close> at each level is parsed as \<open>c\<close>, with enough depth and a suitable rest.\<close>

definition parses0 :: "cmd \<Rightarrow> bool" where
  "parses0 c \<longleftrightarrow> (\<forall>n s. 4 * length (print c 0) + 4 \<le> n \<longrightarrow> ends '')'' s \<longrightarrow> parseline n (print c 0 @ s) = Some (Inr (c, skip_ws s)))"

definition parses1 :: "cmd \<Rightarrow> bool" where
  "parses1 c \<longleftrightarrow> (\<forall>n s. 4 * length (print c 1) + 3 \<le> n \<longrightarrow> ends '')&;'' s \<longrightarrow>
     pbind (parsepipe n (print c 1 @ s)) (\<lambda>c s. Some (Inr (parse_backs c s))) = Some (Inr (parse_backs c s)))"

definition parses2 :: "cmd \<Rightarrow> bool" where
  "parses2 c \<longleftrightarrow> (\<forall>n s. 4 * length (print c 2) + 3 \<le> n \<longrightarrow> ends '')&;'' s \<longrightarrow> parsepipe n (print c 2 @ s) = Some (Inr (c, skip_ws s)))"

definition parses3 :: "cmd \<Rightarrow> bool" where
  "parses3 c \<longleftrightarrow> (\<forall>n s. 4 * length (print c 3) + 2 \<le> n \<longrightarrow> ends ''|)&;'' s \<longrightarrow> parseexec n (print c 3 @ s) = Some (Inr (c, skip_ws s)))"

lemma ends_mono: "ends toks s \<Longrightarrow> set (bytes_of toks) \<subseteq> set (bytes_of toks') \<Longrightarrow> ends toks' s"
  by (auto simp: ends_def)

lemma ends_symbol: "c \<in> set symbols \<Longrightarrow> c \<in> set (bytes_of toks) \<Longrightarrow> ends toks (c # s)"
  by (simp add: ends_def skip_ws_symbol)

lemma pbind_simps [simp]: "pbind (Some (Inr (c, s))) f = f c s" "pbind (pbind r f) g = pbind r (\<lambda>c s. pbind (f c s) g)"
  by (auto simp: pbind_def split: option.splits sum.splits)

lemma parse_backs_stop: "ends '');'' s \<Longrightarrow> parse_backs c s = (c, skip_ws s)"
  using peek_ends [of "'');''" s "''&''"] by (subst parse_backs.simps) (auto simp: bytes_of_def)

lemma parse_backs_amp: "parse_backs c (ch CHR ''&'' # s) = parse_backs (BACK c) s"
proof -
  have "peek ''&'' (ch CHR ''&'' # s) = (True, ch CHR ''&'' # s)" using peek_symbol [of "ch CHR ''&''"] by (simp add: symbols_def bytes_of_def)
  moreover have "gettoken (ch CHR ''&'' # s) = (ch CHR ''&'', [ch CHR ''&''], skip_ws s)" by (rule gettoken_symbol) (simp add: bytes_of_def)
  ultimately show ?thesis by (subst parse_backs.simps) simp
qed

lemma parseline_alt: "parseline (Suc n) ps = pbind (pbind (parsepipe n ps) (\<lambda>c s. Some (Inr (parse_backs c s)))) (\<lambda>c s.
     let (b, s) = peek '';'' s in
     if b then (let (_, _, s) = gettoken s in pbind (parseline n s) (\<lambda>r s. Some (Inr (LIST c r, s)))) else Some (Inr (c, s)))"
  by (simp add: Let_def case_prod_unfold) (simp add: pbind_def split: option.splits sum.splits prod.splits)

lemma parses_2: "parses3 c \<Longrightarrow> print c 2 = print c 3 \<Longrightarrow> parses2 c"
  unfolding parses2_def
proof (intro allI impI)
  fix n s assume c: "parses3 c" "print c 2 = print c 3" and n: "4 * length (print c 2) + 3 \<le> n" and e: "ends '')&;'' s"
  obtain k where k: "n = Suc k" using n by (cases n) auto
  have "ends ''|)&;'' s" by (rule ends_mono [OF e]) (auto simp: bytes_of_def)
  with c k n have "parseexec k (print c 2 @ s) = Some (Inr (c, skip_ws s))" by (simp add: parses3_def)
  then show "parsepipe n (print c 2 @ s) = Some (Inr (c, skip_ws s))"
    using k peek_ends [OF e, of "''|''"] by (simp add: bytes_of_def)
qed

lemma parses_1: "parses2 c \<Longrightarrow> print c 1 = print c 2 \<Longrightarrow> parses1 c"
  by (simp add: parses1_def parses2_def)

lemma parses_0: "parses1 c \<Longrightarrow> print c 0 = print c 1 \<Longrightarrow> parses0 c"
  unfolding parses0_def
proof (intro allI impI)
  fix n s assume c: "parses1 c" "print c 0 = print c 1" and n: "4 * length (print c 0) + 4 \<le> n" and e: "ends '')'' s"
  obtain k where k: "n = Suc k" using n by (cases n) auto
  have "ends '')&;'' s" "ends '');'' s" by (rule ends_mono [OF e]; auto simp: bytes_of_def)+
  with c k n have "pbind (parsepipe k (print c 0 @ s)) (\<lambda>c s. Some (Inr (parse_backs c s))) = Some (Inr (c, skip_ws s))"
    by (simp add: parses1_def parse_backs_stop)
  then show "parseline n (print c 0 @ s) = Some (Inr (c, skip_ws s))"
    unfolding k parseline_alt using peek_ends [OF e, of "'';''"] by (simp add: bytes_of_def)
qed

lemma parse_skip: "parseline m (skip_ws t) = parseline m t" "parsepipe m (skip_ws t) = parsepipe m t" "parseexec m (skip_ws t) = parseexec m t"
proof -
  show e: "parseexec m (skip_ws t) = parseexec m t" for m by (cases m) simp_all
  show p: "parsepipe m (skip_ws t) = parsepipe m t" for m by (cases m) (simp_all add: e)
  show "parseline m (skip_ws t) = parseline m t" by (cases m) (simp_all add: p)
qed

lemma parse_block:
  assumes c: "parses0 c" and rs: "\<forall>r \<in> set rs. redir_ok r" and e: "ends ''|)&;'' s" and n: "4 * length (print c 0) + 6 \<le> n"
  shows "parseexec n (ch CHR ''('' # print c 0 @ ch CHR '')'' # print_redirs rs @ s) = Some (Inr (wrap rs c, skip_ws s))"
proof -
  obtain k where k: "n = Suc (Suc k)" using n by (cases n; cases "n - 1") auto
  let ?r = "ch CHR '')'' # print_redirs rs @ s"
  let ?t = "print c 0 @ ?r"
  have p: "peek ''('' (ch CHR ''('' # ?t) = (True, ch CHR ''('' # ?t)" "peek '')'' ?r = (True, ?r)"
    by (simp_all add: peek_symbol symbols_def bytes_of_def)
  have g: "gettoken (ch CHR ''('' # ?t) = (ch CHR ''('', [ch CHR ''(''], skip_ws ?t)" "gettoken ?r = (ch CHR '')'', [ch CHR '')''], skip_ws (print_redirs rs @ s))"
    by (rule gettoken_symbol, simp add: bytes_of_def)+
  have "ends '')'' ?r" by (rule ends_symbol) (simp_all add: symbols_def bytes_of_def)
  then have l: "parseline k ?t = Some (Inr (c, ?r))" using c n k by (simp add: parses0_def skip_ws_symbol symbols_def bytes_of_def)
  show ?thesis using k p g l parse_skip(1) parseredirs_print [OF rs e, of c] by simp
qed

text \<open>The redirections around a command, and the command inside.\<close>

primrec inner :: "cmd \<Rightarrow> cmd" where
  "inner (EXEC a) = EXEC a"
| "inner (REDIR c f m fd) = inner c"
| "inner (PIPE l r) = PIPE l r"
| "inner (LIST l r) = LIST l r"
| "inner (BACK c) = BACK c"

primrec outer :: "cmd \<Rightarrow> (uint8 list \<times> uint32 \<times> nat) list" where
  "outer (EXEC a) = []"
| "outer (REDIR c f m fd) = outer c @ [(f, m, fd)]"
| "outer (PIPE l r) = []"
| "outer (LIST l r) = []"
| "outer (BACK c) = []"

lemma wrap_outer: "wrap (outer c) (inner c) = c"
  by (induction c) (simp_all add: wrap_def)

lemma print_inner: "print c 3 = print (inner c) 3 @ print_redirs (outer c)"
  by (induction c) (simp_all add: print_redirs_def)

lemma wf_outer: "cmd_wf c \<Longrightarrow> cmd_wf (inner c) \<and> (\<forall>r \<in> set (outer c). redir_ok r)"
  by (induction c) auto

lemma parses_3:
  assumes wf: "cmd_wf c" and p: "\<not> (\<exists>args. inner c = EXEC args) \<Longrightarrow> parses0 (inner c)"
  shows "parses3 c"
  unfolding parses3_def
proof (intro allI impI)
  fix n s assume n: "4 * length (print c 3) + 2 \<le> n" and e: "ends ''|)&;'' s"
  have ok: "cmd_wf (inner c)" "\<forall>r \<in> set (outer c). redir_ok r" using wf_outer [OF wf] by auto
  show "parseexec n (print c 3 @ s) = Some (Inr (c, skip_ws s))"
  proof (cases "\<exists>args. inner c = EXEC args")
    case True
    then obtain args where a: "inner c = EXEC args" by blast
    have "parseexec n (print_words args @ print_redirs (outer c) @ s) = Some (Inr (wrap (outer c) (EXEC args), skip_ws s))"
      by (rule parse_words [OF ok(2) e]) (use ok(1) a n in auto)
    then show ?thesis using a print_inner [of c] wrap_outer [of c] by simp
  next
    case False
    have i: "print (inner c) 3 = ch CHR ''('' # print (inner c) 0 @ [ch CHR '')'']"
      using False by (induction c) (simp_all add: paren_def)
    have t: "print c 3 = ch CHR ''('' # print (inner c) 0 @ ch CHR '')'' # print_redirs (outer c)" using print_inner [of c] i by simp
    have "parseexec n (ch CHR ''('' # print (inner c) 0 @ ch CHR '')'' # print_redirs (outer c) @ s) = Some (Inr (wrap (outer c) (inner c), skip_ws s))"
      by (rule parse_block [OF p [OF False] ok(2) e]) (use n t in simp)
    then show ?thesis using t wrap_outer [of c] by simp
  qed
qed

lemma parses_PIPE:
  assumes l: "parses3 l" and r: "parses2 r"
  shows "parses2 (PIPE l r)"
  unfolding parses2_def
proof (intro allI impI)
  fix n s assume n: "4 * length (print (PIPE l r) 2) + 3 \<le> n" and e: "ends '')&;'' s"
  obtain k where k: "n = Suc k" using n by (cases n) auto
  let ?u = "ch CHR ''|'' # print r 2 @ s"
  have t: "print (PIPE l r) 2 @ s = print l 3 @ ?u" by (simp add: paren_def)
  have "ends ''|)&;'' ?u" by (rule ends_symbol) (simp_all add: symbols_def bytes_of_def)
  then have 1: "parseexec k (print l 3 @ ?u) = Some (Inr (l, ?u))"
    using l n k by (simp add: parses3_def paren_def skip_ws_symbol symbols_def bytes_of_def)
  have p: "peek ''|'' ?u = (True, ?u)" by (simp add: peek_symbol symbols_def bytes_of_def)
  have g: "gettoken ?u = (ch CHR ''|'', [ch CHR ''|''], skip_ws (print r 2 @ s))" by (rule gettoken_symbol) (simp add: bytes_of_def)
  have 2: "parsepipe k (print r 2 @ s) = Some (Inr (r, skip_ws s))" using r n k e by (simp add: parses2_def paren_def)
  show "parsepipe n (print (PIPE l r) 2 @ s) = Some (Inr (PIPE l r, skip_ws s))"
    unfolding t k using 1 p g 2 parse_skip(2) [of k "print r 2 @ s"] by simp
qed

lemma parses_BACK:
  assumes c: "parses1 c"
  shows "parses1 (BACK c)"
  unfolding parses1_def
proof (intro allI impI)
  fix n s assume n: "4 * length (print (BACK c) 1) + 3 \<le> n" and e: "ends '')&;'' s"
  have t: "print (BACK c) 1 @ s = print c 1 @ ch CHR ''&'' # s" by (simp add: paren_def)
  have "ends '')&;'' (ch CHR ''&'' # s)" by (rule ends_symbol) (simp_all add: symbols_def bytes_of_def)
  then show "pbind (parsepipe n (print (BACK c) 1 @ s)) (\<lambda>c s. Some (Inr (parse_backs c s))) = Some (Inr (parse_backs (BACK c) s))"
    unfolding t using c n parse_backs_amp [of c s] by (simp add: parses1_def paren_def)
qed

lemma parses_LIST:
  assumes l: "parses1 l" and r: "parses0 r"
  shows "parses0 (LIST l r)"
  unfolding parses0_def
proof (intro allI impI)
  fix n s assume n: "4 * length (print (LIST l r) 0) + 4 \<le> n" and e: "ends '')'' s"
  obtain k where k: "n = Suc k" using n by (cases n) auto
  let ?u = "ch CHR '';'' # print r 0 @ s"
  have t: "print (LIST l r) 0 @ s = print l 1 @ ?u" by (simp add: paren_def)
  have u: "ends '')&;'' ?u" "ends '');'' ?u" by (rule ends_symbol, simp_all add: symbols_def bytes_of_def)+
  then have 1: "pbind (parsepipe k (print l 1 @ ?u)) (\<lambda>c s. Some (Inr (parse_backs c s))) = Some (Inr (l, ?u))"
    using l n k parse_backs_stop [OF u(2), of l] by (simp add: parses1_def paren_def skip_ws_symbol symbols_def bytes_of_def)
  have p: "peek '';'' ?u = (True, ?u)" by (simp add: peek_symbol symbols_def bytes_of_def)
  have g: "gettoken ?u = (ch CHR '';'', [ch CHR '';''], skip_ws (print r 0 @ s))" by (rule gettoken_symbol) (simp add: bytes_of_def)
  have 2: "parseline k (print r 0 @ s) = Some (Inr (r, skip_ws s))" using r n k e by (simp add: parses0_def paren_def)
  show "parseline n (print (LIST l r) 0 @ s) = Some (Inr (LIST l r, skip_ws s))"
    unfolding t k parseline_alt 1 using p g 2 parse_skip(1) [of k "print r 0 @ s"] by simp
qed

lemma parses_all: "cmd_wf c \<Longrightarrow> parses0 c \<and> parses1 c \<and> parses2 c \<and> parses3 c \<and> parses0 (inner c)"
proof (induction c)
  case (EXEC args)
  have "parses3 (EXEC args)" by (rule parses_3 [OF EXEC]) simp
  then show ?case using parses_2 [of "EXEC args"] parses_1 [of "EXEC args"] parses_0 [of "EXEC args"] by simp
next
  case (REDIR c f m fd)
  let ?c = "REDIR c f m fd"
  have "parses3 ?c" by (rule parses_3 [OF REDIR.prems]) (use REDIR in simp)
  then show ?case using REDIR parses_2 [of ?c] parses_1 [of ?c] parses_0 [of ?c] by simp
next
  case (PIPE l r)
  let ?c = "PIPE l r"
  have 2: "parses2 ?c" using PIPE by (intro parses_PIPE) simp_all
  then have 1: "parses1 ?c" by (rule parses_1) (simp add: paren_def)
  then have 0: "parses0 ?c" by (rule parses_0) (simp add: paren_def)
  have "parses3 ?c" by (rule parses_3 [OF PIPE.prems]) (use 0 in simp)
  with 0 1 2 show ?case by simp
next
  case (LIST l r)
  let ?c = "LIST l r"
  have 0: "parses0 ?c" using LIST by (intro parses_LIST) simp_all
  have 3: "parses3 ?c" by (rule parses_3 [OF LIST.prems]) (use 0 in simp)
  then have 2: "parses2 ?c" by (rule parses_2) (simp add: paren_def)
  then have "parses1 ?c" by (rule parses_1) (simp add: paren_def)
  with 0 2 3 show ?case by simp
next
  case (BACK c)
  let ?c = "BACK c"
  have 1: "parses1 ?c" using BACK by (intro parses_BACK) simp
  then have 0: "parses0 ?c" by (rule parses_0) (simp add: paren_def)
  have 3: "parses3 ?c" by (rule parses_3 [OF BACK.prems]) (use 0 in simp)
  then have "parses2 ?c" by (rule parses_2) (simp add: paren_def)
  with 0 1 3 show ?case by simp
qed

text \<open>
  C15. Every command the language of the shell can express, written with words, redirections, pipes, lists, ampersands and
  parentheses, is parsed back as the same command: \<open>parsecmd\<close> recognises every construct and gives the operators
  their precedence.
\<close>

theorem parsecmd_print:
  assumes "cmd_wf c"
  shows "parsecmd (print c 0) = Some (Inr c)"
proof -
  have "ends '')'' []" by (simp add: ends_def skip_ws_def)
  then have "parseline (4 * length (print c 0) + 4) (print c 0 @ []) = Some (Inr (c, skip_ws []))"
    using parses_all [OF assms] by (simp only: parses0_def)
  then show ?thesis by (simp add: parsecmd_def peek_def skip_ws_def)
qed

theorem parsecmd_print_witness:
  "parsecmd (print (LIST (PIPE (EXEC [[108, 115]]) (REDIR (EXEC [[119, 99]]) [102] (O_WRONLY OR O_CREATE) 1)) (BACK (EXEC [[97], [98]]))) 0) =
     Some (Inr (LIST (PIPE (EXEC [[108, 115]]) (REDIR (EXEC [[119, 99]]) [102] (O_WRONLY OR O_CREATE) 1)) (BACK (EXEC [[97], [98]]))))"
  using parsecmd_print [of "LIST (PIPE (EXEC [[108, 115]]) (REDIR (EXEC [[119, 99]]) [102] (O_WRONLY OR O_CREATE) 1)) (BACK (EXEC [[97], [98]]))"]
  by (simp add: redir_ok_def word_def char_sets MAXARGS_def)

end
