(* ===== verification/Spec2Isabelle.thy ===== *)
theory Spec2Isabelle
  imports Freewalk Copyuser Trap Fsdir Pipeprops Printing Path Fair Grep Shell
begin

text \<open>
  \<^bold>\<open>A verification development for the kernel of tatakOS\<close>

  tatakOS is a RISC-V kernel in C in the tradition of xv6. This library translates its C code into
  functions of HOL and proves what makes its lower half correct: the memory allocator, page tables and
  the copies to and from user memory, spin locks, the buffer cache, the crash-safe log, and on top of
  them blocks, inodes, file content and directories.

  \<^bold>\<open>How the code is modelled.\<close> A kernel routine is a function on the state of the kernel in the monad
  \<open>kmonad\<close> of \<open>Prelude\<close>. Its outcome is \<open>Ok\<close> of a result and a new state, \<open>Panic\<close> of a message (the
  code calls \<^verbatim>\<open>panic\<close>, which never returns), \<open>Sleep\<close> on a channel (the process waits for another one), or
  \<open>Diverge\<close> (a loop has used up its iterations). The state is one record that grows with the components:
  physical memory and the free list (\<open>kmem\<close>), processes, harts and spin locks (\<open>tasks\<close>), sleep locks, the buffer
  cache with the disk (\<open>bio\<close>), the log (\<open>logged\<close>), the super block and the inode table (\<open>fsys\<close>), the devices,
  pipes, open files, and the clock. A routine is polymorphic in the fields it does not know. Machine
  integers are words of their C width; a struct is a record; a pointer into a kernel table is the index in the
  table, a pointer to memory a 64-bit address. Structures in memory or on the disk that the code reads by
  casting are read and written byte by byte (\<open>Bytes\<close>, \<open>Fsdata\<close>).

  \<^bold>\<open>Parts, theories and sources\<close> (paths below \<^verbatim>\<open>src/\<close> of the repository).

  \<^item> \<open>Prelude\<close>: types of \<^verbatim>\<open>types.h\<close>, the monad and its rules. \<open>Param\<close>: \<^verbatim>\<open>param.h\<close>. \<open>Kstring\<close>: \<^verbatim>\<open>lib/string.c\<close>.
    \<open>Bytes\<close>: little-endian access. \<open>Riscv\<close>: \<^verbatim>\<open>riscv.h\<close> and \<^verbatim>\<open>memlayout.h\<close>.
  \<^item> \<open>Kalloc\<close>: \<^verbatim>\<open>mm/kalloc.c\<close>; the free list lives inside the free pages. Its contract, a stack of pages, is the
    locale \<open>page_allocator\<close>, interpreted on \<open>kalloc\<close> and \<open>kfree\<close>.
  \<^item> \<open>Vm\<close>: \<^verbatim>\<open>mm/vm.c\<close> with page tables in physical memory. \<open>Pagetable\<close> gives their structure, a tree of pages;
    \<open>Walk\<close>, \<open>Usermem\<close>, \<open>Copyuser\<close> and \<open>Freewalk\<close> prove what \<open>walk\<close>, \<open>mappages\<close>, \<open>uvmalloc\<close>, \<open>uvmdealloc\<close>, \<open>copyout\<close>, \<open>copyin\<close>
    and \<open>freewalk\<close> do to it.
  \<^item> \<open>Task\<close>, \<open>Spinlock\<close>, \<open>Sched\<close>, \<open>Sleeplock\<close>: \<^verbatim>\<open>proc.h\<close>, \<^verbatim>\<open>spinlock.c\<close>, \<^verbatim>\<open>proc.c\<close> and \<^verbatim>\<open>sleeplock.c\<close>. \<open>Spinlock\<close> also interleaves
    the steps of \<open>acquire\<close> and \<open>release\<close> of all harts in the relation \<open>lock_step\<close> and proves mutual exclusion by rule
    induction. \<open>Quiet\<close> gives the results of the locking routines when no other hart interferes.
  \<^item> \<open>Bio\<close>: \<^verbatim>\<open>fs/bio.c\<close>. \<open>Bcache\<close> is its invariant and the contract of every operation: seen from above, the cache is a
    function \<open>view\<close> from block numbers to contents. \<open>Bufprops\<close>: the properties of the cache.
  \<^item> \<open>Log\<close>: \<^verbatim>\<open>fs/log.c\<close>. \<open>Crash\<close> proves that \<open>commit\<close> is atomic when the machine stops after any of its disk writes;
    \<open>Txn\<close> is the contract of \<open>begin_op\<close>, \<open>log_write\<close> and \<open>end_op\<close>: between the first and the last the process is
    \<open>intx\<close>, inside a transaction.
  \<^item> \<open>Fs\<close>: \<^verbatim>\<open>fs/fs.c\<close> on the format of \<open>Fsdata\<close> (\<^verbatim>\<open>fs.h\<close>). \<open>Fsblocks\<close>, \<open>Fsinode\<close>, \<open>Fsfile\<close> and \<open>Fsdir\<close> prove, inside a transaction,
    what block allocation, inode update, \<open>readi\<close>, \<open>writei\<close>, \<open>iget\<close>, \<open>dirlookup\<close> and \<open>dirlink\<close> do to the content of the disk.
    \<open>Path\<close>: \<open>skipelem\<close> takes a path apart.
  \<^item> \<open>Ring\<close>: the contract of a bounded queue (locale \<open>fifo\<close>) and the ring buffers that implement it (locale \<open>ring\<close>, with a
    sublocale), interpreted for the serial port, the console and the pipe.
  \<^item> \<open>Device\<close>, \<open>Uart\<close>, \<open>Console\<close>, \<open>Virtio\<close>: the drivers, \<^verbatim>\<open>plic.c\<close>, \<^verbatim>\<open>console.c\<close> and \<^verbatim>\<open>lib/printf.c\<close>. \<open>Serial\<close> proves that output
    is sent in order and that \<open>consoleintr\<close> is a line editor, \<open>Printing\<close> that numbers are printed right.
  \<^item> \<open>Pipe\<close>, \<open>File\<close>: \<^verbatim>\<open>fs/pipe.c\<close> and \<^verbatim>\<open>fs/file.c\<close>; \<open>Pipeprops\<close> proves that a pipe is a queue of bytes. \<open>Demo_state\<close> has the concrete
    states on which properties of these parts are evaluated. \<open>Fair\<close>: the scheduler runs every runnable process.
  \<^item> \<open>Grep\<close>: the user program \<^verbatim>\<open>user/grep/grep.c\<close>. Its matcher decides the language of the pattern, and its loop prints the
    matching lines however \<open>read\<close> cuts the input. \<open>Shell\<close>: the parser of \<^verbatim>\<open>user/sh/sh.c\<close>; it returns on every input, and parses
    back every command of its language.
  \<^item> \<open>Process\<close>, \<open>Exec\<close>, \<open>Sysfile\<close>, \<open>Trap\<close>: the rest of \<^verbatim>\<open>proc.c\<close>, \<^verbatim>\<open>exec.c\<close>, \<^verbatim>\<open>syscall.c\<close>, \<^verbatim>\<open>sysfile.c\<close>,
    \<^verbatim>\<open>sysproc.c\<close>, \<^verbatim>\<open>trap.c\<close> and \<^verbatim>\<open>main.c\<close>.

  \<^bold>\<open>Bounds and fuel.\<close> Loops over a counter are recursive in it. A loop whose end is a matter of data has a fuel
  argument: \<open>mappages\<close> and \<open>uvmalloc\<close> one iteration per page of the range, \<open>freerange\<close> one per page of memory,
  \<open>freewalk\<close> the number of pages there are; the theorems state that the routines return \<open>Ok\<close>, so the fuel is enough.
  \<open>copyin\<close>, \<open>copyout\<close>, \<open>namex\<close> and the loops of \<open>readi\<close> and \<open>writei\<close> have a termination proof. The parser of the shell may call itself 4 times per byte of the input
  and 4 times more, which is shown to be enough. Loops that poll a device register give up after \<open>poll_limit\<close> reads.

  \<^bold>\<open>Concurrency.\<close> Mutual exclusion of spin locks is proved for every interleaving. The other theorems are about
  a process that runs in a \<open>quiet\<close> state, in which the locks it takes are free; waiting for a lock is the
  outcome \<open>Diverge\<close> or \<open>Sleep\<close>. What other processes do while a routine sleeps is an argument of the routine.

  \<^bold>\<open>Not modelled.\<close> The assembly code (\<^verbatim>\<open>asm/\<close>): register saving and stack switching are below the C model. The
  firmware behind \<^verbatim>\<open>sbi.h\<close> and the devices: they are parameters. The other user programs, what the shell does with a
  parsed command, and the library they link: they run above the system-call interface, and nothing in the kernel depends on them. The host program \<^verbatim>\<open>script/mkfs.c\<close>.
\<close>

end
